(* ===== verification/Prelude.thy ===== *)
theory Prelude imports Main "HOL-Library.Word" begin

text \<open>
  Prelude of the verification library for patton: the types and failures that every
  component shares, the collections of hints, and the generic lemmas on words and lists.

  \<^item> A \<^verbatim>\<open>std::size_t\<close> is a 64-bit word (the library targets 64-bit platforms), so that
    the wrap-around of unsigned arithmetic is the machine's.
  \<^item> A C++ \<^verbatim>\<open>int\<close> is a HOL \<^verbatim>\<open>int\<close>; signed overflow is undefined behaviour in C++,
    and the bounds the code keeps are proved where a loop could reach them.
  \<^item> A call that does not return normally is a value of \<^verbatim>\<open>failure\<close>.
\<close>

unbundle bit_operations_syntax

section \<open>Types and failures\<close>

type_synonym size_t = "64 word"
type_synonym byte = "8 word"

text \<open>
  How a call ends when it does not return a value: an exception that the code throws,
  a violated contract (\<^verbatim>\<open>gsl_Expects\<close>, \<^verbatim>\<open>gsl_Assert\<close>, \<^verbatim>\<open>gsl_FailFast\<close>, all of which
  terminate the program), or undefined behaviour of the language.
\<close>

datatype failure =
    BadAlloc               \<comment> \<open>\<^verbatim>\<open>std::bad_alloc\<close>\<close>
  | SystemError int        \<comment> \<open>\<^verbatim>\<open>std::system_error\<close> with this error code\<close>
  | NotSupported           \<comment> \<open>\<^verbatim>\<open>std::errc::not_supported\<close>\<close>
  | RangeError             \<comment> \<open>\<^verbatim>\<open>std::range_error\<close>\<close>
  | RuntimeError           \<comment> \<open>\<^verbatim>\<open>std::runtime_error\<close>\<close>
  | BadOptionalAccess      \<comment> \<open>\<^verbatim>\<open>std::bad_optional_access\<close>\<close>
  | ElementException nat   \<comment> \<open>an exception of an element's constructor\<close>
  | Terminated             \<comment> \<open>\<^verbatim>\<open>std::terminate()\<close>: an exception left a \<^verbatim>\<open>noexcept\<close> function\<close>
  | ContractViolation      \<comment> \<open>a failed contract check\<close>
  | UndefinedBehaviour     \<comment> \<open>an operation the language gives no meaning to\<close>

type_synonym 'a res = "failure + 'a"

definition res_bind :: "'a res \<Rightarrow> ('a \<Rightarrow> 'b res) \<Rightarrow> 'b res" where
  "res_bind r f = (case r of Inl e \<Rightarrow> Inl e | Inr x \<Rightarrow> f x)"

named_theorems res_simps \<open>unfolding of the result monad\<close>

lemma res_bind_simps [simp, res_simps]:
  "res_bind (Inl e) f = Inl e"
  "res_bind (Inr x) f = f x"
  by (simp_all add: res_bind_def)

lemma res_bind_Inr_iff:
  "res_bind r f = Inr y \<longleftrightarrow> (\<exists>x. r = Inr x \<and> f x = Inr y)"
  by (cases r) simp_all

lemma res_bind_Inl_iff:
  "res_bind r f = Inl e \<longleftrightarrow> r = Inl e \<or> (\<exists>x. r = Inr x \<and> f x = Inl e)"
  by (cases r) auto

lemma res_bind_cong [fundef_cong]:
  "r = r' \<Longrightarrow> (\<And>x. r' = Inr x \<Longrightarrow> f x = f' x) \<Longrightarrow> res_bind r f = res_bind r' f'"
  by (cases r') simp_all

section \<open>Words of the machine's size\<close>

named_theorems size_t_simps \<open>reading unsigned arithmetic back as natural numbers\<close>

lemma unat_size_t_bound: "unat (x :: size_t) < 2 ^ 64"
  using unsigned_less [of x, where ?'a = nat] by simp

lemma unat_add_no_wrap [size_t_simps]:
  "unat (x :: size_t) + unat y < 2 ^ 64 \<Longrightarrow> unat (x + y) = unat x + unat y"
  by (simp add: unat_word_ariths)

lemma unat_mult_no_wrap [size_t_simps]:
  "unat (x :: size_t) * unat y < 2 ^ 64 \<Longrightarrow> unat (x * y) = unat x * unat y"
  by (simp add: unat_word_ariths)

lemma unat_sub_no_wrap [size_t_simps]:
  "(y :: size_t) \<le> x \<Longrightarrow> unat (x - y) = unat x - unat y"
  by (rule unat_sub)

lemma unat_of_nat_no_wrap [size_t_simps]:
  "n < 2 ^ 64 \<Longrightarrow> unat (word_of_nat n :: size_t) = n"
  by (simp add: unsigned_of_nat take_bit_nat_eq_self)

lemma unat_max_size_t: "unat (- 1 :: size_t) = 2 ^ 64 - 1"
  by (simp add: unsigned_minus_1_eq_mask mask_eq_exp_minus_1)

subsection \<open>Bits and powers of two\<close>

lemma unat_exp [size_t_simps]: "m < 64 \<Longrightarrow> unat (2 ^ m :: size_t) = 2 ^ m"
  using unat_of_nat_no_wrap [of "2 ^ m"] power_strict_increasing [of m 64 "2 :: nat"] by simp

lemma unat_less_exp_iff: "(unat (x::size_t) < 2 ^ m) \<longleftrightarrow> (\<forall>n\<ge>m. \<not> bit x n)"
proof
  assume l: "unat x < 2 ^ m"
  show "\<forall>n\<ge>m. \<not> bit x n"
  proof (intro allI impI)
    fix n assume "m \<le> n"
    then have "unat x < 2 ^ n" using l by (meson less_le_trans power_increasing one_le_numeral)
    then have "\<not> bit (unat x) n" by (simp add: bit_iff_odd)
    then show "\<not> bit x n" by (cases "n < 64") (auto simp: bit_unsigned_iff dest: bit_imp_le_length)
  qed
next
  assume "\<forall>n\<ge>m. \<not> bit x n"
  then have "take_bit m x = x" by (intro bit_eqI) (metis bit_take_bit_iff not_le)
  then have "unat x = unat (take_bit m x)" by simp
  also have "\<dots> < 2 ^ m" by (simp add: unsigned_take_bit_eq)
  finally show "unat x < 2 ^ m" .
qed

lemma highest_bit: 
  assumes "x \<noteq> (0::size_t)"
  obtains m where "m < 64" "2 ^ m \<le> unat x" "unat x < 2 ^ (m + 1)"
proof -
  have "1 \<le> unat x" using assms by (simp add: Suc_le_eq unat_gt_0)
  then obtain m where m: "2 ^ m \<le> unat x" "unat x < 2 ^ (m + 1)"
    using ex_power_ivl1 [of 2 "unat x"] by auto
  have "(2::nat) ^ m < 2 ^ 64" using m(1) unat_size_t_bound [of x] by linarith
  then have "m < 64" by (rule power_less_imp_less_exp [rotated]) simp
  with m show ?thesis by (intro that) 
qed

lemma unat_or_less_iff:
  "unat (a OR b :: size_t) < 2 ^ k \<longleftrightarrow> unat a < 2 ^ k \<and> unat b < 2 ^ k"
  by (auto simp: unat_less_exp_iff bit_or_iff)

lemma top_bit_set:
  assumes "2 ^ m \<le> unat (x :: size_t)" "unat x < 2 ^ (m + 1)"
  shows "bit x m"
proof -
  have "unat x div 2 ^ m = 1" using assms by (simp add: div_nat_eqI)
  then have "bit (unat x) m" by (simp add: bit_iff_odd)
  then show ?thesis by (simp add: bit_unsigned_iff)
qed

lemma less_exp_mono: "x \<le> y \<Longrightarrow> unat (y :: size_t) < 2 ^ m \<Longrightarrow> unat x < 2 ^ m"
  by (simp add: word_le_nat_alt)

lemma bit_size_t_less: "bit (a :: size_t) n \<Longrightarrow> n < 64"
  using bit_imp_le_length by fastforce

lemma and_exp_neq_0: "(a :: size_t) AND 2 ^ n \<noteq> 0 \<longleftrightarrow> bit a n"
  by (simp add: and_exp_eq_0_iff_not_bit)

lemma and_or_neq_0: "(a :: size_t) AND (b OR c) \<noteq> 0 \<longleftrightarrow> a AND b \<noteq> 0 \<or> a AND c \<noteq> 0"
proof -
  have "a AND (b OR c) = 0 \<longleftrightarrow> a AND b = 0 \<and> a AND c = 0"
    by (auto simp: bit_eq_iff bit_and_iff bit_or_iff)
  then show ?thesis by blast
qed

end
