(* ===== verification/Checked_Arith.thy ===== *)
theory Checked_Arith imports Prelude begin

text \<open>
  The checked arithmetic of \<^verbatim>\<open>include/patton/detail/arithmetic.hpp\<close>, on \<^verbatim>\<open>std::size_t\<close>, the
  only type it is instantiated with (by the buffers and the page allocators).
\<close>

section \<open>The operations\<close>

text \<open>\<^verbatim>\<open>std::errc\<close>, as far as the code uses it: \<^verbatim>\<open>std::errc{ }\<close> is the value 0.\<close>

datatype errc = NoError | ValueTooLarge

record arithmetic_result =
  arith_value :: size_t
  arith_ec :: errc

definition try_multiply_unsigned :: "size_t \<Rightarrow> size_t \<Rightarrow> arithmetic_result" where
  "try_multiply_unsigned a b =
     (if b > 0 \<and> a > - 1 div b then \<lparr>arith_value = 0, arith_ec = ValueTooLarge\<rparr>
      else \<lparr>arith_value = a * b, arith_ec = NoError\<rparr>)"

text \<open>
  \<^verbatim>\<open>try_ceili(x, d)\<close>. The remainder of a division by zero is undefined behaviour, which is
  the branch \<^verbatim>\<open>d = 0\<close>; the early return for \<^verbatim>\<open>x = 0\<close> comes before it.
\<close>

definition try_ceili :: "size_t \<Rightarrow> size_t \<Rightarrow> arithmetic_result res" where
  "try_ceili x d =
     (if x = 0 then Inr \<lparr>arith_value = 0, arith_ec = NoError\<rparr>
      else if d = 0 then Inl UndefinedBehaviour
      else let dx = d - (x - 1) mod d - 1
           in if x > - 1 - dx then Inr \<lparr>arith_value = 0, arith_ec = ValueTooLarge\<rparr>
              else Inr \<lparr>arith_value = x + dx, arith_ec = NoError\<rparr>)"

section \<open>Functional correctness\<close>

subsection \<open>Multiplication\<close>

lemma try_multiply_unsigned_exact:
  "try_multiply_unsigned a b =
     (if unat a * unat b < 2 ^ 64 then \<lparr>arith_value = a * b, arith_ec = NoError\<rparr>
      else \<lparr>arith_value = 0, arith_ec = ValueTooLarge\<rparr>)"
proof (cases "b = 0")
  case True
  then show ?thesis by (simp add: try_multiply_unsigned_def)
next
  case False
  then have b: "0 < b" "0 < unat b" by (simp_all add: word_gt_0 unat_gt_0)
  have "a > - 1 div b \<longleftrightarrow> unat a > (2 ^ 64 - 1) div unat b"
    by (simp only: word_less_nat_alt unat_div unat_max_size_t)
  also have "\<dots> \<longleftrightarrow> \<not> unat a * unat b < 2 ^ 64"
    using b(2) div_less_iff_less_mult [of "unat b" "2 ^ 64 - 1" "unat a"] 
    by (auto simp: not_less)
  finally show ?thesis using b(1) by (simp add: try_multiply_unsigned_def)
qed

text \<open>
  \<^verbatim>\<open>try_multiply_unsigned\<close> reports \<^verbatim>\<open>value_too_large\<close> exactly when the product of the two
  unsigned numbers does not fit into a \<^verbatim>\<open>size_t\<close>, and otherwise returns that product, without
  wrapping around.
\<close>

theorem try_multiply_unsigned_correct:
  "try_multiply_unsigned a b =
     (if unat a * unat b < 2 ^ 64
      then \<lparr>arith_value = word_of_nat (unat a * unat b), arith_ec = NoError\<rparr>
      else \<lparr>arith_value = 0, arith_ec = ValueTooLarge\<rparr>)"
  by (simp add: try_multiply_unsigned_exact)

subsection \<open>Rounding up to a multiple\<close>

text \<open>The least multiple of \<^term>\<open>d\<close> that is not below \<^term>\<open>x\<close>, on the natural numbers.\<close>

definition ceil_multiple :: "nat \<Rightarrow> nat \<Rightarrow> nat" where
  "ceil_multiple x d = (x + d - 1) div d * d"

lemma ceil_multiple_ge: "0 < d \<Longrightarrow> x \<le> ceil_multiple x d"
proof (cases "x = 0")
  case False
  assume d: "0 < d"
  have "x + d - 1 < d + (x + d - 1) div d * d"
    using d by (rule dividend_less_div_times)
  then show ?thesis using False by (simp add: ceil_multiple_def)
qed simp

lemma ceil_multiple_dvd: "d dvd ceil_multiple x d"
  by (simp add: ceil_multiple_def)

lemma ceil_multiple_least:
  assumes "0 < d" "d dvd k" "x \<le> k"
  shows "ceil_multiple x d \<le> k"
proof -
  from assms(2) obtain q where q: "k = d * q" ..
  have "x + d - 1 < d * (q + 1)" using assms q by simp
  then have "(x + d - 1) div d < q + 1" using assms(1) by (simp add: less_mult_imp_div_less mult.commute)
  then show ?thesis by (simp add: ceil_multiple_def q)
qed

lemma ceil_multiple_less: "0 < d \<Longrightarrow> ceil_multiple x d < x + d"
  unfolding ceil_multiple_def
  by (cases "x = 0") (auto intro: le_less_trans [OF div_times_less_eq_dividend])

lemma ceil_multiple_step:
  fixes x d :: nat
  assumes "0 < x" "0 < d"
  shows "ceil_multiple x d = x + (d - (x - 1) mod d - 1)"
proof -
  have m: "(x - 1) mod d < d" using assms by simp
  have sub: "x + d - 1 = (x - 1) + d" using assms by simp
  have "((x - 1) + d) div d = (x - 1) div d + 1"
    by (rule div_add_self2) (use assms in simp)
  then have "ceil_multiple x d = (x - 1) div d * d + d" unfolding ceil_multiple_def sub by simp
  also have "\<dots> = (x - 1) - (x - 1) mod d + d" by (simp add: minus_mod_eq_div_mult)
  also have "\<dots> = x + (d - (x - 1) mod d - 1)"
    using m assms mod_less_eq_dividend [of "x - 1" d] by linarith
  finally show ?thesis .
qed

lemma try_ceili_exact:
  assumes "d \<noteq> 0"
  shows "try_ceili x d =
     Inr (if ceil_multiple (unat x) (unat d) < 2 ^ 64
          then \<lparr>arith_value = word_of_nat (ceil_multiple (unat x) (unat d)), arith_ec = NoError\<rparr>
          else \<lparr>arith_value = 0, arith_ec = ValueTooLarge\<rparr>)"
proof (cases "x = 0")
  case True
  then show ?thesis using assms(1) by (simp add: try_ceili_def ceil_multiple_def unat_gt_0)
next
  case False
  then have pos: "0 < unat x" "0 < unat d" using assms(1) by (simp_all add: unat_gt_0)
  define dx where "dx = d - (x - 1) mod d - 1"
  have r: "unat ((x - 1) mod d) = (unat x - 1) mod unat d"
    using pos by (simp add: unat_mod unat_sub word_le_nat_alt)
  have rl: "(unat x - 1) mod unat d < unat d" using pos by simp
  have dx: "unat dx = unat d - (unat x - 1) mod unat d - 1"
    unfolding dx_def using rl by (simp add: unat_sub word_le_nat_alt r)
  have m: "ceil_multiple (unat x) (unat d) = unat x + unat dx" unfolding dx by (rule ceil_multiple_step [OF pos])
  have "x > - 1 - dx \<longleftrightarrow> unat x > 2 ^ 64 - 1 - unat dx"
    by (simp only: word_less_nat_alt unat_sub [OF word_n1_ge] unat_max_size_t)
  also have "\<dots> \<longleftrightarrow> \<not> ceil_multiple (unat x) (unat d) < 2 ^ 64"
    using unat_size_t_bound [of dx] by (auto simp: m)
  finally show ?thesis
    using False assms(1) by (simp add: try_ceili_def Let_def m flip: dx_def)
qed
text \<open>
  C40: for a divisor other than 0, \<^verbatim>\<open>try_ceili(x, d)\<close> always returns; without an error code the
  value is the least multiple of \<^term>\<open>d\<close> that is at least \<^term>\<open>x\<close>, and the error code
  \<^verbatim>\<open>value_too_large\<close> means that no multiple of \<^term>\<open>d\<close> that fits into a \<^verbatim>\<open>size_t\<close> is at least
  \<^term>\<open>x\<close>.
\<close>

theorem try_ceili_least_multiple:
  assumes "d \<noteq> 0"
  shows "\<exists>r. try_ceili x d = Inr r \<and>
     (arith_ec r = NoError \<longrightarrow>
        unat d dvd unat (arith_value r) \<and> x \<le> arith_value r \<and>
        (\<forall>k. unat d dvd k \<and> unat x \<le> k \<longrightarrow> unat (arith_value r) \<le> k)) \<and>
     (arith_ec r = ValueTooLarge \<longrightarrow> (\<forall>k. unat d dvd k \<and> unat x \<le> k \<longrightarrow> 2 ^ 64 \<le> k))"
proof -
  have d: "0 < unat d" using assms by (simp add: unat_gt_0)
  let ?m = "ceil_multiple (unat x) (unat d)"
  note facts = ceil_multiple_ge [OF d, of "unat x"] ceil_multiple_dvd [of "unat d" "unat x"]
    ceil_multiple_least [OF d, of _ "unat x"]
  show ?thesis
  proof (cases "?m < 2 ^ 64")
    case True
    then have "unat (word_of_nat ?m :: size_t) = ?m" by (rule unat_of_nat_no_wrap)
    with True facts show ?thesis
      by (auto simp: try_ceili_exact [OF assms] word_le_nat_alt)
  next
    case False
    with facts show ?thesis
      by (auto simp: try_ceili_exact [OF assms] not_less intro: order_trans)
  qed
qed

theorem try_ceili_least_multiple_witness:
  "(4096 :: size_t) \<noteq> 0 \<and> (\<exists>r. try_ceili 5000 4096 = Inr r \<and> 5000 \<le> arith_value r)"
  using try_ceili_least_multiple [of 4096 5000] by (simp add: try_ceili_def)

end
