(* ===== verification/Alignment.thy ===== *)
theory Alignment imports Prelude begin

text \<open>
  Alignment values: the special values of \<^verbatim>\<open>include/patton/memory.hpp\<close>, the bit tricks and
  predicates of \<^verbatim>\<open>include/patton/detail/memory.hpp\<close>, and the run-time lookup of
  \<^verbatim>\<open>src/memory.cpp\<close>. The page and cache-line sizes that the lookup reads from the hardware
  queries of \<^verbatim>\<open>src/new.cpp\<close> are the fields of a record; the compile-time constant
  \<^verbatim>\<open>std::hardware_constructive_interference_size\<close> is a parameter.
\<close>

section \<open>Definitions\<close>

subsection \<open>Special alignment values\<close>

definition large_page_alignment :: size_t where
  "large_page_alignment = - 1 AND NOT (drop_bit 1 (- 1))"

definition page_alignment :: size_t where
  "page_alignment = drop_bit 1 (- 1 AND NOT (drop_bit 1 (- 1)))"

definition cache_line_alignment :: size_t where
  "cache_line_alignment = drop_bit 2 (- 1 AND NOT (drop_bit 1 (- 1)))"

definition special_alignments :: size_t where
  "special_alignments = - 1 AND NOT (drop_bit 3 (- 1))"

subsection \<open>Powers of two\<close>

text \<open>
  With a \<^verbatim>\<open>size_t\<close> of 8 bytes the two conditional shifts are a shift by 32 and a shift by 0.
\<close>

definition floor_2p :: "size_t \<Rightarrow> size_t" where
  "floor_2p x0 =
     (let x1 = x0 OR drop_bit 1 x0;
          x2 = x1 OR drop_bit 2 x1;
          x3 = x2 OR drop_bit 4 x2;
          x4 = x3 OR drop_bit 8 x3;
          x5 = x4 OR drop_bit 16 x4;
          x6 = x5 OR drop_bit 32 x5;
          x7 = x6 OR drop_bit 0 x6
      in drop_bit 1 (x7 + 1))"

definition raw_alignment_in_bytes :: "size_t \<Rightarrow> size_t" where
  "raw_alignment_in_bytes a = max 1 (floor_2p a)"

definition is_alignment_power_of_2 :: "size_t \<Rightarrow> bool" where
  "is_alignment_power_of_2 v \<longleftrightarrow> v > 0 \<and> v AND (v - 1) = 0"

subsection \<open>Static and dynamic alignment\<close>

definition provides_static_alignment :: "size_t \<Rightarrow> size_t \<Rightarrow> size_t \<Rightarrow> bool" where
  "provides_static_alignment constructive_size alignmentProvided alignmentRequested =
     (let basicAlignmentProvided = alignmentProvided AND NOT special_alignments;
          basicAlignmentRequested = alignmentRequested AND NOT special_alignments;
          basicAlignmentProvided =
            (if alignmentProvided AND special_alignments \<noteq> 0
             then basicAlignmentProvided OR constructive_size else basicAlignmentProvided)
      in raw_alignment_in_bytes basicAlignmentProvided \<ge> raw_alignment_in_bytes basicAlignmentRequested
         \<and> alignmentProvided AND special_alignments \<ge> alignmentRequested AND special_alignments)"

text \<open>What \<^verbatim>\<open>hardware_large_page_size()\<close> and its siblings return.\<close>

record hardware_sizes =
  hw_large_page_size :: size_t
  hw_page_size :: size_t
  hw_cache_line_size :: size_t

definition lookup_special_alignments :: "hardware_sizes \<Rightarrow> size_t \<Rightarrow> size_t" where
  "lookup_special_alignments hw a0 =
     (let a1 = (if a0 AND large_page_alignment \<noteq> 0 then a0 OR hw_large_page_size hw else a0);
          a2 = (if a1 AND (large_page_alignment OR page_alignment) \<noteq> 0
                then a1 OR hw_page_size hw else a1);
          a3 = (if a2 AND cache_line_alignment \<noteq> 0 then a2 OR hw_cache_line_size hw else a2)
      in a3 AND NOT (large_page_alignment OR page_alignment OR cache_line_alignment))"

definition alignment_in_bytes :: "hardware_sizes \<Rightarrow> size_t \<Rightarrow> size_t" where
  "alignment_in_bytes hw a = max 1 (floor_2p (lookup_special_alignments hw a))"

definition provides_dynamic_alignment :: "hardware_sizes \<Rightarrow> size_t \<Rightarrow> size_t \<Rightarrow> bool" where
  "provides_dynamic_alignment hw alignmentProvided alignmentRequested \<longleftrightarrow>
     alignment_in_bytes hw alignmentProvided \<ge> alignment_in_bytes hw alignmentRequested"

section \<open>Powers of two\<close>

text \<open>
  the predicate \<^verbatim>\<open>is_alignment_power_of_2\<close> (clear the lowest bit set, compare with 0) accepts
  exactly the powers of two.
\<close>

theorem is_alignment_power_of_2_iff:
  "is_alignment_power_of_2 v \<longleftrightarrow> (\<exists>m<64. unat v = 2 ^ m)"
proof
  assume v: "is_alignment_power_of_2 v"
  then have nz: "v \<noteq> 0" by (auto simp: is_alignment_power_of_2_def)
  obtain m where m: "m < 64" "2 ^ m \<le> unat v" "unat v < 2 ^ (m + 1)"
    using highest_bit [OF nz] .
  have "unat v = 2 ^ m"
  proof (rule ccontr)
    assume "unat v \<noteq> 2 ^ m"
    with m(2) have "2 ^ m \<le> unat v - 1" by simp
    moreover have "unat (v - 1) = unat v - 1" using nz by (simp add: unat_minus_one)
    ultimately have "bit (v - 1) m" using m(3) by (intro top_bit_set) linarith+
    moreover have "bit v m" by (rule top_bit_set [OF m(2,3)])
    ultimately have "bit (v AND (v - 1)) m" by (simp add: bit_and_iff)
    with v show False by (simp add: is_alignment_power_of_2_def)
  qed
  with m(1) show "\<exists>m<64. unat v = 2 ^ m" by blast
next
  assume "\<exists>m<64. unat v = 2 ^ m"
  then obtain m where m: "m < 64" "unat v = 2 ^ m" by blast
  then have v: "v = 2 ^ m" using unat_exp [of m] by (metis word_unat_eq_iff)
  have "v AND (v - 1) = 0"
    by (rule bit_eqI) (auto simp: v bit_and_iff bit_exp_iff bit_mask_iff simp flip: mask_eq_exp_minus_1)
  moreover have "v > 0" using m by (simp add: word_less_nat_alt)
  ultimately show "is_alignment_power_of_2 v" by (simp add: is_alignment_power_of_2_def)
qed

text \<open>Or-ing a word with itself shifted doubles the run of bits that each set bit fills below it.\<close>

lemma smear_step:
  assumes "\<And>n. bit y n \<longleftrightarrow> (\<exists>j<k. bit x (n + j))"
  shows "bit (y OR drop_bit k y) n \<longleftrightarrow> (\<exists>j<2*k. bit (x::size_t) (n + j))"
proof -
  have "bit (y OR drop_bit k y) n \<longleftrightarrow> (\<exists>j<k. bit x (n + j)) \<or> (\<exists>j<k. bit x (k + n + j))"
    by (simp add: bit_or_iff bit_drop_bit_eq assms)
  also have "\<dots> \<longleftrightarrow> (\<exists>j<2*k. bit x (n + j))"
  proof (intro iffI; elim disjE exE conjE)
    fix j assume "j < k" "bit x (k + n + j)"
    then show "\<exists>j<2*k. bit x (n + j)" by (intro exI [of _ "k + j"]) (simp add: ac_simps)
  next
    fix j assume j: "j < 2 * k" "bit x (n + j)"
    show "(\<exists>j<k. bit x (n + j)) \<or> (\<exists>j<k. bit x (k + n + j))"
    proof (cases "j < k")
      case False
      with j show ?thesis by (intro disjI2 exI [of _ "j - k"]) (simp add: ac_simps)
    qed (use j in blast)
  next
    fix j assume "j < k" "bit x (n + j)"
    then show "\<exists>j<2*k. bit x (n + j)" by (intro exI [of _ j]) simp
  qed
  finally show ?thesis .
qed

lemma floor_2p_eq:
  assumes m: "2 ^ m \<le> unat x" "unat x < 2 ^ (m + 1)"
  shows "floor_2p x = (if m < 63 then 2 ^ m else 0)"
proof -
  have m64: "m < 64"
    using m(1) unat_size_t_bound [of x] by (metis le_less_trans power_less_imp_less_exp one_less_numeral_iff semiring_norm(76))
  define x1 where "x1 = x OR drop_bit 1 x"
  define x2 where "x2 = x1 OR drop_bit 2 x1"
  define x3 where "x3 = x2 OR drop_bit 4 x2"
  define x4 where "x4 = x3 OR drop_bit 8 x3"
  define x5 where "x5 = x4 OR drop_bit 16 x4"
  define x6 where "x6 = x5 OR drop_bit 32 x5"
  have "bit x n \<longleftrightarrow> (\<exists>j<1. bit x (n + j))" for n by simp
  note b1 = smear_step [OF this, folded x1_def, simplified]
  note b2 = smear_step [of x1 2 x, OF b1, folded x2_def, simplified]
  note b3 = smear_step [of x2 4 x, OF b2, folded x3_def, simplified]
  note b4 = smear_step [of x3 8 x, OF b3, folded x4_def, simplified]
  note b5 = smear_step [of x4 16 x, OF b4, folded x5_def, simplified]
  note b6 = smear_step [of x5 32 x, OF b5, folded x6_def, simplified]
  have top: "bit x m" by (rule top_bit_set [OF m])
  have above: "\<not> bit x n" if "m < n" for n
    using m(2) that unat_less_exp_iff [of x "m + 1"] by simp
  have "x6 = mask (m + 1)"
  proof (rule bit_eqI)
    fix n
    show "bit x6 n \<longleftrightarrow> bit (mask (m + 1) :: size_t) n"
    proof (cases "n \<le> m")
      case True
      then have "\<exists>j<64. bit x (n + j)" using top m64 by (intro exI [of _ "m - n"]) simp
      with True m64 show ?thesis by (simp add: b6 bit_mask_iff)
    next
      case False
      then have "\<not> bit x (n + j)" for j using above by simp
      with False show ?thesis by (simp add: b6 bit_mask_iff)
    qed
  qed
  then have "x6 OR drop_bit 0 x6 = mask (m + 1)" by simp
  moreover have "floor_2p x = drop_bit 1 ((x6 OR drop_bit 0 x6) + 1)"
    by (simp only: floor_2p_def Let_def x1_def x2_def x3_def x4_def x5_def x6_def)
  ultimately have f: "floor_2p x = drop_bit 1 (2 ^ (m + 1))"
    by (simp add: mask_eq_exp_minus_1)
  show ?thesis
  proof (cases "m < 63")
    case True
    have "drop_bit 1 (2 ^ (m + 1) :: size_t) = 2 ^ m"
      by (rule bit_eqI) (use True in \<open>auto simp: bit_drop_bit_eq bit_exp_iff simp del: power_Suc\<close>)
    with True f show ?thesis by simp
  next
    case False
    with m64 have "m + 1 = 64" by simp
    with f False show ?thesis by (simp add: exp_eq_zero_iff del: power_Suc)
  qed
qed

lemma floor_2p_0 [simp]: "floor_2p 0 = 0"
  by (simp add: floor_2p_def)

lemma floor_2p_bounds:
  assumes "x \<noteq> 0" "unat x < 2 ^ 63"
  obtains m where "m < 63" "unat (floor_2p x) = 2 ^ m" "2 ^ m \<le> unat x" "unat x < 2 ^ (m + 1)"
proof -
  obtain m where m: "m < 64" "2 ^ m \<le> unat x" "unat x < 2 ^ (m + 1)"
    using highest_bit [OF assms(1)] .
  have "(2::nat) ^ m < 2 ^ 63" using m(2) assms(2) by linarith
  then have "m < 63" by (rule power_less_imp_less_exp [rotated]) simp
  moreover from this have "unat (2 ^ m :: size_t) = 2 ^ m" by (intro unat_exp) simp
  ultimately show ?thesis using m floor_2p_eq [OF m(2,3)] by (intro that) simp_all
qed

lemma floor_2p_mono:
  assumes "x \<le> y" "unat y < 2 ^ 63"
  shows "floor_2p x \<le> floor_2p y"
proof (cases "x = 0")
  case False
  have xy: "unat x \<le> unat y" using assms(1) by (simp add: word_le_nat_alt)
  with assms False have y: "y \<noteq> 0" "unat x < 2 ^ 63" by auto
  obtain m where m: "unat (floor_2p x) = 2 ^ m" "2 ^ m \<le> unat x"
    using floor_2p_bounds [OF False y(2)] .
  obtain k where k: "unat (floor_2p y) = 2 ^ k" "unat y < 2 ^ (k + 1)"
    using floor_2p_bounds [OF y(1) assms(2)] .
  have "(2::nat) ^ m < 2 ^ (k + 1)" using m(2) k(2) xy by linarith
  then have "m < k + 1" by (rule power_less_imp_less_exp [rotated]) simp
  then show ?thesis by (simp add: word_le_nat_alt m(1) k(1) power_increasing)
qed simp

lemma floor_2p_or_le:
  assumes "a \<noteq> 0" "unat b < 2 ^ (k + 1)" "2 ^ k \<le> unat a" "unat a < 2 ^ (k + 1)"
  shows "floor_2p (a OR b) = floor_2p a"
proof -
  have "2 ^ k \<le> unat (a OR b)"
    using assms(3) unat_or_less_iff [of a b k] by (simp add: not_less [symmetric])
  moreover have "unat (a OR b) < 2 ^ (k + 1)" using assms unat_or_less_iff by blast
  ultimately show ?thesis by (simp only: floor_2p_eq [of k] floor_2p_eq [OF assms(3,4)])
qed

lemma floor_2p_or:
  assumes "unat a < 2 ^ 63" "unat b < 2 ^ 63"
  shows "floor_2p (a OR b) = max (floor_2p a) (floor_2p b)"
proof -
  have half: "floor_2p (a OR b) = max (floor_2p a) (floor_2p b)"
    if "b \<le> a" "unat a < 2 ^ 63" for a b :: size_t
  proof (cases "a = 0")
    case False
    then obtain m where "2 ^ m \<le> unat a" "unat a < 2 ^ (m + 1)"
      using floor_2p_bounds \<open>unat a < 2 ^ 63\<close> by blast
    then have "floor_2p (a OR b) = floor_2p a"
      using False that(1) by (intro floor_2p_or_le [of _ _ m]) (auto simp: word_le_nat_alt)
    then show ?thesis using floor_2p_mono [OF that] by (simp add: max_absorb1)
  qed (use that in simp)
  show ?thesis
    using half [of b a] half [of a b] assms
    by (cases "b \<le> a") (simp_all add: or.commute max.commute not_le)
qed

text \<open>
  for a number other than 0 whose most significant bit is clear, \<^verbatim>\<open>floor_2p\<close> returns the
  largest power of two that does not exceed it.
\<close>

theorem floor_2p_greatest_power:
  assumes "x \<noteq> 0" and "unat x < 2 ^ 63"
  shows "\<exists>m<63. unat (floor_2p x) = 2 ^ m \<and> 2 ^ m \<le> unat x \<and> unat x < 2 ^ (m + 1)"
  using floor_2p_bounds [OF assms] by blast

theorem floor_2p_greatest_power_witness:
  "\<exists>m<63. unat (floor_2p 5000) = 2 ^ m \<and> 2 ^ m \<le> (5000 :: nat) \<and> (5000 :: nat) < 2 ^ (m + 1)"
  using floor_2p_greatest_power [of 5000] by simp

section \<open>The special alignment values at run time\<close>

lemma special_values:
  "large_page_alignment = 2 ^ 63" "page_alignment = 2 ^ 62" "cache_line_alignment = 2 ^ 61"
  "special_alignments = 2 ^ 63 OR 2 ^ 62 OR 2 ^ 61"
  by (code_simp)+

lemma special_bits:
  "bit large_page_alignment n \<longleftrightarrow> n = 63" "bit page_alignment n \<longleftrightarrow> n = 62"
  "bit cache_line_alignment n \<longleftrightarrow> n = 61" "bit special_alignments n \<longleftrightarrow> 61 \<le> n \<and> n < 64"
  unfolding special_values by (auto simp only: bit_or_iff bit_exp_iff possible_bit_word) auto

lemma special_tests:
  "a AND large_page_alignment \<noteq> 0 \<longleftrightarrow> bit a 63"
  "a AND page_alignment \<noteq> 0 \<longleftrightarrow> bit a 62"
  "a AND cache_line_alignment \<noteq> 0 \<longleftrightarrow> bit a 61"
  unfolding special_values by (rule and_exp_neq_0)+

lemma special_test: "a AND special_alignments \<noteq> 0 \<longleftrightarrow> bit a 63 \<or> bit a 62 \<or> bit a 61"
  unfolding special_values and_or_neq_0 and_exp_neq_0 by blast

text \<open>
  The reported sizes stay below the bits that carry the special meanings: any size below
  2 to the 61 bytes.
\<close>

definition hw_in_range :: "hardware_sizes \<Rightarrow> bool" where
  "hw_in_range hw \<longleftrightarrow> unat (hw_large_page_size hw) < 2 ^ 61 \<and> unat (hw_page_size hw) < 2 ^ 61
     \<and> unat (hw_cache_line_size hw) < 2 ^ 61"

lemma hw_in_range_bits:
  assumes "hw_in_range hw" "61 \<le> k"
  shows "\<not> bit (hw_large_page_size hw) k" "\<not> bit (hw_page_size hw) k"
    "\<not> bit (hw_cache_line_size hw) k"
  using assms unfolding hw_in_range_def unat_less_exp_iff by blast+

lemma bit_lookup:
  assumes "hw_in_range hw"
  shows "bit (lookup_special_alignments hw a) n \<longleftrightarrow> n < 61 \<and>
    (bit a n \<or> (bit a 63 \<and> bit (hw_large_page_size hw) n)
       \<or> ((bit a 63 \<or> bit a 62) \<and> bit (hw_page_size hw) n)
       \<or> (bit a 61 \<and> bit (hw_cache_line_size hw) n))"
  unfolding lookup_special_alignments_def Let_def
  by (cases "n < 61")
    (auto simp: and_or_neq_0 special_tests special_bits bit_or_iff bit_and_iff bit_not_iff
      hw_in_range_bits [OF assms] dest: bit_size_t_less)

lemma lookup_or:
  "hw_in_range hw \<Longrightarrow>
   lookup_special_alignments hw (a OR b) = lookup_special_alignments hw a OR lookup_special_alignments hw b"
  by (rule bit_eqI) (auto simp: bit_lookup bit_or_iff)

lemma lookup_less: "unat (lookup_special_alignments hw a) < 2 ^ 61"
  unfolding unat_less_exp_iff lookup_special_alignments_def Let_def
  by (auto simp: special_bits bit_and_iff bit_or_iff bit_not_iff dest!: bit_size_t_less)

lemma lookup_less_63: "unat (lookup_special_alignments hw a) < 2 ^ 63"
  using lookup_less [of hw a] by simp

lemma alignment_in_bytes_exp:
  "\<exists>m<61. unat (alignment_in_bytes hw a) = 2 ^ m"
proof (cases "lookup_special_alignments hw a = 0")
  case True
  then show ?thesis by (intro exI [of _ 0]) (simp add: alignment_in_bytes_def max_def)
next
  case False
  obtain m where m: "unat (floor_2p (lookup_special_alignments hw a)) = 2 ^ m"
    "2 ^ m \<le> unat (lookup_special_alignments hw a)"
    using floor_2p_bounds [OF False lookup_less_63] .
  have "(2 :: nat) ^ m < 2 ^ 61" using m(2) lookup_less [of hw a] by linarith
  then have "m < 61" by (rule power_less_imp_less_exp [rotated]) simp
  moreover have "1 \<le> floor_2p (lookup_special_alignments hw a)"
    by (simp add: word_le_nat_alt m(1))
  ultimately show ?thesis using m(1) by (auto simp: alignment_in_bytes_def max_def)
qed

text \<open>
  Whatever the alignment value and the hardware sizes are, the alignment in bytes that the
  lookup computes is a power of two, small enough for the arithmetic on alignments.
\<close>

theorem alignment_in_bytes_power_of_2:
  "\<exists>m<61. unat (alignment_in_bytes hw a) = 2 ^ m"
  by (rule alignment_in_bytes_exp)

lemma alignment_in_bytes_max:
  assumes "hw_in_range hw"
  shows "alignment_in_bytes hw (a OR b) = max (alignment_in_bytes hw a) (alignment_in_bytes hw b)"
  by (simp add: alignment_in_bytes_def lookup_or [OF assms] floor_2p_or [OF lookup_less_63 lookup_less_63] ac_simps)

text \<open>
  combining alignment requirements with a bitwise or means satisfying all of them: the
  alignment in bytes of \<^term>\<open>a OR b\<close> is the larger one of the two alignments (and, both being
  powers of two, a multiple of the other).
\<close>

theorem alignment_in_bytes_or:
  assumes "hw_in_range hw"
  shows "alignment_in_bytes hw (a OR b) = max (alignment_in_bytes hw a) (alignment_in_bytes hw b)"
  by (rule alignment_in_bytes_max [OF assms])

theorem alignment_in_bytes_or_witness:
  "let hw = \<lparr>hw_large_page_size = 2097152, hw_page_size = 4096, hw_cache_line_size = 64\<rparr>
   in alignment_in_bytes hw (page_alignment OR 8192)
      = max (alignment_in_bytes hw page_alignment) (alignment_in_bytes hw 8192)"
  unfolding Let_def by (rule alignment_in_bytes_or) (simp add: hw_in_range_def)

section \<open>Static alignment is a promise about dynamic alignment\<close>

text \<open>
  The ordinary bits of an alignment value, and what the lookup adds for its special bits.
\<close>

definition basic_part :: "size_t \<Rightarrow> size_t" where
  "basic_part a = a AND NOT special_alignments"

lemma bit_basic_part: "bit (basic_part a) n \<longleftrightarrow> n < 61 \<and> bit a n"
  by (auto simp: basic_part_def bit_and_iff bit_not_iff special_bits dest: bit_size_t_less)

lemma basic_part_less: "unat (basic_part a) < 2 ^ 63"
  unfolding unat_less_exp_iff by (simp add: bit_basic_part)

definition special_part :: "hardware_sizes \<Rightarrow> size_t \<Rightarrow> size_t" where
  "special_part hw a =
     (if bit a 63 then hw_large_page_size hw else 0)
     OR (if bit a 63 \<or> bit a 62 then hw_page_size hw else 0)
     OR (if bit a 61 then hw_cache_line_size hw else 0)"

lemma lookup_parts:
  "hw_in_range hw \<Longrightarrow> lookup_special_alignments hw a = basic_part a OR special_part hw a"
  by (rule bit_eqI)
    (auto simp: bit_lookup bit_or_iff bit_basic_part special_part_def hw_in_range_bits not_less
       intro: ccontr)

lemma hw_in_range_less:
  assumes "hw_in_range hw"
  shows "unat (hw_large_page_size hw) < 2 ^ 63" "unat (hw_page_size hw) < 2 ^ 63"
    "unat (hw_cache_line_size hw) < 2 ^ 63"
  using assms by (simp_all add: hw_in_range_def)

lemma special_part_less: "hw_in_range hw \<Longrightarrow> unat (special_part hw a) < 2 ^ 63"
  unfolding special_part_def using hw_in_range_less by (simp add: unat_or_less_iff [of _ _ 63, simplified])

lemma alignment_parts:
  assumes "hw_in_range hw"
  shows "alignment_in_bytes hw a = max 1 (max (floor_2p (basic_part a)) (floor_2p (special_part hw a)))"
  unfolding alignment_in_bytes_def lookup_parts [OF assms]
  by (simp only: floor_2p_or [OF basic_part_less special_part_less [OF assms]])

lemma floor_2p_special_part:
  assumes "hw_in_range hw"
  shows "floor_2p (special_part hw a) =
    max (max (if bit a 63 then floor_2p (hw_large_page_size hw) else 0)
             (if bit a 63 \<or> bit a 62 then floor_2p (hw_page_size hw) else 0))
        (if bit a 61 then floor_2p (hw_cache_line_size hw) else 0)"
  unfolding special_part_def
  using hw_in_range_less [OF assms]
  by (simp add: floor_2p_or unat_or_less_iff [of _ _ 63, simplified] ac_simps)

lemma special_order:
  assumes "alignmentRequested AND special_alignments \<le> alignmentProvided AND special_alignments"
  shows "bit alignmentRequested 63 \<Longrightarrow> bit alignmentProvided 63"
    and "bit alignmentRequested 62 \<Longrightarrow> bit alignmentProvided 63 \<or> bit alignmentProvided 62"
    and "bit alignmentRequested 61 \<Longrightarrow>
      bit alignmentProvided 63 \<or> bit alignmentProvided 62 \<or> bit alignmentProvided 61"
proof -
  have step: "\<exists>k\<ge>m. k < 64 \<and> bit alignmentProvided k" if "bit alignmentRequested m" "61 \<le> m" for m
  proof (rule ccontr)
    assume "\<not> ?thesis"
    then have "unat (alignmentProvided AND special_alignments) < 2 ^ m"
      unfolding unat_less_exp_iff by (auto simp: bit_and_iff special_bits)
    then have "unat (alignmentRequested AND special_alignments) < 2 ^ m"
      by (rule less_exp_mono [OF assms])
    with that show False
      unfolding unat_less_exp_iff by (auto simp: bit_and_iff special_bits dest: bit_size_t_less)
  qed
  have narrow: "63 \<le> k \<Longrightarrow> k < 64 \<Longrightarrow> k = 63" "62 \<le> k \<Longrightarrow> k < 64 \<Longrightarrow> k = 62 \<or> k = 63"
    "61 \<le> k \<Longrightarrow> k < 64 \<Longrightarrow> k = 61 \<or> k = 62 \<or> k = 63" for k :: nat by auto
  show "bit alignmentRequested 63 \<Longrightarrow> bit alignmentProvided 63"
    using step [of 63] by (auto dest: narrow(1))
  show "bit alignmentRequested 62 \<Longrightarrow> bit alignmentProvided 63 \<or> bit alignmentProvided 62"
    using step [of 62] by (auto dest: narrow(2))
  show "bit alignmentRequested 61 \<Longrightarrow>
      bit alignmentProvided 63 \<or> bit alignmentProvided 62 \<or> bit alignmentProvided 61"
    using step [of 61] by (auto dest: narrow(3))
qed

text \<open>
  What the code assumes of the hardware: the compile-time interference size is a lower bound of
  the cache line size (a comment of \<^verbatim>\<open>provides_static_alignment\<close>), and the page size is a multiple
  of the cache line size, hence not below it (\<^verbatim>\<open>hardware_page_size()\<close> fails fast otherwise).
\<close>

definition hw_consistent :: "size_t \<Rightarrow> hardware_sizes \<Rightarrow> bool" where
  "hw_consistent constructive_size hw \<longleftrightarrow>
     hw_in_range hw \<and> constructive_size \<le> hw_cache_line_size hw
     \<and> hw_cache_line_size hw \<le> hw_page_size hw"

lemma static_implies_dynamic:
  assumes hw: "hw_consistent constructive_size hw"
    and static: "provides_static_alignment constructive_size alignmentProvided alignmentRequested"
  shows "provides_dynamic_alignment hw alignmentProvided alignmentRequested"
proof -
  have range: "hw_in_range hw" using hw by (simp add: hw_consistent_def)
  note less = hw_in_range_less [OF range]
  let ?P = "alignmentProvided" and ?R = "alignmentRequested"
  let ?F = floor_2p
  have cl_ps: "?F (hw_cache_line_size hw) \<le> ?F (hw_page_size hw)"
    using hw less by (intro floor_2p_mono) (auto simp: hw_consistent_def)
  have cs: "constructive_size \<le> hw_cache_line_size hw" using hw by (simp add: hw_consistent_def)
  have cs_cl: "?F constructive_size \<le> ?F (hw_cache_line_size hw)"
    by (rule floor_2p_mono [OF cs less(3)])
  have cs_less: "unat constructive_size < 2 ^ 63" by (rule less_exp_mono [OF cs less(3)])
  let ?S = "?F (special_part hw ?P)"
  have special: "?P AND special_alignments \<ge> ?R AND special_alignments"
    and basic: "?F (basic_part ?R) \<le> 1 \<or> ?F (basic_part ?R) \<le>
      ?F (if ?P AND special_alignments \<noteq> 0 then basic_part ?P OR constructive_size else basic_part ?P)"
    using static unfolding provides_static_alignment_def raw_alignment_in_bytes_def Let_def
    by (auto simp: basic_part_def le_max_iff_disj split: if_splits)
  have "?F (basic_part ?R) \<le> max 1 (max (?F (basic_part ?P)) ?S)"
  proof (cases "?P AND special_alignments = 0")
    case True
    with basic show ?thesis by (auto simp: le_max_iff_disj)
  next
    case False
    then have "?F (hw_cache_line_size hw) \<le> ?S"
      using cl_ps by (auto simp: special_test floor_2p_special_part [OF range] le_max_iff_disj)
    with cs_cl have "?F constructive_size \<le> ?S" by simp
    with basic False show ?thesis
      by (auto simp: floor_2p_or [OF basic_part_less cs_less] le_max_iff_disj)
  qed
  moreover have "?F (special_part hw ?R) \<le> ?S"
    using special_order [OF special] cl_ps
    by (auto simp: floor_2p_special_part [OF range] le_max_iff_disj)
  then have "?F (special_part hw ?R) \<le> max 1 (max (?F (basic_part ?P)) ?S)"
    by (simp add: le_max_iff_disj)
  ultimately show ?thesis
    by (simp only: provides_dynamic_alignment_def alignment_parts [OF range] max.bounded_iff
        max.cobounded1 simp_thms)
qed

text \<open>
  the compile-time predicate never promises too much: when it accepts, the run-time predicate,
  which looks the special alignments up, accepts too.
\<close>

theorem static_implies_dynamic_alignment:
  assumes hw: "hw_consistent constructive_size hw"
    and static: "provides_static_alignment constructive_size alignmentProvided alignmentRequested"
  shows "provides_dynamic_alignment hw alignmentProvided alignmentRequested"
  by (rule static_implies_dynamic [OF assms])

theorem static_implies_dynamic_alignment_witness:
  "let hw = \<lparr>hw_large_page_size = 2097152, hw_page_size = 4096, hw_cache_line_size = 64\<rparr>
   in provides_static_alignment 64 page_alignment (cache_line_alignment OR 16)
      \<and> provides_dynamic_alignment hw page_alignment (cache_line_alignment OR 16)"
proof -
  let ?hw = "\<lparr>hw_large_page_size = 2097152, hw_page_size = 4096, hw_cache_line_size = 64\<rparr>"
  have hw: "hw_consistent 64 ?hw" by (simp add: hw_consistent_def hw_in_range_def)
  have st: "provides_static_alignment 64 page_alignment (cache_line_alignment OR 16)" by code_simp
  from st static_implies_dynamic_alignment [OF hw st] show ?thesis by simp
qed

end
