(* ===== verification/Squad_Tree.thy ===== *)
theory Squad_Tree
  imports Prelude "HOL-Library.Signed_Division" "HOL-Library.Multiset"
begin

text \<open>
  The tree by which the threads of a squad notify and await each other
  (class \<^verbatim>\<open>thread_squad_impl\<close> in \<^verbatim>\<open>src/src/thread_squad.cpp\<close>, the functions
  \<^verbatim>\<open>next_substride\<close>, \<^verbatim>\<open>init\<close>, \<^verbatim>\<open>to_subthreads\<close> and \<^verbatim>\<open>from_subthreads\<close>).

  The first half has the code's operations: an access outside \<^verbatim>\<open>threadData_\<close> and a loop
  that does not end are \<^verbatim>\<open>None\<close>, and the two traversals return the sequence of threads on
  which they call their function argument. The second half describes their values in closed
  form (\<^verbatim>\<open>stride_of\<close>, \<^verbatim>\<open>down\<close>, \<^verbatim>\<open>up\<close>) and shows that, for the squad sizes that
  \<^verbatim>\<open>tree_exact\<close> names (all sizes up to 64 among them), every thread but the first has exactly
  one superordinate thread. The locale \<^verbatim>\<open>thread_tree\<close> is what the synchronization protocol
  needs to know of the tree.
\<close>

section \<open>The operations of the code\<close>


definition treeBreadth :: int where "treeBreadth = 8"

definition next_substride :: "int \<Rightarrow> int" where
  "next_substride stride = (stride + (treeBreadth - 1)) sdiv treeBreadth"

text \<open>The division truncates toward zero, as C++'s does.\<close>

lemma next_substride_nonneg: "0 \<le> stride \<Longrightarrow> next_substride stride = (stride + 7) div 8"
  by (simp add: next_substride_def treeBreadth_def signed_divide_int_def sgn_if)

lemma next_substride_le_0: "stride \<le> 0 \<Longrightarrow> next_substride stride \<le> 0"
  by (auto simp: next_substride_def treeBreadth_def signed_divide_int_def sgn_if)

lemma next_substride_pos: "1 \<le> stride \<Longrightarrow> 1 \<le> next_substride stride"
  by (simp add: next_substride_nonneg)

lemma next_substride_less: "2 \<le> stride \<Longrightarrow> next_substride stride < stride"
  by (simp add: next_substride_nonneg)

lemma next_substride_1 [simp]: "next_substride 1 = 1"
  by (simp add: next_substride_nonneg)

text \<open>
  \<^verbatim>\<open>for (int i = ...; i < last; i += step)\<close>: the values of the loop variable, \<^verbatim>\<open>None\<close> when
  the loop never ends.
\<close>

function for_indices :: "int \<Rightarrow> int \<Rightarrow> int \<Rightarrow> int list option" where
  "for_indices i lastIdx step =
     (if i < lastIdx then
        if step \<le> 0 then None else map_option (Cons i) (for_indices (i + step) lastIdx step)
      else Some [])"
  by pat_completeness auto
termination by (relation "measure (\<lambda>(i, lastIdx, step). nat (lastIdx - i))") auto

declare for_indices.simps [simp del]

fun fold_opt :: "('a \<Rightarrow> 's \<Rightarrow> 's option) \<Rightarrow> 'a list \<Rightarrow> 's \<Rightarrow> 's option" where
  "fold_opt f [] s = Some s"
| "fold_opt f (x # xs) s = Option.bind (f x s) (fold_opt f xs)"

lemma fold_opt_cong [fundef_cong]:
  "xs = ys \<Longrightarrow> s = t \<Longrightarrow> (\<And>x u. x \<in> set ys \<Longrightarrow> f x u = g x u) \<Longrightarrow> fold_opt f xs s = fold_opt g ys t"
proof -
  assume "xs = ys" "s = t" and fg: "\<And>x u. x \<in> set ys \<Longrightarrow> f x u = g x u"
  moreover have "(\<And>x u. x \<in> set ys \<Longrightarrow> f x u = g x u) \<Longrightarrow> fold_opt f ys t = fold_opt g ys t"
    by (induction ys arbitrary: t) (auto cong: Option.bind_cong)
  ultimately show ?thesis by simp
qed

text \<open>Reading and writing \<^verbatim>\<open>threadData_[i].numSubthreads_\<close>.\<close>

definition array_get :: "int list \<Rightarrow> int \<Rightarrow> int option" where
  "array_get xs i = (if 0 \<le> i \<and> i < int (length xs) then Some (xs ! nat i) else None)"

definition array_set :: "int list \<Rightarrow> int \<Rightarrow> int \<Rightarrow> int list option" where
  "array_set xs i v = (if 0 \<le> i \<and> i < int (length xs) then Some (xs[nat i := v]) else None)"

lemma for_indices_step_le_0:
  "for_indices i lastIdx step = Some idx \<Longrightarrow> step \<le> 0 \<Longrightarrow> idx = []"
  by (subst (asm) for_indices.simps) (auto split: if_splits)

text \<open>\<^verbatim>\<open>thread_squad_impl::init()\<close>.\<close>

function init :: "int \<Rightarrow> int \<Rightarrow> int \<Rightarrow> int list \<Rightarrow> int list option" where
  "init first lastIdx stride nums =
     Option.bind
       (if stride \<noteq> 1 then
          let substride = next_substride stride in
          Option.bind (for_indices first lastIdx substride)
            (\<lambda>idx. fold_opt (\<lambda>i ns. init i (min (i + substride) lastIdx) substride ns) idx nums)
        else Some nums)
       (\<lambda>ns. array_set ns first stride)"
  by pat_completeness auto
termination
proof (relation "measure (\<lambda>(first, lastIdx, stride, nums). nat stride)")
  fix first lastIdx stride :: int and nums :: "int list" and x z xa :: int and xb
  show "wf (measure (\<lambda>(first :: int, lastIdx :: int, stride, nums :: int list). nat stride))" by simp
next
  fix first lastIdx stride sub i :: int and nums u :: "int list" and idx
  assume a: "stride \<noteq> 1" "sub = next_substride stride" "for_indices first lastIdx sub = Some idx"
    "i \<in> set idx"
  have "2 \<le> stride"
  proof (rule ccontr)
    assume "\<not> 2 \<le> stride"
    with a(1) have "stride \<le> 0" by simp
    then have "idx = []"
      using for_indices_step_le_0 [OF a(3)] next_substride_le_0 a(2) by simp
    with a(4) show False by simp
  qed
  with next_substride_less [of stride] next_substride_pos [of stride] a(2)
  show "((i, min (i + sub) lastIdx, sub, u), first, lastIdx, stride, nums)
      \<in> measure (\<lambda>(first, lastIdx, stride, nums). nat stride)" by simp
qed

declare init.simps [simp del]

text \<open>\<^verbatim>\<open>thread_squad_impl::to_subthreads()\<close>, its \<^verbatim>\<open>while\<close> loop first.\<close>

function to_subthreads_loop :: "int \<Rightarrow> int \<Rightarrow> int \<Rightarrow> int list option" where
  "to_subthreads_loop callingThreadIdx lastIdx stride =
     (if stride = 1 then Some []
      else if stride \<le> 0 then None
      else let substride = next_substride stride in
        Option.bind (for_indices (callingThreadIdx + substride) lastIdx substride) (\<lambda>idx.
        Option.bind (to_subthreads_loop callingThreadIdx (min (callingThreadIdx + substride) lastIdx) substride) (\<lambda>rest.
        Some (idx @ rest))))"
  by pat_completeness auto
termination
  by (relation "measure (\<lambda>(c, lastIdx, stride). nat stride)")
    (use next_substride_less in \<open>force simp: zless_nat_eq_int_zless\<close>)+

declare to_subthreads_loop.simps [simp del]

definition to_subthreads :: "int list \<Rightarrow> int \<Rightarrow> int \<Rightarrow> int list option" where
  "to_subthreads nums callingThreadIdx concurrency =
     Option.bind (array_get nums callingThreadIdx) (\<lambda>stride.
       to_subthreads_loop callingThreadIdx (min (callingThreadIdx + stride) concurrency) stride)"

text \<open>\<^verbatim>\<open>thread_squad_impl::from_subthreads()\<close> and its recursive part.\<close>

function from_subthreads_impl :: "int \<Rightarrow> int \<Rightarrow> int \<Rightarrow> int list option" where
  "from_subthreads_impl first lastIdx stride =
     (let substride = next_substride stride in
      Option.bind
        (if stride \<noteq> 1 then
           if stride \<le> 0 then None
           else from_subthreads_impl first (min (first + substride) lastIdx) substride
         else Some []) (\<lambda>deeper.
      Option.bind (for_indices (first + substride) lastIdx substride) (\<lambda>idx.
      Some (deeper @ idx))))"
  by pat_completeness auto
termination
  by (relation "measure (\<lambda>(c, lastIdx, stride). nat stride)")
    (use next_substride_less in \<open>force simp: zless_nat_eq_int_zless\<close>)+

declare from_subthreads_impl.simps [simp del]

definition from_subthreads :: "int list \<Rightarrow> int \<Rightarrow> int \<Rightarrow> int list option" where
  "from_subthreads nums callingThreadIdx concurrency =
     Option.bind (array_get nums callingThreadIdx) (\<lambda>stride.
       from_subthreads_impl callingThreadIdx (min (callingThreadIdx + stride) concurrency) stride)"

section \<open>The strides in closed form\<close>

text \<open>The values of a loop variable, for a positive step.\<close>

function indices :: "int \<Rightarrow> int \<Rightarrow> int \<Rightarrow> int list" where
  "indices i hi step = (if i < hi \<and> 0 < step then i # indices (i + step) hi step else [])"
  by pat_completeness auto
termination by (relation "measure (\<lambda>(i, hi, step). nat (hi - i))") auto

declare indices.simps [simp del]

lemma for_indices_eq: "0 < step \<Longrightarrow> for_indices i hi step = Some (indices i hi step)"
proof (induction i hi step rule: indices.induct)
  case (1 i hi step)
  then show ?case
    by (subst for_indices.simps, subst indices.simps) auto
qed

lemma indices_empty [simp]: "hi \<le> i \<Longrightarrow> indices i hi step = []"
  by (subst indices.simps) simp

lemma indices_step: "i < hi \<Longrightarrow> 0 < step \<Longrightarrow> indices i hi step = i # indices (i + step) hi step"
  by (subst indices.simps) simp

lemma indices_bounds: "j \<in> set (indices i hi step) \<Longrightarrow> i \<le> j \<and> j < hi"
proof (induction i hi step rule: indices.induct)
  case (1 i hi step)
  then show ?case
    by (cases "i < hi \<and> 0 < step") (auto simp: indices.simps [of i hi step])
qed

lemma indices_offset:
  "j \<in> set (indices i hi step) \<Longrightarrow> 0 < step \<and> step dvd (j - i)"
proof (induction i hi step rule: indices.induct)
  case (1 i hi step)
  show ?case
  proof (cases "i < hi \<and> 0 < step")
    case True
    with 1 have "j = i \<or> (0 < step \<and> step dvd j - (i + step))"
      by (auto simp: indices.simps [of i hi step])
    moreover have "j - i = (j - (i + step)) + step" by simp
    ultimately show ?thesis using True by (metis cancel_comm_monoid_add_class.diff_cancel dvd_0_right dvd_add dvd_refl)
  next
    case False
    with "1.prems" show ?thesis by (auto simp: indices.simps [of i hi step])
  qed
qed

lemma sum_blocks:
  fixes f :: "int \<Rightarrow> 'a :: comm_monoid_add"
  shows "0 < step \<Longrightarrow> (\<Sum>k \<in> {i..<hi}. f k) = (\<Sum>j\<leftarrow>indices i hi step. \<Sum>k \<in> {j..<min (j + step) hi}. f k)"
proof (induction i hi step rule: indices.induct)
  case (1 i hi step)
  show ?case
  proof (cases "i < hi")
    case True
    let ?m = "min (i + step) hi"
    have split: "{i..<hi} = {i..<?m} \<union> {?m..<hi}" "{i..<?m} \<inter> {?m..<hi} = {}" using True 1 by auto
    have "(\<Sum>k \<in> {i..<hi}. f k) = (\<Sum>k \<in> {i..<?m}. f k) + (\<Sum>k \<in> {?m..<hi}. f k)"
      unfolding split(1) by (rule sum.union_disjoint) (use split(2) in auto)
    moreover have "{?m..<hi} = {i + step..<hi}" by auto
    ultimately show ?thesis using True 1 by (simp add: indices_step)
  qed simp
qed

text \<open>
  The stride of thread \<^verbatim>\<open>i\<close> in the block of \<^verbatim>\<open>stride\<close> threads that starts at \<^verbatim>\<open>first\<close>: the
  size of the largest block that starts at \<^verbatim>\<open>i\<close>.
\<close>

function stride_of :: "int \<Rightarrow> int \<Rightarrow> int \<Rightarrow> int" where
  "stride_of first stride i =
     (if i = first \<or> stride \<le> 1 then stride
      else let sub = next_substride stride
           in stride_of (first + (i - first) div sub * sub) sub i)"
  by pat_completeness auto
termination
  by (relation "measure (\<lambda>(first, stride, i). nat stride)") (auto intro: next_substride_less)

declare stride_of.simps [simp del]

lemma stride_of_first [simp]: "stride_of first stride first = stride"
  by (subst stride_of.simps) simp

lemma block_index:
  fixes i j first sub :: int
  assumes "sub dvd j - first" "j \<le> i" "i < j + sub"
  shows "first + (i - first) div sub * sub = j"
proof -
  obtain q where q: "j - first = sub * q" using assms(1) ..
  have sub: "0 < sub" using assms by simp
  have "i - first = (i - j) + q * sub" using q by (simp add: algebra_simps)
  moreover have "(i - j) div sub = 0" using assms(2,3) by (simp add: div_pos_pos_trivial)
  moreover have "((i - j) + q * sub) div sub = q + (i - j) div sub" using sub by simp
  ultimately have "(i - first) div sub = q" by (simp only: add_0_right)
  with q show ?thesis by (simp add: algebra_simps)
qed

lemma stride_of_block:
  assumes "2 \<le> stride" "j \<in> set (indices first hi (next_substride stride))"
    "j \<le> i" "i < j + next_substride stride" "i \<noteq> first"
  shows "stride_of first stride i = stride_of j (next_substride stride) i"
  using assms indices_offset [OF assms(2)] block_index [of "next_substride stride" j first i]
  by (subst stride_of.simps) (simp add: Let_def)

text \<open>The array \<^verbatim>\<open>xs\<close> with the cells of \<^verbatim>\<open>[lo, hi)\<close> set by \<^verbatim>\<open>f\<close>.\<close>

definition fill :: "(int \<Rightarrow> int) \<Rightarrow> int \<Rightarrow> int \<Rightarrow> int list \<Rightarrow> int list" where
  "fill f lo hi xs = map (\<lambda>k. if lo \<le> int k \<and> int k < hi then f (int k) else xs ! k) [0..<length xs]"

lemma length_fill [simp]: "length (fill f lo hi xs) = length xs"
  by (simp add: fill_def)

lemma nth_fill: "k < length xs \<Longrightarrow> fill f lo hi xs ! k = (if lo \<le> int k \<and> int k < hi then f (int k) else xs ! k)"
  by (simp add: fill_def)

lemma fill_empty [simp]: "hi \<le> lo \<Longrightarrow> fill f lo hi xs = xs"
  by (intro nth_equalityI) (auto simp: nth_fill)

lemma fill_update:
  assumes "0 \<le> lo" "lo < hi" "\<And>k. lo < k \<Longrightarrow> k < hi \<Longrightarrow> f' k = f k" "f' lo = v"
  shows "(fill f lo hi xs)[nat lo := v] = fill f' lo hi xs"
proof (rule nth_equalityI)
  fix k assume "k < length ((fill f lo hi xs)[nat lo := v])"
  then have k: "k < length xs" by simp
  show "(fill f lo hi xs)[nat lo := v] ! k = fill f' lo hi xs ! k"
    using assms k by (cases "k = nat lo") (auto simp: nth_fill nth_list_update)
qed simp

lemma fill_blocks:
  assumes "0 < step"
    and "\<And>j u. j \<in> set (indices i hi step) \<Longrightarrow> length u = len \<Longrightarrow> g j u = Some (fill (h j) j (min (j + step) hi) u)"
    and "\<And>j k. j \<in> set (indices i hi step) \<Longrightarrow> j \<le> k \<Longrightarrow> k < min (j + step) hi \<Longrightarrow> h j k = f k"
  shows "length xs = len \<Longrightarrow> fold_opt g (indices i hi step) xs = Some (fill f i hi xs)"
  using assms
proof (induction i hi step arbitrary: xs rule: indices.induct)
  case (1 i hi step)
  show ?case
  proof (cases "i < hi")
    case True
    with "1.prems" have ix: "indices i hi step = i # indices (i + step) hi step" by (simp add: indices_step)
    let ?u = "fill (h i) i (min (i + step) hi) xs"
    have g: "g i xs = Some ?u" using "1.prems"(1,3) ix by simp
    have "fold_opt g (indices (i + step) hi step) ?u = Some (fill f (i + step) hi ?u)"
      by (rule "1.IH") (use True "1.prems" ix in \<open>auto\<close>)
    moreover have "fill f (i + step) hi ?u = fill f i hi xs"
      using "1.prems"(4) [of i] ix "1.prems"(2) True
      by (intro nth_equalityI) (auto simp: nth_fill)
    ultimately show ?thesis by (simp add: ix g)
  next
    case False
    then show ?thesis by (simp add: fill_empty)
  qed
qed

lemma init_eq:
  assumes "1 \<le> stride" "0 \<le> first" "first < hi" "hi \<le> first + stride" "hi \<le> int (length nums)"
  shows "init first hi stride nums = Some (fill (stride_of first stride) first hi nums)"
  using assms
proof (induction "nat stride" arbitrary: first hi stride nums rule: less_induct)
  case less
  have set: "array_set u first stride = Some (u[nat first := stride])" if "length u = length nums" for u
    using less.prems that by (simp add: array_set_def)
  show ?case
  proof (cases "stride = 1")
    case True
    have "nums[nat first := stride] = (fill (\<lambda>_. nums ! nat first) first hi nums)[nat first := stride]"
      by (rule nth_equalityI) (use less.prems True in \<open>auto simp: nth_fill nth_list_update\<close>)
    also have "\<dots> = fill (stride_of first stride) first hi nums"
      by (rule fill_update) (use less.prems True in auto)
    finally show ?thesis using True by (subst init.simps) (simp add: set [OF refl, unfolded True])
  next
    case False
    then have s2: "2 \<le> stride" using less.prems by simp
    let ?sub = "next_substride stride"
    have sub: "1 \<le> ?sub" "?sub < stride" using s2 next_substride_pos next_substride_less by auto
    let ?g = "\<lambda>i ns. init i (min (i + ?sub) hi) ?sub ns"
    let ?f = "\<lambda>k. if k = first then ?sub else stride_of first stride k"
    have "fold_opt ?g (indices first hi ?sub) nums = Some (fill ?f first hi nums)"
    proof (rule fill_blocks [where len = "length nums" and h = "\<lambda>j. stride_of j ?sub"])
      show "0 < ?sub" using sub by simp
    next
      fix j and u :: "int list" assume j: "j \<in> set (indices first hi ?sub)" "length u = length nums"
      show "?g j u = Some (fill (stride_of j ?sub) j (min (j + ?sub) hi) u)"
        by (rule less.hyps) (use sub less.prems j indices_bounds [OF j(1)] in auto)
    next
      fix j k assume j: "j \<in> set (indices first hi ?sub)" "j \<le> k" "k < min (j + ?sub) hi"
      show "stride_of j ?sub k = ?f k"
      proof (cases "k = first")
        case True
        with j indices_bounds [OF j(1)] have "j = first" by simp
        with True show ?thesis by simp
      next
        case False
        then show ?thesis using stride_of_block [OF s2 j(1)] j by simp
      qed
    qed simp
    moreover have "(fill ?f first hi nums)[nat first := stride] = fill (stride_of first stride) first hi nums"
      by (rule fill_update) (use less.prems in auto)
    ultimately show ?thesis
      using False sub by (subst init.simps) (simp add: Let_def for_indices_eq set)
  qed
qed

section \<open>The targets of a thread\<close>

function down :: "int \<Rightarrow> int \<Rightarrow> int \<Rightarrow> int list" where
  "down first hi stride =
     (if stride \<le> 1 then []
      else let sub = next_substride stride
           in indices (first + sub) hi sub @ down first (min (first + sub) hi) sub)"
  by pat_completeness auto
termination
  by (relation "measure (\<lambda>(first, hi, stride). nat stride)") (auto intro: next_substride_less)

declare down.simps [simp del]

function up :: "int \<Rightarrow> int \<Rightarrow> int \<Rightarrow> int list" where
  "up first hi stride =
     (if stride \<le> 1 then []
      else let sub = next_substride stride
           in up first (min (first + sub) hi) sub @ indices (first + sub) hi sub)"
  by pat_completeness auto
termination
  by (relation "measure (\<lambda>(first, hi, stride). nat stride)") (auto intro: next_substride_less)

declare up.simps [simp del]

lemma to_subthreads_loop_eq:
  "1 \<le> stride \<Longrightarrow> to_subthreads_loop first hi stride = Some (down first hi stride)"
proof (induction first hi stride rule: down.induct)
  case (1 first hi stride)
  show ?case
  proof (cases "stride = 1")
    case True
    then show ?thesis by (subst to_subthreads_loop.simps) (simp add: down.simps)
  next
    case False
    with 1 next_substride_pos [of stride] show ?thesis
      by (subst to_subthreads_loop.simps, subst down.simps) (simp add: Let_def for_indices_eq)
  qed
qed

lemma from_subthreads_impl_eq:
  "1 \<le> stride \<Longrightarrow> hi \<le> first + stride \<Longrightarrow> from_subthreads_impl first hi stride = Some (up first hi stride)"
proof (induction first hi stride rule: up.induct)
  case (1 first hi stride)
  show ?case
  proof (cases "stride = 1")
    case True
    with 1 show ?thesis by (subst from_subthreads_impl.simps) (simp add: up.simps for_indices_eq)
  next
    case False
    with 1 next_substride_pos [of stride] show ?thesis
      by (subst from_subthreads_impl.simps, subst up.simps) (simp add: Let_def for_indices_eq)
  qed
qed

lemma mset_up: "mset (up first hi stride) = mset (down first hi stride)"
proof (induction first hi stride rule: up.induct)
  case (1 first hi stride)
  then show ?case by (simp add: up.simps [of first hi stride] down.simps [of first hi stride] Let_def)
qed

lemma down_bounds: "t \<in> set (down first hi stride) \<Longrightarrow> first < t \<and> t < hi"
proof (induction first hi stride rule: down.induct)
  case (1 first hi stride)
  show ?case
  proof (cases "stride \<le> 1")
    case True
    with "1.prems" show ?thesis by (simp add: down.simps)
  next
    case False
    with 1 next_substride_pos [of stride] show ?thesis
      by (subst (asm) (2) down.simps) (fastforce simp: Let_def dest: indices_bounds)
  qed
qed

lemma up_bounds: "t \<in> set (up first hi stride) \<Longrightarrow> first < t \<and> t < hi"
  using mset_eq_setD [OF mset_up] down_bounds by metis

section \<open>Every thread has one superordinate thread\<close>

text \<open>
  The blocks of a level tile the block above them only where the substride divides the stride.
  The outermost level is exempt: the last block of the squad may be cut short.
\<close>

function exact_chain :: "int \<Rightarrow> bool" where
  "exact_chain stride \<longleftrightarrow>
     (if stride \<le> 1 then True
      else if next_substride stride dvd stride then exact_chain (next_substride stride) else False)"
  by pat_completeness auto
termination
  by (relation "measure nat") (auto intro: next_substride_less)

declare exact_chain.simps [simp del]

definition tree_exact :: "int \<Rightarrow> bool" where
  "tree_exact n \<longleftrightarrow> exact_chain (next_substride n)"

lemma sum_list_add_mset: "(\<Sum>j\<leftarrow>xs. add_mset j (f j)) = mset xs + (\<Sum>j\<leftarrow>xs. f j)"
  by (induction xs) auto

lemma indices_blocks:
  fixes i hi step :: int
  assumes "0 < step"
  shows "mset (indices i hi step) + (\<Sum>j\<leftarrow>indices i hi step. mset_set {j<..<min (j + step) hi})
    = mset_set {i..<hi}"
proof -
  have "mset_set {j..<min (j + step) hi} = add_mset j (mset_set {j<..<min (j + step) hi})"
    if "j \<in> set (indices i hi step)" for j
  proof -
    have "{j..<min (j + step) hi} = insert j {j<..<min (j + step) hi}"
      using indices_bounds [OF that] assms by auto
    then show ?thesis by simp
  qed
  then have "(\<Sum>j\<leftarrow>indices i hi step. mset_set {j..<min (j + step) hi})
     = (\<Sum>j\<leftarrow>indices i hi step. add_mset j (mset_set {j<..<min (j + step) hi}))"
    by (intro arg_cong [where f = sum_list] map_cong) auto
  then show ?thesis
    using sum_blocks [OF assms, of "\<lambda>k. {#k#}" i hi] by (simp add: sum_list_add_mset)
qed

text \<open>The threads that thread i of a block addresses, for concurrency c.\<close>

definition block_targets :: "int \<Rightarrow> int \<Rightarrow> int \<Rightarrow> int \<Rightarrow> int multiset" where
  "block_targets first stride c i =
     (let s = stride_of first stride i in mset (down i (min (i + s) c) s))"

lemma block_clip:
  assumes j: "j \<in> set (indices first (min (first + stride) c) sub)"
    and "sub dvd stride \<or> c \<le> first + stride"
  shows "min (j + sub) (min (first + stride) c) = min (j + sub) c"
proof -
  have b: "0 < sub" "sub dvd j - first" "j < first + stride"
    using indices_offset [OF j] indices_bounds [OF j] by auto
  have "j + sub \<le> first + stride" if "sub dvd stride"
  proof -
    have "sub dvd stride - (j - first)" using that b(2) by (rule dvd_diff)
    then have "sub \<le> stride - (j - first)" by (rule zdvd_imp_le) (use b(3) in simp)
    then show ?thesis by simp
  qed
  with assms(2) show ?thesis by auto
qed

lemma block_targets_first:
  assumes "2 \<le> stride"
  shows "block_targets first stride c first
    = mset (indices (first + next_substride stride) (min (first + stride) c) (next_substride stride))
      + mset (down first (min (first + next_substride stride) (min (first + stride) c)) (next_substride stride))"
  using assms by (simp add: block_targets_def Let_def down.simps [of first _ stride])

lemma block_partition:
  assumes "1 \<le> stride" "exact_chain (next_substride stride)"
    "next_substride stride dvd stride \<or> c \<le> first + stride" "first < c"
  shows "(\<Sum>i\<in>{first..<min (first + stride) c}. block_targets first stride c i)
    = mset_set {first<..<min (first + stride) c}"
  using assms
proof (induction "nat stride" arbitrary: first stride rule: less_induct)
  case less
  let ?hi = "min (first + stride) c"
  let ?sub = "next_substride stride"
  show ?case
  proof (cases "stride = 1")
    case True
    then have "{first..<?hi} = {first}" "{first<..<?hi} = {}" using less.prems by auto
    then show ?thesis by (simp only:) (simp add: True down.simps block_targets_def)
  next
    case False
    then have s2: "2 \<le> stride" using less.prems by simp
    have sub: "1 \<le> ?sub" "?sub < stride" using s2 next_substride_pos next_substride_less by auto
    have chain: "exact_chain (next_substride ?sub)" "next_substride ?sub dvd ?sub"
      using less.prems(2) sub(1) by (cases "?sub = 1"; subst (asm) exact_chain.simps; simp split: if_splits)+
    let ?js = "indices (first + ?sub) ?hi ?sub"
    have ix: "indices first ?hi ?sub = first # ?js"
      using less.prems sub by (simp add: indices_step)
    have block: "(\<Sum>i\<in>{j..<min (j + ?sub) ?hi}. block_targets j ?sub c i) = mset_set {j<..<min (j + ?sub) ?hi}"
      if j: "j \<in> set (indices first ?hi ?sub)" for j
      unfolding block_clip [OF j less.prems(3)]
      by (rule less.hyps) (use sub chain indices_bounds [OF j] in auto)
    have same: "block_targets first stride c i = block_targets j ?sub c i"
      if "j \<in> set (indices first ?hi ?sub)" "j \<le> i" "i < j + ?sub" "i \<noteq> first" for i j
      using stride_of_block [OF s2 that] by (simp add: block_targets_def)
    have clip_first: "min (first + ?sub) ?hi = min (first + ?sub) c"
      by (rule block_clip) (use less.prems(3) ix in simp_all)
    have root: "block_targets first stride c first = mset ?js + block_targets first ?sub c first"
      unfolding block_targets_first [OF s2] clip_first by (simp add: block_targets_def Let_def)
    have first_block: "(\<Sum>i\<in>{first..<min (first + ?sub) ?hi}. block_targets first stride c i)
       = mset ?js + mset_set {first<..<min (first + ?sub) ?hi}"
    proof -
      have ins: "{first..<min (first + ?sub) ?hi} = insert first {first<..<min (first + ?sub) ?hi}"
        using less.prems sub by auto
      have "(\<Sum>i\<in>{first<..<min (first + ?sub) ?hi}. block_targets first stride c i)
        = (\<Sum>i\<in>{first<..<min (first + ?sub) ?hi}. block_targets first ?sub c i)"
        by (rule sum.cong) (auto intro: same simp: ix)
      then show ?thesis using block [of first] by (simp add: ins ix root)
    qed
    have other_block: "(\<Sum>i\<in>{j..<min (j + ?sub) ?hi}. block_targets first stride c i)
       = mset_set {j<..<min (j + ?sub) ?hi}" if j: "j \<in> set ?js" for j
    proof -
      have "(\<Sum>i\<in>{j..<min (j + ?sub) ?hi}. block_targets first stride c i)
        = (\<Sum>i\<in>{j..<min (j + ?sub) ?hi}. block_targets j ?sub c i)"
        by (rule sum.cong [OF refl], rule same) (use j sub indices_bounds [OF j] in \<open>auto simp: ix\<close>)
      then show ?thesis using block [of j] j by (simp add: ix)
    qed
    have "(\<Sum>i\<in>{first..<?hi}. block_targets first stride c i)
      = (\<Sum>j\<leftarrow>indices first ?hi ?sub. \<Sum>i\<in>{j..<min (j + ?sub) ?hi}. block_targets first stride c i)"
      by (rule sum_blocks) (use sub in simp)
    also have "\<dots> = mset ?js + (\<Sum>j\<leftarrow>indices first ?hi ?sub. mset_set {j<..<min (j + ?sub) ?hi})"
      using other_block by (simp add: ix first_block cong: map_cong)
    finally have "add_mset first (\<Sum>i\<in>{first..<?hi}. block_targets first stride c i) = mset_set {first..<?hi}"
      using indices_blocks [of ?sub first ?hi] sub by (simp add: ix)
    moreover have "{first..<?hi} = insert first {first<..<?hi}" using less.prems by auto
    ultimately show ?thesis by simp
  qed
qed

subsection \<open>The tree of a squad\<close>

lemma stride_of_pos: "1 \<le> stride \<Longrightarrow> 1 \<le> stride_of first stride i"
proof (induction first stride i rule: stride_of.induct)
  case (1 first stride i)
  then show ?case
    using next_substride_pos [of stride] by (subst stride_of.simps) (auto simp: Let_def)
qed

text \<open>The call \<^verbatim>\<open>init(0, numThreads, numThreads)\<close> of the constructor, on the initial \<^verbatim>\<open>numSubthreads_\<close> of -1.\<close>

definition squad_strides :: "int \<Rightarrow> int list option" where
  "squad_strides n = init 0 n n (replicate (nat n) (- 1))"

lemma squad_strides_eq:
  assumes "1 \<le> n"
  obtains nums where "squad_strides n = Some nums" "length nums = nat n"
    "\<And>i. 0 \<le> i \<Longrightarrow> i < n \<Longrightarrow> array_get nums i = Some (stride_of 0 n i)"
proof
  let ?nums = "fill (stride_of 0 n) 0 n (replicate (nat n) (- 1))"
  show "squad_strides n = Some ?nums"
    unfolding squad_strides_def by (rule init_eq) (use assms in auto)
qed (auto simp: array_get_def nth_fill)

definition down_kids :: "int \<Rightarrow> int \<Rightarrow> int \<Rightarrow> int list" where
  "down_kids n i c = down i (min (i + stride_of 0 n i) c) (stride_of 0 n i)"

definition up_kids :: "int \<Rightarrow> int \<Rightarrow> int \<Rightarrow> int list" where
  "up_kids n i c = up i (min (i + stride_of 0 n i) c) (stride_of 0 n i)"

lemma subthreads_eq:
  assumes "1 \<le> n" "squad_strides n = Some nums" "0 \<le> i" "i < n"
  shows "to_subthreads nums i c = Some (down_kids n i c)"
    and "from_subthreads nums i c = Some (up_kids n i c)"
proof -
  have get: "array_get nums i = Some (stride_of 0 n i)"
    using squad_strides_eq [OF assms(1)] assms by (metis option.inject)
  have pos: "1 \<le> stride_of 0 n i" by (rule stride_of_pos [OF assms(1)])
  show "to_subthreads nums i c = Some (down_kids n i c)"
    using pos by (simp add: to_subthreads_def get to_subthreads_loop_eq down_kids_def)
  show "from_subthreads nums i c = Some (up_kids n i c)"
    using pos by (simp add: from_subthreads_def get from_subthreads_impl_eq up_kids_def)
qed

lemma down_kids_partition:
  assumes "tree_exact n" "1 \<le> c" "c \<le> n"
  shows "(\<Sum>i\<in>{0..<c}. mset (down_kids n i c)) = mset_set {1..<c}"
proof -
  have "min (0 + n) c = c" using assms by simp
  moreover have "{0<..<c} = {1..<c}" by auto
  moreover have "(\<Sum>i\<in>{0..<c}. mset (down_kids n i c)) = (\<Sum>i\<in>{0..<c}. block_targets 0 n c i)"
    by (simp add: block_targets_def down_kids_def Let_def)
  ultimately show ?thesis
    using block_partition [of n c 0] assms by (simp add: tree_exact_def)
qed

lemma indices_filter:
  "hi \<le> HI \<Longrightarrow> indices i hi step = filter (\<lambda>t. t < hi) (indices i HI step)"
proof (induction i HI step rule: indices.induct)
  case (1 i HI step)
  show ?case
  proof (cases "i < hi \<and> 0 < step")
    case True
    with 1 show ?thesis by (simp add: indices_step)
  next
    case False
    have "t \<in> set (indices i HI step) \<Longrightarrow> \<not> t < hi" if "hi \<le> i" for t
      using indices_bounds [of t i HI step] that by auto
    moreover have "indices i HI step = []" "indices i hi step = []" if "\<not> 0 < step"
      using that by (subst indices.simps, simp)+
    ultimately show ?thesis using False by (auto simp: not_less filter_empty_conv)
  qed
qed

lemma down_filter:
  "hi \<le> HI \<Longrightarrow> down first hi stride = filter (\<lambda>t. t < hi) (down first HI stride)"
proof (induction first HI stride arbitrary: hi rule: down.induct)
  case (1 first HI stride)
  show ?case
  proof (cases "stride \<le> 1")
    case True
    then show ?thesis by (simp add: down.simps)
  next
    case False
    let ?sub = "next_substride stride"
    have "down first (min (first + ?sub) hi) ?sub
      = filter (\<lambda>t. t < min (first + ?sub) hi) (down first (min (first + ?sub) HI) ?sub)"
      using 1 False by (intro "1.IH") auto
    also have "\<dots> = filter (\<lambda>t. t < hi) (down first (min (first + ?sub) HI) ?sub)"
      by (rule filter_cong [OF refl]) (auto dest: down_bounds)
    finally show ?thesis
      using indices_filter [OF "1.prems"] False by (simp add: down.simps [of first _ stride] Let_def)
  qed
qed

lemma down_kids_filter:
  assumes "c \<le> m" shows "down_kids n i c = filter (\<lambda>t. t < c) (down_kids n i m)"
proof -
  let ?s = "stride_of 0 n i"
  have "down i (min (i + ?s) c) ?s = filter (\<lambda>t. t < min (i + ?s) c) (down i (min (i + ?s) m) ?s)"
    by (rule down_filter) (use assms in simp)
  also have "\<dots> = filter (\<lambda>t. t < c) (down i (min (i + ?s) m) ?s)"
    by (rule filter_cong [OF refl]) (auto dest: down_bounds)
  finally show ?thesis by (simp add: down_kids_def)
qed

lemma up_filter:
  "hi \<le> HI \<Longrightarrow> up first hi stride = filter (\<lambda>t. t < hi) (up first HI stride)"
proof (induction first HI stride arbitrary: hi rule: up.induct)
  case (1 first HI stride)
  show ?case
  proof (cases "stride \<le> 1")
    case True
    then show ?thesis by (simp add: up.simps)
  next
    case False
    let ?sub = "next_substride stride"
    have "up first (min (first + ?sub) hi) ?sub
      = filter (\<lambda>t. t < min (first + ?sub) hi) (up first (min (first + ?sub) HI) ?sub)"
      using 1 False by (intro "1.IH") auto
    also have "\<dots> = filter (\<lambda>t. t < hi) (up first (min (first + ?sub) HI) ?sub)"
      by (rule filter_cong [OF refl]) (auto dest: up_bounds)
    finally show ?thesis
      using indices_filter [OF "1.prems"] False by (simp add: up.simps [of first _ stride] Let_def)
  qed
qed

lemma up_kids_filter:
  assumes "c \<le> m" shows "up_kids n i c = filter (\<lambda>t. t < c) (up_kids n i m)"
proof -
  let ?s = "stride_of 0 n i"
  have "up i (min (i + ?s) c) ?s = filter (\<lambda>t. t < min (i + ?s) c) (up i (min (i + ?s) m) ?s)"
    by (rule up_filter) (use assms in simp)
  also have "\<dots> = filter (\<lambda>t. t < c) (up i (min (i + ?s) m) ?s)"
    by (rule filter_cong [OF refl]) (auto dest: up_bounds)
  finally show ?thesis by (simp add: up_kids_def)
qed

lemma down_kids_bounds: "t \<in> set (down_kids n i c) \<Longrightarrow> i < t \<and> t < c"
  by (auto simp: down_kids_def dest: down_bounds)

lemma mset_up_kids: "mset (up_kids n i c) = mset (down_kids n i c)"
  by (simp add: up_kids_def down_kids_def mset_up)

lemma tree_exact_small: "1 \<le> n \<Longrightarrow> n \<le> 64 \<Longrightarrow> tree_exact n"
proof -
  assume n: "1 \<le> n" "n \<le> 64"
  then have "1 \<le> next_substride n" "next_substride n \<le> 8" by (simp_all add: next_substride_nonneg)
  then have "next_substride (next_substride n) = 1"
    using next_substride_nonneg [of "next_substride n"] by simp
  then show ?thesis by (simp add: tree_exact_def exact_chain.simps)
qed

section \<open>The interface of the tree\<close>

lemma distinct_count_list_1: "distinct xs \<Longrightarrow> x \<in> set xs \<Longrightarrow> count_list xs x = 1"
  by (induction xs) (auto simp: count_list_0_iff)

text \<open>
  What a traversal protocol needs of a family of trees: \<^verbatim>\<open>down n i c\<close> are the threads that thread
  \<^verbatim>\<open>i\<close> of a squad of \<^verbatim>\<open>n\<close> addresses when \<^verbatim>\<open>c\<close> threads take part, \<^verbatim>\<open>up n i c\<close> the same threads in
  the order in which their results are collected.
\<close>

locale thread_tree =
  fixes ok :: "int \<Rightarrow> bool"
    and dn :: "int \<Rightarrow> int \<Rightarrow> int \<Rightarrow> int list"
    and upw :: "int \<Rightarrow> int \<Rightarrow> int \<Rightarrow> int list"
  assumes partition: "ok n \<Longrightarrow> 1 \<le> c \<Longrightarrow> c \<le> n \<Longrightarrow>
      (\<Sum>i\<in>{0..<c}. mset (dn n i c)) = mset_set {1..<c}"
    and bounds: "t \<in> set (dn n i c) \<Longrightarrow> i < t \<and> t < c"
    and up_perm: "mset (upw n i c) = mset (dn n i c)"
    and restrict: "c \<le> m \<Longrightarrow> dn n i c = filter (\<lambda>t. t < c) (dn n i m)"
    and up_restrict: "c \<le> m \<Longrightarrow> upw n i c = filter (\<lambda>t. t < c) (upw n i m)"
begin

lemma set_up: "set (upw n i c) = set (dn n i c)"
  using up_perm [of n i c] by (rule mset_eq_setD)

lemma kid_iff: "c \<le> m \<Longrightarrow> t \<in> set (dn n i c) \<longleftrightarrow> t < c \<and> t \<in> set (dn n i m)"
  using restrict [of c m n i] by auto

lemma kids_outside: "c \<le> i \<Longrightarrow> dn n i c = []"
  using bounds [of _ n i c] by (metis list.set_intros(1) neq_Nil_conv not_less order.trans less_imp_le)

lemma count_parents:
  assumes "ok n" "1 \<le> c" "c \<le> n" "1 \<le> t" "t < c"
  shows "(\<Sum>i\<in>{0..<c}. count (mset (dn n i c)) t) = 1"
  using arg_cong [OF partition [OF assms(1-3)], of "\<lambda>M. count M t"] assms(4,5)
  by (simp add: count_sum)

lemma distinct_dn:
  assumes "ok n" "0 \<le> i" "c \<le> n"
  shows "distinct (dn n i c)"
proof (cases "i < c")
  case True
  then have c: "1 \<le> c" using assms(2) by simp
  have "count (mset (dn n i c)) t \<le> 1" for t
  proof (cases "t \<in> set (dn n i c)")
    case True
    then have t: "1 \<le> t" "t < c" using bounds [OF True] assms(2) by auto
    have "count (mset (dn n i c)) t \<le> (\<Sum>i\<in>{0..<c}. count (mset (dn n i c)) t)"
      by (rule member_le_sum) (use assms(2) \<open>i < c\<close> in auto)
    then show ?thesis using count_parents [OF assms(1) c assms(3) t] by simp
  next
    case False
    then show ?thesis by (simp add: count_eq_zero_iff [THEN iffD2])
  qed
  then show ?thesis
    by (metis count_mset_0_iff distinct_count_atmost_1 le_antisym less_one linorder_not_less)
next
  case False
  then show ?thesis by (simp add: kids_outside)
qed

lemma distinct_upw: "ok n \<Longrightarrow> 0 \<le> i \<Longrightarrow> c \<le> n \<Longrightarrow> distinct (upw n i c)"
  using distinct_dn [of n i c] up_perm [of n i c] by (metis mset_eq_imp_distinct_iff)

lemma parent_exists:
  assumes "ok n" "1 \<le> t" "t < c" "c \<le> n"
  obtains p where "0 \<le> p" "p < t" "t \<in> set (dn n p c)"
proof -
  have "(\<Sum>i\<in>{0..<c}. count (mset (dn n i c)) t) \<noteq> 0"
    using count_parents [of n c t] assms by simp
  then obtain p where "p \<in> {0..<c}" "count (mset (dn n p c)) t \<noteq> 0"
    by (meson sum.neutral)
  then have "0 \<le> p" "t \<in> set (dn n p c)" by (auto simp: count_mset_0_iff)
  with bounds show thesis using that by blast
qed

lemma parent_unique:
  assumes "ok n" "c \<le> n" "0 \<le> p" "0 \<le> q" "t \<in> set (dn n p c)" "t \<in> set (dn n q c)"
  shows "p = q"
proof (rule ccontr)
  assume "p \<noteq> q"
  have b: "p < t" "q < t" "t < c" using bounds assms(5,6) by auto
  have "(\<Sum>i\<in>{p, q}. count (mset (dn n i c)) t) \<le> (\<Sum>i\<in>{0..<c}. count (mset (dn n i c)) t)"
    by (rule sum_mono2) (use b assms(3,4) in auto)
  then have "count (mset (dn n p c)) t + count (mset (dn n q c)) t \<le> 1"
    using count_parents [of n c t] assms(1-4) b \<open>p \<noteq> q\<close> by simp
  moreover have "count (mset (dn n p c)) t \<noteq> 0" "count (mset (dn n q c)) t \<noteq> 0"
    using assms(5,6) by (auto simp: count_mset_0_iff)
  ultimately show False by linarith
qed

text \<open>Induction from the root along the tree.\<close>

lemma tree_induct:
  assumes "ok n" "c \<le> n" "0 \<le> t" "t < c" "P 0"
    and "\<And>p t. 0 \<le> p \<Longrightarrow> p < c \<Longrightarrow> P p \<Longrightarrow> t \<in> set (dn n p c) \<Longrightarrow> P t"
  shows "P t"
  using assms(3,4)
proof (induction "nat t" arbitrary: t rule: less_induct)
  case less
  show ?case
  proof (cases "t = 0")
    case False
    then obtain p where p: "0 \<le> p" "p < t" "t \<in> set (dn n p c)"
      using parent_exists [of n t c] less.prems assms(1,2) by auto
    have "P p" by (rule less.hyps) (use p less.prems in auto)
    have "p < c" using p less.prems by simp
    from assms(6) [OF p(1) this \<open>P p\<close> p(3)] show ?thesis .
  qed (use assms(5) in simp)
qed

end

interpretation tree: thread_tree tree_exact down_kids up_kids
  by unfold_locales
    (fact down_kids_partition down_kids_bounds mset_up_kids down_kids_filter up_kids_filter)+

section \<open>Properties\<close>

text \<open>
  C15: In a squad of at most 64 threads (more generally, of an exact size), when the
  first \<^verbatim>\<open>c\<close> threads take part in an operation, all traversals return, and each of the threads
  1 to \<^verbatim>\<open>c - 1\<close> is notified exactly once and awaited exactly once, both times by the same thread,
  which has a smaller index.
\<close>

theorem subthreads_exactly_once:
  assumes "tree_exact n" "1 \<le> c" "c \<le> n"
  shows "\<exists>nums. squad_strides n = Some nums
    \<and> (\<forall>i. 0 \<le> i \<and> i < n \<longrightarrow> (\<exists>ds us. to_subthreads nums i c = Some ds
        \<and> from_subthreads nums i c = Some us \<and> mset us = mset ds))
    \<and> (\<forall>t. 1 \<le> t \<and> t < c \<longrightarrow> (\<exists>!p. 0 \<le> p \<and> p < n \<and> t \<in> set (the (to_subthreads nums p c)))
        \<and> (\<exists>p. 0 \<le> p \<and> p < t \<and> count_list (the (to_subthreads nums p c)) t = 1
                \<and> count_list (the (from_subthreads nums p c)) t = 1))"
proof -
  have n: "1 \<le> n" using assms by simp
  obtain nums where nums: "squad_strides n = Some nums" using squad_strides_eq [OF n] by blast
  note eqs = subthreads_eq [OF n nums]
  have "(\<exists>!p. 0 \<le> p \<and> p < n \<and> t \<in> set (the (to_subthreads nums p c)))
      \<and> (\<exists>p. 0 \<le> p \<and> p < t \<and> count_list (the (to_subthreads nums p c)) t = 1
              \<and> count_list (the (from_subthreads nums p c)) t = 1)" if t: "1 \<le> t" "t < c" for t
  proof -
    obtain p where p: "0 \<le> p" "p < t" "t \<in> set (down_kids n p c)"
      using tree.parent_exists [OF assms(1) t assms(3)] .
    have "count_list (down_kids n p c) t = 1" "count_list (up_kids n p c) t = 1"
      using p tree.distinct_dn [OF assms(1) p(1) assms(3)] tree.distinct_upw [OF assms(1) p(1) assms(3)]
        tree.set_up [of n p c] by (simp_all add: distinct_count_list_1)
    moreover have "q = p" if "0 \<le> q" "t \<in> set (down_kids n q c)" for q
      using tree.parent_unique [OF assms(1,3)] that p by blast
    moreover have eq: "the (to_subthreads nums q c) = down_kids n q c"
        "the (from_subthreads nums q c) = up_kids n q c" if "0 \<le> q" "q < n" for q
      using eqs [OF that] by simp_all
    moreover have "p < n" using p t assms(3) by simp
    ultimately show ?thesis using p by (intro conjI ex1I [of _ p] exI [of _ p]) metis+
  qed
  moreover have "\<exists>ds us. to_subthreads nums i c = Some ds \<and> from_subthreads nums i c = Some us
      \<and> mset us = mset ds" if "0 \<le> i" "i < n" for i
    using eqs [OF that] mset_up_kids by blast
  ultimately show ?thesis using nums by blast
qed

lemma subthreads_exactly_once_witness:
  "\<exists>nums. squad_strides 9 = Some nums
    \<and> (\<forall>i. 0 \<le> i \<and> i < 9 \<longrightarrow> (\<exists>ds us. to_subthreads nums i 7 = Some ds
        \<and> from_subthreads nums i 7 = Some us \<and> mset us = mset ds))
    \<and> (\<forall>t. 1 \<le> t \<and> t < 7 \<longrightarrow> (\<exists>!p. 0 \<le> p \<and> p < 9 \<and> t \<in> set (the (to_subthreads nums p 7)))
        \<and> (\<exists>p. 0 \<le> p \<and> p < t \<and> count_list (the (to_subthreads nums p 7)) t = 1
                \<and> count_list (the (from_subthreads nums p 7)) t = 1))"
  by (rule subthreads_exactly_once) (simp_all add: tree_exact_small)

text \<open>
  A squad of 65 threads has no such tree. Threads 0 and 8 both address thread 9, so
  both submit the task to it and both start it: \<^verbatim>\<open>next_substride(9)\<close> is 2, which does not divide 9,
  and the block of two threads that starts at 8 reaches into the next block.
\<close>

theorem tree_65_two_parents:
  "\<exists>nums ds0 ds8. squad_strides 65 = Some nums
    \<and> to_subthreads nums 0 65 = Some ds0 \<and> to_subthreads nums 8 65 = Some ds8
    \<and> 9 \<in> set ds0 \<and> 9 \<in> set ds8"
proof -
  obtain nums where nums: "squad_strides 65 = Some nums" using squad_strides_eq [of 65] by auto
  have "9 \<in> set (down_kids 65 0 65)" "9 \<in> set (down_kids 65 8 65)" by code_simp+
  with nums show ?thesis using subthreads_eq [OF _ nums, of _ 65] by auto
qed

end
