(* ===== verification/Squad_Task.thy ===== *)
theory Squad_Task
  imports Prelude
begin

text \<open>
  The tasks that a thread squad runs (\<^verbatim>\<open>src/include/patton/detail/thread_squad.hpp\<close> and the
  \<^verbatim>\<open>thread_squad_nop\<close> task of \<^verbatim>\<open>src/src/thread_squad.cpp\<close>): their parameters, what a thread
  does when it executes a task, and how the result of a subordinate thread is merged.

  The caller's action is a parameter of the program: its effect on the caller's own data is not
  described, the model records which thread executes it. The transformation of a
  transform-reduce task is a function of the thread index and the number of running threads,
  the two values that a task context offers; its reduction is a function on values.
\<close>

section \<open>Task parameters and kinds of tasks\<close>

text \<open>\<^verbatim>\<open>thread_squad_task_params\<close>.\<close>

record task_params =
  concurrency :: int
  join_requested :: bool

text \<open>
  The subclasses of \<^verbatim>\<open>thread_squad_task\<close>: \<^verbatim>\<open>thread_squad_nop\<close>, \<^verbatim>\<open>thread_squad_action\<close> and
  \<^verbatim>\<open>thread_squad_transform_reduce_operation\<close>.
\<close>

datatype 'v task_op =
    NopTask
  | ActionTask
  | TransformReduceTask "int \<Rightarrow> int \<Rightarrow> 'v" "'v \<Rightarrow> 'v \<Rightarrow> 'v"

record 'v squad_task =
  params :: task_params
  task_op :: "'v task_op"

text \<open>
  The array of \<^verbatim>\<open>thread_reduce_data\<close> that a transform-reduce task points to, one optional
  value per participating thread; an access outside of the array is undefined behaviour.
\<close>

type_synonym 'v reduce_data = "'v option list"

definition data_get :: "'v reduce_data \<Rightarrow> int \<Rightarrow> 'v option res" where
  "data_get d i = (if 0 \<le> i \<and> i < int (length d) then Inr (d ! nat i) else Inl UndefinedBehaviour)"

definition data_set :: "'v reduce_data \<Rightarrow> int \<Rightarrow> 'v option \<Rightarrow> 'v reduce_data res" where
  "data_set d i v = (if 0 \<le> i \<and> i < int (length d) then Inr (d[nat i := v]) else Inl UndefinedBehaviour)"

text \<open>
  \<^verbatim>\<open>value.value()\<close> of an empty optional throws, and the functions it is called from are
  \<^verbatim>\<open>noexcept\<close>.
\<close>

definition opt_value :: "'v option \<Rightarrow> 'v res" where
  "opt_value v = (case v of None \<Rightarrow> Inl Terminated | Some x \<Rightarrow> Inr x)"

section \<open>Execution and merging\<close>

text \<open>\<^verbatim>\<open>execute(impl, i, numRunningThreads)\<close> of each kind of task.\<close>

definition execute :: "'v task_op \<Rightarrow> int \<Rightarrow> int \<Rightarrow> 'v reduce_data \<Rightarrow> 'v reduce_data res" where
  "execute op i numRunningThreads d =
     (case op of
        NopTask \<Rightarrow> Inr d
      | ActionTask \<Rightarrow> Inr d
      | TransformReduceTask transform reduce \<Rightarrow>
          res_bind (data_get d i) (\<lambda>v.
          case v of
            Some _ \<Rightarrow> Inl ContractViolation
          | None \<Rightarrow> data_set d i (Some (transform i numRunningThreads))))"

text \<open>
  \<^verbatim>\<open>merge(iDst, iSrc)\<close>: the default does nothing; a transform-reduce task stores the reduction
  of the two values in the destination and empties the source.
\<close>

definition merge :: "'v task_op \<Rightarrow> int \<Rightarrow> int \<Rightarrow> 'v reduce_data \<Rightarrow> 'v reduce_data res" where
  "merge op iDst iSrc d =
     (case op of
        NopTask \<Rightarrow> Inr d
      | ActionTask \<Rightarrow> Inr d
      | TransformReduceTask transform reduce \<Rightarrow>
          res_bind (data_get d iDst) (\<lambda>dst. res_bind (opt_value dst) (\<lambda>x.
          res_bind (data_get d iSrc) (\<lambda>src. res_bind (opt_value src) (\<lambda>y.
          res_bind (data_set d iDst (Some (reduce x y))) (\<lambda>d'.
          data_set d' iSrc None))))))"

lemma execute_ok:
  assumes "0 \<le> i" "i < int (length d)" "d ! nat i = None"
  shows "execute (TransformReduceTask tr rd) i c d = Inr (d[nat i := Some (tr i c)])"
  using assms by (simp add: execute_def data_get_def data_set_def)

lemma merge_ok:
  assumes "0 \<le> i" "i < int (length d)" "0 \<le> k" "k < int (length d)"
    and "d ! nat i = Some x" "d ! nat k = Some y"
  shows "merge (TransformReduceTask tr rd) i k d = Inr (d[nat i := Some (rd x y), nat k := None])"
  using assms by (simp add: merge_def data_get_def data_set_def opt_value_def)

end
