(* ===== verification/Squad_Protocol.thy ===== *)
theory Squad_Protocol
  imports Squad_Tree Squad_Task
begin

text \<open>
  The concurrent protocol of a thread squad (\<^verbatim>\<open>src/src/thread_squad.cpp\<close>): the main thread that
  calls \<^verbatim>\<open>thread_squad_impl::run\<close> for a sequence of tasks, and the worker threads, each of which
  executes \<^verbatim>\<open>run_thread\<close>. The state holds what the threads share (the atomics and the members of
  \<^verbatim>\<open>thread_data\<close> and \<^verbatim>\<open>thread_squad_impl\<close>) and a program counter per thread; a step of the
  system is one step of one thread.

  Atomics are interleaved sequentially consistently. One step is one access to shared state
  together with the thread-local computation around it; \<^verbatim>\<open>set_and_notify\<close> with its assertion is
  one step. A \<^verbatim>\<open>wait\<close> is blocked until the value differs. Starting a thread always succeeds.
  Members of the records that are marked as ghosts are read by no operation.
\<close>

section \<open>State\<close>

text \<open>How far a thread got with the current task (a ghost).\<close>

datatype stage = Before | Active | After

datatype phase = PReset | PSet

text \<open>
  The program counter of a worker: the point of \<^verbatim>\<open>run_thread\<close> it executes next. The list argument
  has the threads that the current traversal of the tree still has to visit.
\<close>

datatype worker_pc =
    Unforked                    \<comment> \<open>the operating system thread does not exist yet\<close>
  | Started                     \<comment> \<open>before \<^verbatim>\<open>notify_and_fork_subthreads()\<close>\<close>
  | NotifyFork phase "int list" \<comment> \<open>in it: before the two halves of \<^verbatim>\<open>notify_thread\<close>\<close>
  | Fork "int list"             \<comment> \<open>in it: before \<^verbatim>\<open>fork_thread\<close> of the list's head\<close>
  | TaskWait                    \<comment> \<open>in \<^verbatim>\<open>task_wait()\<close>\<close>
  | Notify phase "int list"     \<comment> \<open>in \<^verbatim>\<open>notify_subthreads()\<close>\<close>
  | Run                         \<comment> \<open>before \<^verbatim>\<open>task_run(task)\<close>\<close>
  | Await "int list"            \<comment> \<open>in \<^verbatim>\<open>wait_for_subthreads()\<close>\<close>
  | SignalReset                 \<comment> \<open>the first half of \<^verbatim>\<open>task_signal_completion()\<close>\<close>
  | SignalSet                   \<comment> \<open>its second half\<close>
  | NextPass                    \<comment> \<open>before \<^verbatim>\<open>next_pass()\<close> and the loop condition\<close>
  | Join "int list"             \<comment> \<open>in \<^verbatim>\<open>join_subthreads()\<close>\<close>
  | Exited

text \<open>The program counter of the main thread: the point of \<^verbatim>\<open>thread_squad_impl::run\<close>.\<close>

datatype main_pc =
    MReady        \<comment> \<open>before the next call of \<^verbatim>\<open>run\<close>\<close>
  | MNotifyReset  \<comment> \<open>\<^verbatim>\<open>notify_thread(-1, 0)\<close>, first half\<close>
  | MNotifySet    \<comment> \<open>second half\<close>
  | MFork         \<comment> \<open>\<^verbatim>\<open>fork_thread(-1, 0)\<close>\<close>
  | MWait         \<comment> \<open>\<^verbatim>\<open>wait_for_thread(-1, 0)\<close>\<close>
  | MJoin         \<comment> \<open>\<^verbatim>\<open>join_thread(-1, 0)\<close>\<close>
  | MRelease      \<comment> \<open>\<^verbatim>\<open>release_task()\<close>\<close>
  | MFreed        \<comment> \<open>after a call with \<^verbatim>\<open>join_requested\<close>: the squad object is destroyed\<close>

text \<open>\<^verbatim>\<open>thread_squad_impl::thread_data\<close> and the local state of the thread that serves it.\<close>

record thread_data =
  pass :: int
  have_handle :: bool
  signalTaskAvailable :: int
  signalTaskProcessed :: int
  joinRequested :: bool      \<comment> \<open>the local variable of \<^verbatim>\<open>run_thread\<close>\<close>
  pc :: worker_pc
  stage :: stage             \<comment> \<open>ghost\<close>

text \<open>A task that the squad has completed, the threads that executed it, its data (a ghost).\<close>

type_synonym 'v outcome = "'v squad_task \<times> int list \<times> 'v reduce_data"

text \<open>
  \<^verbatim>\<open>thread_squad_impl\<close>, with the calls of \<^verbatim>\<open>run\<close> that the main thread has still to make. The
  data of the current task belongs to the task object in the code.
\<close>

record 'v squad =
  numThreads :: int
  numSubthreads :: "int list"
  thrd :: "int \<Rightarrow> thread_data"
  task :: "'v squad_task option"
  data :: "'v reduce_data"
  main :: main_pc
  todo :: "'v squad_task list"
  first :: bool              \<comment> \<open>ghost: the current task started the threads\<close>
  executed :: "int list"     \<comment> \<open>ghost: the threads that executed the current task\<close>
  finished :: "'v outcome list" \<comment> \<open>ghost\<close>

text \<open>The state of a thread of a squad that has not run anything.\<close>

definition initial_thread :: thread_data where
  "initial_thread = \<lparr>pass = 0, have_handle = False, signalTaskAvailable = 0,
     signalTaskProcessed = 0, joinRequested = False, pc = Unforked, stage = Before\<rparr>"

text \<open>The constructor of \<^verbatim>\<open>thread_squad_impl\<close>.\<close>

definition construct_squad :: "int \<Rightarrow> 'v squad_task list \<Rightarrow> 'v squad option" where
  "construct_squad n calls = map_option (\<lambda>nums.
     \<lparr>numThreads = n, numSubthreads = nums, thrd = (\<lambda>_. initial_thread), task = None, data = [],
      main = MReady, todo = calls, first = True, executed = [], finished = []\<rparr>) (squad_strides n)"

section \<open>Steps\<close>

text \<open>
  What a thread can do next: nothing because it waits (or has nothing to do), fail, or go on.
\<close>

datatype 'v step = Blocked | Fault failure | Next "'v squad"

definition upd :: "int \<Rightarrow> (thread_data \<Rightarrow> thread_data) \<Rightarrow> 'v squad \<Rightarrow> 'v squad" where
  "upd i f s = s\<lparr>thrd := (thrd s)(i := f (thrd s i))\<rparr>"

definition goto :: "int \<Rightarrow> worker_pc \<Rightarrow> 'v squad \<Rightarrow> 'v squad" where
  "goto i l = upd i (\<lambda>r. r\<lparr>pc := l\<rparr>)"

text \<open>An access to \<^verbatim>\<open>threadData_[k]\<close>.\<close>

definition access :: "'v squad \<Rightarrow> int \<Rightarrow> 'v step \<Rightarrow> 'v step" where
  "access s k x = (if 0 \<le> k \<and> k < numThreads s then x else Fault UndefinedBehaviour)"

text \<open>\<^verbatim>\<open>toggle_value\<close>, \<^verbatim>\<open>reset\<close> and \<^verbatim>\<open>set_and_notify\<close> for the two signals of a task.\<close>

definition toggle_value :: "int \<Rightarrow> int" where
  "toggle_value v = 1 XOR v"

definition next_pass :: "int \<Rightarrow> int" where
  "next_pass p = (if p < 2 ^ 31 - 1 then p + 1 else p)"

definition set_available :: "int \<Rightarrow> 'v squad \<Rightarrow> ('v squad \<Rightarrow> 'v squad) \<Rightarrow> 'v step" where
  "set_available k s continue = access s k
     (if signalTaskAvailable (thrd s k) = toggle_value 0 then Fault ContractViolation
      else Next (continue (upd k (\<lambda>r. r\<lparr>signalTaskAvailable := toggle_value 0, stage := Active\<rparr>) s)))"

definition reset_processed :: "int \<Rightarrow> 'v squad \<Rightarrow> ('v squad \<Rightarrow> 'v squad) \<Rightarrow> 'v step" where
  "reset_processed k s continue = access s k
     (Next (continue (upd k (\<lambda>r. r\<lparr>signalTaskProcessed := 0\<rparr>) s)))"

text \<open>\<^verbatim>\<open>os_thread::fork\<close> and \<^verbatim>\<open>os_thread::join\<close>.\<close>

definition fork_thread :: "int \<Rightarrow> 'v squad \<Rightarrow> ('v squad \<Rightarrow> 'v squad) \<Rightarrow> 'v step" where
  "fork_thread k s continue = access s k
     (if have_handle (thrd s k) then Fault ContractViolation
      else Next (continue (upd k (\<lambda>r. r\<lparr>have_handle := True, pc := Started\<rparr>) s)))"

definition join_thread :: "int \<Rightarrow> 'v squad \<Rightarrow> ('v squad \<Rightarrow> 'v squad) \<Rightarrow> 'v step" where
  "join_thread k s continue = access s k
     (if \<not> have_handle (thrd s k) then Fault ContractViolation
      else if pc (thrd s k) \<noteq> Exited then Blocked
      else Next (continue (upd k (\<lambda>r. r\<lparr>have_handle := False\<rparr>) s)))"

text \<open>\<^verbatim>\<open>thread_data::num_threads_for_task()\<close>.\<close>

definition num_threads_for_task :: "'v squad \<Rightarrow> int \<Rightarrow> int" where
  "num_threads_for_task s i =
     (case task s of
        None \<Rightarrow> numThreads s
      | Some tk \<Rightarrow> if pass (thrd s i) = 0 \<or> join_requested (params tk) then numThreads s
                   else concurrency (params tk))"

text \<open>
  The start of a traversal of the tree by thread \<^verbatim>\<open>i\<close>: \<^verbatim>\<open>l\<close> is the program counter for the
  sequence of threads to visit.
\<close>

definition traverse :: "int \<Rightarrow> int list option \<Rightarrow> (int list \<Rightarrow> worker_pc) \<Rightarrow> 'v squad \<Rightarrow> 'v step" where
  "traverse i ts l s = (case ts of None \<Rightarrow> Fault UndefinedBehaviour | Some ks \<Rightarrow> Next (goto i (l ks) s))"

text \<open>\<^verbatim>\<open>task_wait()\<close>, with the local state that \<^verbatim>\<open>run_thread\<close> takes from the task.\<close>

definition task_wait_step :: "int \<Rightarrow> 'v squad \<Rightarrow> 'v step" where
  "task_wait_step i s =
     (if signalTaskAvailable (thrd s i) = 0 then Blocked
      else case task s of
          None \<Rightarrow> Fault ContractViolation
        | Some tk \<Rightarrow>
            let s' = upd i (\<lambda>r. r\<lparr>joinRequested := join_requested (params tk)\<rparr>) s in
            if pass (thrd s i) \<noteq> 0 then
              traverse i (to_subthreads (numSubthreads s) i (num_threads_for_task s i)) (Notify PReset) s'
            else Next (goto i Run s'))"

text \<open>\<^verbatim>\<open>task_run(task)\<close>, then the entry into \<^verbatim>\<open>wait_for_subthreads()\<close>.\<close>

definition task_run_step :: "int \<Rightarrow> 'v squad \<Rightarrow> 'v step" where
  "task_run_step i s =
     (case task s of
        None \<Rightarrow> Fault UndefinedBehaviour
      | Some tk \<Rightarrow>
          let c = concurrency (params tk);
              enter = traverse i (from_subthreads (numSubthreads s) i (num_threads_for_task s i)) Await in
          if i < c then
            (case execute (task_op tk) i c (data s) of
               Inl e \<Rightarrow> Fault e
             | Inr d \<Rightarrow> enter (s\<lparr>data := d, executed := executed s @ [i]\<rparr>))
          else enter s)"

text \<open>\<^verbatim>\<open>wait_for_thread(i, k)\<close> on a worker: the wait and the merge.\<close>

definition wait_for_thread_step :: "int \<Rightarrow> int \<Rightarrow> int list \<Rightarrow> 'v squad \<Rightarrow> 'v step" where
  "wait_for_thread_step i k ks s = access s k
     (if signalTaskProcessed (thrd s k) = 0 then Blocked
      else case task s of
          None \<Rightarrow> Fault UndefinedBehaviour
        | Some tk \<Rightarrow>
            if k < concurrency (params tk) then
              (case merge (task_op tk) i k (data s) of
                 Inl e \<Rightarrow> Fault e
               | Inr d \<Rightarrow> Next (goto i (Await ks) (s\<lparr>data := d\<rparr>)))
            else Next (goto i (Await ks) s))"

text \<open>\<^verbatim>\<open>next_pass()\<close>, the condition of the loop, and the entry into \<^verbatim>\<open>join_subthreads()\<close>.\<close>

definition next_pass_step :: "int \<Rightarrow> 'v squad \<Rightarrow> 'v step" where
  "next_pass_step i s =
     (let s' = upd i (\<lambda>r. r\<lparr>pass := next_pass (pass r)\<rparr>) s in
      if \<not> joinRequested (thrd s i) then Next (goto i TaskWait s')
      else if num_threads_for_task s' i \<noteq> numThreads s then Fault ContractViolation
      else traverse i (from_subthreads (numSubthreads s) i (num_threads_for_task s' i)) Join s')"

text \<open>One step of worker thread \<^verbatim>\<open>i\<close>: \<^verbatim>\<open>run_thread\<close> from its program counter on.\<close>

definition worker_step :: "int \<Rightarrow> 'v squad \<Rightarrow> 'v step" where
  "worker_step i s =
     (case pc (thrd s i) of
        Unforked \<Rightarrow> Blocked
      | Started \<Rightarrow>
          if num_threads_for_task s i \<noteq> numThreads s then Fault ContractViolation
          else traverse i (to_subthreads (numSubthreads s) i (num_threads_for_task s i)) (NotifyFork PReset) s
      | NotifyFork ph [] \<Rightarrow> Next (goto i TaskWait s)
      | NotifyFork PReset (k # ks) \<Rightarrow> reset_processed k s (goto i (NotifyFork PSet (k # ks)))
      | NotifyFork PSet (k # ks) \<Rightarrow> set_available k s (goto i (Fork (k # ks)))
      | Fork [] \<Rightarrow> Next (goto i TaskWait s)
      | Fork (k # ks) \<Rightarrow> fork_thread k s (goto i (NotifyFork PReset ks))
      | TaskWait \<Rightarrow> task_wait_step i s
      | Notify ph [] \<Rightarrow> Next (goto i Run s)
      | Notify PReset (k # ks) \<Rightarrow> reset_processed k s (goto i (Notify PSet (k # ks)))
      | Notify PSet (k # ks) \<Rightarrow> set_available k s (goto i (Notify PReset ks))
      | Run \<Rightarrow> task_run_step i s
      | Await [] \<Rightarrow> Next (goto i SignalReset s)
      | Await (k # ks) \<Rightarrow> wait_for_thread_step i k ks s
      | SignalReset \<Rightarrow> Next (upd i (\<lambda>r. r\<lparr>signalTaskAvailable := 0, pc := SignalSet\<rparr>) s)
      | SignalSet \<Rightarrow>
          if signalTaskProcessed (thrd s i) = toggle_value 0 then Fault ContractViolation
          else Next (upd i (\<lambda>r. r\<lparr>signalTaskProcessed := toggle_value 0, pc := NextPass, stage := After\<rparr>) s)
      | NextPass \<Rightarrow> next_pass_step i s
      | Join [] \<Rightarrow> Next (goto i Exited s)
      | Join (k # ks) \<Rightarrow> join_thread k s (goto i (Join ks))
      | Exited \<Rightarrow> Blocked)"

text \<open>
  The start of \<^verbatim>\<open>thread_squad_impl::run(task)\<close>: \<^verbatim>\<open>haveWork\<close> and \<^verbatim>\<open>store_task\<close>. A call without work
  returns at once. A call with \<^verbatim>\<open>join_requested\<close> is the last one: \<^verbatim>\<open>thread_squad::do_run\<close> and the
  deleter destroy the squad after it.
\<close>

definition have_work :: "'v squad \<Rightarrow> 'v squad_task \<Rightarrow> bool" where
  "have_work s tk \<longleftrightarrow> concurrency (params tk) \<noteq> 0 \<or> (join_requested (params tk) \<and> have_handle (thrd s 0))"

definition after_call :: "'v squad_task \<Rightarrow> main_pc" where
  "after_call tk = (if join_requested (params tk) then MFreed else MReady)"

definition begin_call :: "'v squad_task \<Rightarrow> 'v squad_task list \<Rightarrow> 'v squad \<Rightarrow> 'v step" where
  "begin_call tk tks s = access s 0
     (if have_work s tk then
        Next (s\<lparr>todo := tks, task := Some tk, data := replicate (nat (concurrency (params tk))) None,
          executed := [], first := \<not> have_handle (thrd s 0), main := MNotifyReset,
          thrd := (\<lambda>i. (thrd s i)\<lparr>stage := Before\<rparr>)\<rparr>)
      else
        Next (s\<lparr>todo := tks, finished := finished s @ [(tk, [], [])], main := after_call tk\<rparr>))"

definition main_step :: "'v squad \<Rightarrow> 'v step" where
  "main_step s =
     (case main s of
        MReady \<Rightarrow> (case todo s of [] \<Rightarrow> Blocked | tk # tks \<Rightarrow> begin_call tk tks s)
      | MNotifyReset \<Rightarrow> reset_processed 0 s (main_update (\<lambda>_. MNotifySet))
      | MNotifySet \<Rightarrow> set_available 0 s
          (\<lambda>s'. s'\<lparr>main := if have_handle (thrd s 0) then MWait else MFork\<rparr>)
      | MFork \<Rightarrow> fork_thread 0 s (main_update (\<lambda>_. MWait))
      | MWait \<Rightarrow> access s 0
          (if signalTaskProcessed (thrd s 0) = 0 then Blocked
           else case task s of
               None \<Rightarrow> Fault UndefinedBehaviour
             | Some tk \<Rightarrow> Next (s\<lparr>main := if join_requested (params tk) then MJoin else MRelease\<rparr>))
      | MJoin \<Rightarrow> join_thread 0 s (main_update (\<lambda>_. MRelease))
      | MRelease \<Rightarrow>
          (case task s of
             None \<Rightarrow> Fault UndefinedBehaviour
           | Some tk \<Rightarrow> Next (s\<lparr>task := None, main := after_call tk,
               finished := finished s @ [(tk, executed s, data s)]\<rparr>))
      | MFreed \<Rightarrow> Blocked)"

section \<open>Executions\<close>

inductive squad_step :: "'v squad \<Rightarrow> 'v squad \<Rightarrow> bool" where
  main: "main_step s = Next s' \<Longrightarrow> squad_step s s'"
| worker: "0 \<le> i \<Longrightarrow> i < numThreads s \<Longrightarrow> worker_step i s = Next s' \<Longrightarrow> squad_step s s'"

inductive reachable :: "int \<Rightarrow> 'v squad_task list \<Rightarrow> 'v squad \<Rightarrow> bool" for n calls where
  start: "construct_squad n calls = Some s \<Longrightarrow> reachable n calls s"
| step: "reachable n calls s \<Longrightarrow> squad_step s s' \<Longrightarrow> reachable n calls s'"

text \<open>
  The calls that the class \<^verbatim>\<open>thread_squad\<close> can make: a concurrency of 0 to \<^verbatim>\<open>numThreads\<close>, and only
  the last call requests the join (an rvalue call, or the deleter).
\<close>

definition valid_task :: "int \<Rightarrow> 'v squad_task \<Rightarrow> bool" where
  "valid_task n tk \<longleftrightarrow> 0 \<le> concurrency (params tk) \<and> concurrency (params tk) \<le> n"

fun valid_calls :: "int \<Rightarrow> 'v squad_task list \<Rightarrow> bool" where
  "valid_calls n [] \<longleftrightarrow> True"
| "valid_calls n (tk # tks) \<longleftrightarrow> valid_task n tk \<and> (join_requested (params tk) \<longrightarrow> tks = []) \<and> valid_calls n tks"

inductive_cases squad_stepE: "squad_step s s'"

end
