(* ===== verification/Tree_Invariant.thy ===== *)
theory Tree_Invariant
  imports Squad_Tree
begin

text \<open>
  Invariants that are local to the thread tree: a condition \<^verbatim>\<open>N\<close> on every thread and a condition
  \<^verbatim>\<open>E\<close> on every pair of a thread and one of its subordinate threads. A step of the protocol
  changes a thread and at most one subordinate thread; the lemmas reduce the preservation of the
  whole invariant to the conditions that mention these two. They are proved from the interface
  \<^verbatim>\<open>thread_tree\<close>.
\<close>

definition tree_inv ::
  "(int \<Rightarrow> int list) \<Rightarrow> int \<Rightarrow> (int \<Rightarrow> 'r \<Rightarrow> bool) \<Rightarrow> ('r \<Rightarrow> int \<Rightarrow> 'r \<Rightarrow> bool) \<Rightarrow> (int \<Rightarrow> 'r) \<Rightarrow> bool" where
  "tree_inv kids n N E T \<longleftrightarrow>
     (\<forall>i. 0 \<le> i \<and> i < n \<longrightarrow> N i (T i) \<and> (\<forall>k\<in>set (kids i). E (T i) k (T k)))"

lemma tree_inv_node: "tree_inv kids n N E T \<Longrightarrow> 0 \<le> i \<Longrightarrow> i < n \<Longrightarrow> N i (T i)"
  by (simp add: tree_inv_def)

lemma tree_inv_edge:
  "tree_inv kids n N E T \<Longrightarrow> 0 \<le> i \<Longrightarrow> i < n \<Longrightarrow> k \<in> set (kids i) \<Longrightarrow> E (T i) k (T k)"
  by (simp add: tree_inv_def)

lemma tree_inv_mono:
  assumes "tree_inv kids n N E T"
    and "\<And>i. 0 \<le> i \<Longrightarrow> i < n \<Longrightarrow> N i (T i) \<Longrightarrow> N' i (T i)"
    and "\<And>i k. 0 \<le> i \<Longrightarrow> i < n \<Longrightarrow> k \<in> set (kids i) \<Longrightarrow> E (T i) k (T k) \<Longrightarrow> E' (T i) k (T k)"
  shows "tree_inv kids n N' E' T"
  using assms by (simp add: tree_inv_def)

context thread_tree begin

lemma tree_inv_update_one:
  assumes inv: "tree_inv (\<lambda>i. dn n i n) n N E T" and ok: "ok n" and i: "0 \<le> i" "i < n"
    and node: "N i r"
    and down: "\<And>k. k \<in> set (dn n i n) \<Longrightarrow> i < k \<Longrightarrow> k < n \<Longrightarrow> E (T i) k (T k) \<Longrightarrow> E r k (T k)"
    and up: "\<And>rp. E rp i (T i) \<Longrightarrow> E rp i r"
  shows "tree_inv (\<lambda>i. dn n i n) n N E (T(i := r))"
  unfolding tree_inv_def
proof (intro allI impI conjI ballI)
  fix j assume j: "0 \<le> j \<and> j < n"
  then show "N j ((T(i := r)) j)" using node tree_inv_node [OF inv] by simp
  fix k assume k: "k \<in> set (dn n j n)"
  have b: "j < k" "k < n" using bounds [OF k] by auto
  have e: "E (T j) k (T k)" using tree_inv_edge [OF inv] j k by simp
  show "E ((T(i := r)) j) k ((T(i := r)) k)"
    using b e down [of k] up [of "T j"] k by (cases "j = i"; cases "k = i") auto
qed

lemma tree_inv_update_root:
  assumes inv: "tree_inv (\<lambda>i. dn n i n) n N E T" and ok: "ok n"
    and node: "N 0 r"
    and down: "\<And>k. k \<in> set (dn n 0 n) \<Longrightarrow> E (T 0) k (T k) \<Longrightarrow> E r k (T k)"
  shows "tree_inv (\<lambda>i. dn n i n) n N E (T(0 := r))"
  unfolding tree_inv_def
proof (intro allI impI conjI ballI)
  fix j assume j: "0 \<le> j \<and> j < n"
  then show "N j ((T(0 := r)) j)" using node tree_inv_node [OF inv] by simp
  fix k assume k: "k \<in> set (dn n j n)"
  have "j < k" using bounds [OF k] by simp
  moreover have "E (T j) k (T k)" using tree_inv_edge [OF inv] j k by simp
  ultimately show "E ((T(0 := r)) j) k ((T(0 := r)) k)" using down k j by auto
qed

lemma tree_inv_update_two:
  assumes inv: "tree_inv (\<lambda>i. dn n i n) n N E T" and ok: "ok n" and i: "0 \<le> i" "i < n"
    and k: "k \<in> set (dn n i n)"
    and nodes: "N i r" "N k rk"
    and edge: "E r k rk"
    and down: "\<And>j. j \<in> set (dn n i n) \<Longrightarrow> j \<noteq> k \<Longrightarrow> E (T i) j (T j) \<Longrightarrow> E r j (T j)"
    and up: "\<And>rp. E rp i (T i) \<Longrightarrow> E rp i r"
    and below: "\<And>j. j \<in> set (dn n k n) \<Longrightarrow> E (T k) j (T j) \<Longrightarrow> E rk j (T j)"
  shows "tree_inv (\<lambda>i. dn n i n) n N E (T(i := r, k := rk))"
  unfolding tree_inv_def
proof (intro allI impI conjI ballI)
  fix j assume j: "0 \<le> j \<and> j < n"
  have ik: "i < k" "k < n" using bounds [OF k] by auto
  then show "N j ((T(i := r, k := rk)) j)" using nodes tree_inv_node [OF inv] j by simp
  fix l assume l: "l \<in> set (dn n j n)"
  have b: "j < l" "l < n" using bounds [OF l] by auto
  have e: "E (T j) l (T l)" using tree_inv_edge [OF inv] j l by simp
  have "j = i" if "l = k"
    using parent_unique [OF ok order.refl] that l k i(1) j by blast
  then show "E ((T(i := r, k := rk)) j) l ((T(i := r, k := rk)) l)"
    using ik b e edge down [of l] up [of "T j"] below [of l] l k by auto
qed

text \<open>What holds of the root and is passed on along the edges holds of all threads.\<close>

lemma tree_inv_all:
  assumes "tree_inv (\<lambda>i. dn n i n) n N E T" "ok n" "c \<le> n" "0 \<le> t" "t < c" "P (T 0)"
    and "\<And>i k. E (T i) k (T k) \<Longrightarrow> P (T i) \<Longrightarrow> k < c \<Longrightarrow> P (T k)"
  shows "P (T t)"
proof (rule tree_induct [OF assms(2) assms(3-5), of "\<lambda>t. P (T t)"])
  fix p t assume a: "0 \<le> p" "p < c" "P (T p)" "t \<in> set (dn n p c)"
  have "t < c" "t \<in> set (dn n p n)" using a(4) kid_iff [OF assms(3)] by auto
  then show "P (T t)" using assms(7) [of p t] a tree_inv_edge [OF assms(1)] assms(3) by simp
qed (fact assms(6))

end

end
