(* ===== verification/Squad_Invariant.thy ===== *)
theory Squad_Invariant
  imports Squad_Protocol Tree_Invariant
begin

text \<open>
  The invariant of the squad protocol while a task is being processed, as conditions on each
  thread (\<^verbatim>\<open>worker_ok\<close>), on each pair of a thread and a subordinate thread (\<^verbatim>\<open>edge_ok\<close>) and
  on thread 0 as the main thread sees it (\<^verbatim>\<open>root_ok\<close>), and one lemma per step of a worker that
  the step preserves it. The parameters are the size \<^verbatim>\<open>n\<close> of the squad, the number \<^verbatim>\<open>m\<close> of
  threads that are notified of the task, whether the task is the one that starts the threads
  (\<^verbatim>\<open>fr\<close>) and whether it requests the join (\<^verbatim>\<open>jn\<close>).
\<close>

section \<open>The invariant of a round\<close>

text \<open>Between two tasks a thread has gone, or is about to go, back to \<^verbatim>\<open>task_wait()\<close>.\<close>

definition resting :: "thread_data \<Rightarrow> bool" where
  "resting r \<longleftrightarrow> (pc r = TaskWait \<and> pass r \<noteq> 0) \<or> (pc r = NextPass \<and> \<not> joinRequested r)"

definition finishing :: "worker_pc \<Rightarrow> bool" where
  "finishing l \<longleftrightarrow> (case l of Run \<Rightarrow> True | Await _ \<Rightarrow> True | SignalReset \<Rightarrow> True | SignalSet \<Rightarrow> True | _ \<Rightarrow> False)"

definition starting :: "worker_pc \<Rightarrow> bool" where
  "starting l \<longleftrightarrow> (case l of Unforked \<Rightarrow> True | Started \<Rightarrow> True | NotifyFork _ _ \<Rightarrow> True | Fork _ \<Rightarrow> True
     | TaskWait \<Rightarrow> True | _ \<Rightarrow> False)"

definition notifying :: "worker_pc \<Rightarrow> bool" where
  "notifying l \<longleftrightarrow> (case l of Notify _ _ \<Rightarrow> True | _ \<Rightarrow> False)"

text \<open>Where a thread can be, by its stage.\<close>

definition pc_ok :: "bool \<Rightarrow> bool \<Rightarrow> thread_data \<Rightarrow> bool" where
  "pc_ok fr jn r \<longleftrightarrow>
     (case stage r of
        Before \<Rightarrow> if fr then pc r = Unforked \<and> pass r = 0 else resting r
      | Active \<Rightarrow>
          if fr then pass r = 0 \<and> (starting (pc r) \<or> finishing (pc r) \<and> joinRequested r = jn)
          else resting r \<or> pass r \<noteq> 0 \<and> (notifying (pc r) \<or> finishing (pc r)) \<and> joinRequested r = jn
      | After \<Rightarrow> \<not> jn \<and> resting r \<or> jn \<and> joinRequested r \<and> (pc r = NextPass \<or> (\<exists>ks. pc r = Join ks) \<or> pc r = Exited))"

text \<open>The traversals under way visit threads of the tree.\<close>

definition lists_ok :: "int \<Rightarrow> int \<Rightarrow> int \<Rightarrow> worker_pc \<Rightarrow> bool" where
  "lists_ok n m i l \<longleftrightarrow>
     (case l of
        NotifyFork ph ks \<Rightarrow> set ks \<subseteq> set (down_kids n i n) \<and> distinct ks \<and> (ph = PSet \<longrightarrow> ks \<noteq> [])
      | Fork ks \<Rightarrow> set ks \<subseteq> set (down_kids n i n) \<and> distinct ks \<and> ks \<noteq> []
      | Notify ph ks \<Rightarrow> set ks \<subseteq> set (down_kids n i m) \<and> distinct ks \<and> (ph = PSet \<longrightarrow> ks \<noteq> [])
      | Await ks \<Rightarrow> (\<exists>us. us @ ks = up_kids n i m)
      | Join ks \<Rightarrow> set ks \<subseteq> set (up_kids n i n) \<and> distinct ks
      | _ \<Rightarrow> True)"

definition worker_ok :: "int \<Rightarrow> int \<Rightarrow> bool \<Rightarrow> bool \<Rightarrow> int \<Rightarrow> thread_data \<Rightarrow> bool" where
  "worker_ok n m fr jn i r \<longleftrightarrow>
     signalTaskAvailable r = (if stage r = Active \<and> pc r \<noteq> SignalSet then 1 else 0)
   \<and> signalTaskProcessed r \<in> {0, 1}
   \<and> (stage r = Active \<longrightarrow> signalTaskProcessed r = 0)
   \<and> (stage r = After \<longrightarrow> signalTaskProcessed r = 1)
   \<and> 0 \<le> pass r
   \<and> (pc r = Unforked \<longrightarrow> \<not> have_handle r)
   \<and> lists_ok n m i (pc r) \<and> pc_ok fr jn r"

text \<open>What a thread has still to do for its subordinate threads.\<close>

definition unnotified :: "thread_data \<Rightarrow> int set" where
  "unnotified r =
     (case stage r of Before \<Rightarrow> UNIV | After \<Rightarrow> {}
      | Active \<Rightarrow>
          (case pc r of Unforked \<Rightarrow> UNIV | Started \<Rightarrow> UNIV | NextPass \<Rightarrow> UNIV
           | NotifyFork _ ks \<Rightarrow> set ks | Fork ks \<Rightarrow> set (tl ks)
           | TaskWait \<Rightarrow> if pass r = 0 then {} else UNIV
           | Notify _ ks \<Rightarrow> set ks | _ \<Rightarrow> {}))"

definition unawaited :: "thread_data \<Rightarrow> int set" where
  "unawaited r =
     (case stage r of Before \<Rightarrow> UNIV | After \<Rightarrow> {}
      | Active \<Rightarrow> (case pc r of Await ks \<Rightarrow> set ks | SignalReset \<Rightarrow> {} | SignalSet \<Rightarrow> {} | _ \<Rightarrow> UNIV))"

text \<open>
  Which subordinate threads it has not started, has joined, and is about to signal after the
  reset of their completion signal.
\<close>

definition unforked :: "thread_data \<Rightarrow> int set" where
  "unforked r = (case pc r of Unforked \<Rightarrow> UNIV | Started \<Rightarrow> UNIV | NotifyFork _ ks \<Rightarrow> set ks
     | Fork ks \<Rightarrow> set ks | _ \<Rightarrow> {})"

definition joined :: "thread_data \<Rightarrow> int set" where
  "joined r = (case pc r of Join ks \<Rightarrow> - set ks | Exited \<Rightarrow> UNIV | _ \<Rightarrow> {})"

definition about_to_set :: "thread_data \<Rightarrow> int set" where
  "about_to_set r = (case pc r of NotifyFork PSet ks \<Rightarrow> {hd ks} | Notify PSet ks \<Rightarrow> {hd ks} | _ \<Rightarrow> {})"

definition stage_edge :: "int \<Rightarrow> thread_data \<Rightarrow> int \<Rightarrow> stage \<Rightarrow> bool" where
  "stage_edge m r k st \<longleftrightarrow>
     (if k < m then (k \<in> unnotified r \<longrightarrow> st = Before) \<and> (k \<notin> unnotified r \<longrightarrow> st \<noteq> Before)
        \<and> (k \<notin> unawaited r \<longrightarrow> st = After)
      else st = Before)"

definition edge_ok :: "int \<Rightarrow> thread_data \<Rightarrow> int \<Rightarrow> thread_data \<Rightarrow> bool" where
  "edge_ok m r k rk \<longleftrightarrow>
     stage_edge m r k (stage rk)
   \<and> (pc rk = Unforked \<longleftrightarrow> k \<in> unforked r)
   \<and> (k \<in> joined r \<longrightarrow> pc rk = Exited)
   \<and> (k \<notin> joined r \<longrightarrow> have_handle rk \<or> pc rk = Unforked)
   \<and> (k \<in> about_to_set r \<and> stage rk = Before \<longrightarrow> signalTaskProcessed rk = 0)"

definition root_ok :: "bool \<Rightarrow> main_pc \<Rightarrow> thread_data \<Rightarrow> bool" where
  "root_ok jn mpc r \<longleftrightarrow>
     (case mpc of
        MNotifyReset \<Rightarrow> stage r = Before
      | MNotifySet \<Rightarrow> stage r = Before \<and> signalTaskProcessed r = 0
      | MFork \<Rightarrow> stage r = Active \<and> pc r = Unforked
      | MWait \<Rightarrow> stage r \<noteq> Before \<and> pc r \<noteq> Unforked
      | MJoin \<Rightarrow> stage r = After \<and> jn
      | MRelease \<Rightarrow> stage r = After \<and> (jn \<longrightarrow> pc r = Exited)
      | _ \<Rightarrow> False)
   \<and> (pc r = Unforked \<or> have_handle r \<or> (jn \<and> mpc = MRelease))"

abbreviation round_ok :: "int \<Rightarrow> int \<Rightarrow> bool \<Rightarrow> bool \<Rightarrow> (int \<Rightarrow> thread_data) \<Rightarrow> bool" where
  "round_ok n m fr jn T \<equiv> tree_inv (\<lambda>i. down_kids n i n) n (worker_ok n m fr jn) (edge_ok m) T"

lemmas worker_simps = worker_ok_def pc_ok_def lists_ok_def resting_def finishing_def starting_def notifying_def
lemmas edge_simps = edge_ok_def stage_edge_def unnotified_def unawaited_def unforked_def joined_def about_to_set_def


lemma edge_up_same:
  assumes "edge_ok m rp i r" "stage r' = stage r" "have_handle r' = have_handle r"
    "signalTaskProcessed r' = signalTaskProcessed r" "pc r \<noteq> Unforked" "pc r' \<noteq> Unforked" "pc r \<noteq> Exited"
  shows "edge_ok m rp i r'"
  using assms by (simp add: edge_ok_def)

lemma root_same:
  assumes "root_ok jn mpc r" "stage r' = stage r" "have_handle r' = have_handle r"
    "signalTaskProcessed r' = signalTaskProcessed r" "pc r \<noteq> Unforked" "pc r' \<noteq> Unforked" "pc r \<noteq> Exited"
  shows "root_ok jn mpc r'"
  using assms by (auto simp: root_ok_def split: main_pc.splits)

lemma own_step:
  assumes inv: "round_ok n m fr jn T" and root: "root_ok jn mpc (T 0)" and n: "tree_exact n" "0 \<le> i" "i < n"
    and same: "stage r' = stage (T i)" "have_handle r' = have_handle (T i)"
      "signalTaskProcessed r' = signalTaskProcessed (T i)"
      "pc (T i) \<noteq> Unforked" "pc r' \<noteq> Unforked" "pc (T i) \<noteq> Exited"
    and node: "worker_ok n m fr jn i r'"
    and down: "\<And>k. k \<in> set (down_kids n i n) \<Longrightarrow> k < n \<Longrightarrow> worker_ok n m fr jn k (T k)
      \<Longrightarrow> edge_ok m (T i) k (T k) \<Longrightarrow> edge_ok m r' k (T k)"
  shows "round_ok n m fr jn (T(i := r')) \<and> root_ok jn mpc ((T(i := r')) 0)"
proof
  show "round_ok n m fr jn (T(i := r'))"
  proof (rule tree.tree_inv_update_one [OF inv n node])
    show "edge_ok m r' k (T k)" if "k \<in> set (down_kids n i n)" "i < k" "k < n" "edge_ok m (T i) k (T k)" for k
      by (rule down) (use that tree_inv_node [OF inv] n in auto)
    show "edge_ok m rp i r'" if "edge_ok m rp i (T i)" for rp
      by (rule edge_up_same [OF that]) (use same in auto)
  qed
  show "root_ok jn mpc ((T(i := r')) 0)"
    using root root_same [of jn mpc "T i" r'] same by auto
qed


definition round_state :: "int \<Rightarrow> int \<Rightarrow> bool \<Rightarrow> bool \<Rightarrow> main_pc \<Rightarrow> (int \<Rightarrow> thread_data) \<Rightarrow> bool" where
  "round_state n m fr jn mpc T \<longleftrightarrow>
     tree_exact n \<and> m \<le> n \<and> (fr \<or> jn \<longrightarrow> m = n) \<and> round_ok n m fr jn T \<and> root_ok jn mpc (T 0)"

lemma round_stateD:
  assumes "round_state n m fr jn mpc T"
  shows "tree_exact n" "m \<le> n" "fr \<Longrightarrow> m = n" "jn \<Longrightarrow> m = n" "round_ok n m fr jn T" "root_ok jn mpc (T 0)"
    "0 \<le> i \<Longrightarrow> i < n \<Longrightarrow> worker_ok n m fr jn i (T i)"
    "0 \<le> i \<Longrightarrow> i < n \<Longrightarrow> k \<in> set (down_kids n i n) \<Longrightarrow> edge_ok m (T i) k (T k)"
  using assms tree_inv_node [of _ n "worker_ok n m fr jn" "edge_ok m" T i]
    tree_inv_edge [of _ n "worker_ok n m fr jn" "edge_ok m" T i k]
  by (auto simp: round_state_def)

lemma own_step_state:
  assumes rs: "round_state n m fr jn mpc T" and i: "0 \<le> i" "i < n"
    and same: "stage r' = stage (T i)" "have_handle r' = have_handle (T i)"
      "signalTaskProcessed r' = signalTaskProcessed (T i)"
      "pc (T i) \<noteq> Unforked" "pc r' \<noteq> Unforked" "pc (T i) \<noteq> Exited"
    and node: "worker_ok n m fr jn i (T i) \<Longrightarrow> worker_ok n m fr jn i r'"
    and down: "\<And>k. k \<in> set (down_kids n i n) \<Longrightarrow> k < n \<Longrightarrow> worker_ok n m fr jn k (T k) \<Longrightarrow> worker_ok n m fr jn i (T i)
      \<Longrightarrow> edge_ok m (T i) k (T k) \<Longrightarrow> edge_ok m r' k (T k)"
  shows "round_state n m fr jn mpc (T(i := r'))"
proof -
  note d = round_stateD [OF rs]
  show ?thesis
    using own_step [OF d(5,6,1) i same node [OF d(7) [OF i]] down] d(1-4,7) i
    by (simp add: round_state_def) 
qed

text \<open>The steps that change only the thread's own local state.\<close>

lemma kids_m:
  assumes "round_state n m fr jn mpc T"
  shows "k \<in> set (down_kids n i m) \<longleftrightarrow> k < m \<and> k \<in> set (down_kids n i n)"
    "k \<in> set (up_kids n i m) \<longleftrightarrow> k < m \<and> k \<in> set (down_kids n i n)"
  using tree.kid_iff [OF round_stateD(2) [OF assms]] by (auto simp: tree.set_up)

lemma started_step:
  assumes "round_state n m fr jn mpc T" "0 \<le> i" "i < n" "pc (T i) = Started"
  shows "round_state n m fr jn mpc (T(i := (T i)\<lparr>pc := NotifyFork PReset (down_kids n i n)\<rparr>))"
  by (rule own_step_state [OF assms(1-3)])
    (use assms round_stateD(1-4) [OF assms(1)] in
      \<open>auto simp: worker_simps edge_simps tree.distinct_dn split: stage.splits if_splits\<close>)

lemma forked_all_step:
  assumes "round_state n m fr jn mpc T" "0 \<le> i" "i < n" "pc (T i) = NotifyFork ph []"
  shows "round_state n m fr jn mpc (T(i := (T i)\<lparr>pc := TaskWait\<rparr>))"
  by (rule own_step_state [OF assms(1-3)])
    (use assms round_stateD(1-4) [OF assms(1)] in
      \<open>auto simp: worker_simps edge_simps split: stage.splits if_splits\<close>)

lemma task_wait_notify_step:
  assumes "round_state n m fr jn mpc T" "0 \<le> i" "i < n" "pc (T i) = TaskWait"
    "signalTaskAvailable (T i) \<noteq> 0" "pass (T i) \<noteq> 0"
  shows "round_state n m fr jn mpc (T(i := (T i)\<lparr>joinRequested := jn, pc := Notify PReset (down_kids n i m)\<rparr>))"
  by (rule own_step_state [OF assms(1-3)])
    (use assms round_stateD(1-4) [OF assms(1)] kids_m [OF assms(1)] in
      \<open>auto simp: worker_simps edge_simps tree.distinct_dn split: stage.splits if_splits\<close>)

lemma task_wait_run_step:
  assumes "round_state n m fr jn mpc T" "0 \<le> i" "i < n" "pc (T i) = TaskWait"
    "signalTaskAvailable (T i) \<noteq> 0" "pass (T i) = 0"
  shows "round_state n m fr jn mpc (T(i := (T i)\<lparr>joinRequested := jn, pc := Run\<rparr>))"
  by (rule own_step_state [OF assms(1-3)])
    (use assms round_stateD(1-4) [OF assms(1)] in
      \<open>auto simp: worker_simps edge_simps split: stage.splits if_splits\<close>)

lemma notified_all_step:
  assumes "round_state n m fr jn mpc T" "0 \<le> i" "i < n" "pc (T i) = Notify ph []"
  shows "round_state n m fr jn mpc (T(i := (T i)\<lparr>pc := Run\<rparr>))"
  by (rule own_step_state [OF assms(1-3)])
    (use assms round_stateD(1-4) [OF assms(1)] in
      \<open>auto simp: worker_simps edge_simps split: stage.splits if_splits\<close>)

lemma run_step:
  assumes "round_state n m fr jn mpc T" "0 \<le> i" "i < n" "pc (T i) = Run"
  shows "round_state n m fr jn mpc (T(i := (T i)\<lparr>pc := Await (up_kids n i m)\<rparr>))"
  by (rule own_step_state [OF assms(1-3)])
    (use assms round_stateD(1-4) [OF assms(1)] kids_m [OF assms(1)] in
      \<open>auto simp: worker_simps edge_simps split: stage.splits if_splits\<close>)

lemma awaited_all_step:
  assumes "round_state n m fr jn mpc T" "0 \<le> i" "i < n" "pc (T i) = Await []"
  shows "round_state n m fr jn mpc (T(i := (T i)\<lparr>pc := SignalReset\<rparr>))"
  by (rule own_step_state [OF assms(1-3)])
    (use assms round_stateD(1-4) [OF assms(1)] in
      \<open>auto simp: worker_simps edge_simps split: stage.splits if_splits\<close>)

lemma await_step:
  assumes "round_state n m fr jn mpc T" "0 \<le> i" "i < n" "pc (T i) = Await (k # ks)"
    "signalTaskProcessed (T k) \<noteq> 0"
  shows "round_state n m fr jn mpc (T(i := (T i)\<lparr>pc := Await ks\<rparr>))"
proof (rule own_step_state [OF assms(1-3)])
  assume w: "worker_ok n m fr jn i (T i)"
  then obtain us where "us @ k # ks = up_kids n i m" using assms(4) by (auto simp: worker_simps)
  then have "(us @ [k]) @ ks = up_kids n i m" by simp
  with w assms(4) show "worker_ok n m fr jn i ((T i)\<lparr>pc := Await ks\<rparr>)"
    by (auto simp: worker_simps split: stage.splits if_splits simp del: append_assoc)
qed (use assms round_stateD(1-4) [OF assms(1)] in
      \<open>auto simp: worker_simps edge_simps split: stage.splits if_splits\<close>)

lemma signal_reset_step:
  assumes "round_state n m fr jn mpc T" "0 \<le> i" "i < n" "pc (T i) = SignalReset"
  shows "round_state n m fr jn mpc (T(i := (T i)\<lparr>signalTaskAvailable := 0, pc := SignalSet\<rparr>))"
  by (rule own_step_state [OF assms(1-3)])
    (use assms round_stateD(1-4) [OF assms(1)] in
      \<open>auto simp: worker_simps edge_simps split: stage.splits if_splits\<close>)

lemma next_pass_wait_step:
  assumes "round_state n m fr jn mpc T" "0 \<le> i" "i < n" "pc (T i) = NextPass" "\<not> joinRequested (T i)" "0 < p"
  shows "round_state n m fr jn mpc (T(i := (T i)\<lparr>pass := p, pc := TaskWait\<rparr>))"
  by (rule own_step_state [OF assms(1-3)])
    (use assms round_stateD(1-4) [OF assms(1)] in
      \<open>auto simp: worker_simps edge_simps split: stage.splits if_splits\<close>)

lemma next_pass_join_step:
  assumes "round_state n m fr jn mpc T" "0 \<le> i" "i < n" "pc (T i) = NextPass" "joinRequested (T i)" "0 < p"
  shows "round_state n m fr jn mpc (T(i := (T i)\<lparr>pass := p, pc := Join (up_kids n i n)\<rparr>))"
  by (rule own_step_state [OF assms(1-3)])
    (use assms round_stateD(1-4) [OF assms(1)] in
      \<open>auto simp: worker_simps edge_simps tree.set_up tree.distinct_upw split: stage.splits if_splits\<close>)

lemma exit_step:
  assumes "round_state n m fr jn mpc T" "0 \<le> i" "i < n" "pc (T i) = Join []"
  shows "round_state n m fr jn mpc (T(i := (T i)\<lparr>pc := Exited\<rparr>))"
  by (rule own_step_state [OF assms(1-3)])
    (use assms round_stateD(1-4) [OF assms(1)] in
      \<open>auto simp: worker_simps edge_simps split: stage.splits if_splits\<close>)

lemma signal_set_step:
  assumes rs: "round_state n m fr jn mpc T" and i: "0 \<le> i" "i < n" and pc: "pc (T i) = SignalSet"
  shows "round_state n m fr jn mpc (T(i := (T i)\<lparr>signalTaskProcessed := 1, pc := NextPass, stage := After\<rparr>))"
proof -
  note d = round_stateD [OF rs]
  let ?r = "(T i)\<lparr>signalTaskProcessed := 1, pc := NextPass, stage := After\<rparr>"
  have w: "worker_ok n m fr jn i (T i)" by (rule d(7) [OF i])
  then have st: "stage (T i) = Active" using pc by (auto simp: worker_simps split: stage.splits if_splits)
  have "round_ok n m fr jn (T(i := ?r))"
  proof (rule tree.tree_inv_update_one [OF d(5,1) i])
    show "worker_ok n m fr jn i ?r"
      using w pc st by (auto simp: worker_simps split: stage.splits if_splits)
    show "edge_ok m ?r k (T k)" if "edge_ok m (T i) k (T k)" for k
      using that pc st by (auto simp: edge_simps)
    show "edge_ok m rp i ?r" if "edge_ok m rp i (T i)" for rp
      using that pc st by (auto simp: edge_ok_def stage_edge_def split: if_splits)
  qed
  moreover have "root_ok jn mpc ((T(i := ?r)) 0)"
    using d(6) pc st by (auto simp: root_ok_def split: main_pc.splits)
  ultimately show ?thesis using d(1-4) by (simp add: round_state_def)
qed

text \<open>The steps that also change the record of a subordinate thread.\<close>

lemma kid_step_state:
  assumes rs: "round_state n m fr jn mpc T" and i: "0 \<le> i" "i < n" and k: "k \<in> set (down_kids n i n)"
    and same: "stage r' = stage (T i)" "have_handle r' = have_handle (T i)"
      "signalTaskProcessed r' = signalTaskProcessed (T i)"
      "pc (T i) \<noteq> Unforked" "pc r' \<noteq> Unforked" "pc (T i) \<noteq> Exited"
    and hyps: "worker_ok n m fr jn i (T i) \<Longrightarrow> worker_ok n m fr jn k (T k) \<Longrightarrow> edge_ok m (T i) k (T k) \<Longrightarrow>
        worker_ok n m fr jn i r' \<and> worker_ok n m fr jn k rk \<and> edge_ok m r' k rk"
    and down: "\<And>j. worker_ok n m fr jn i (T i) \<Longrightarrow> j \<in> set (down_kids n i n) \<Longrightarrow> j \<noteq> k \<Longrightarrow>
        edge_ok m (T i) j (T j) \<Longrightarrow> edge_ok m r' j (T j)"
    and below: "\<And>j rj. worker_ok n m fr jn i (T i) \<Longrightarrow> worker_ok n m fr jn k (T k) \<Longrightarrow> edge_ok m (T i) k (T k) \<Longrightarrow>
        edge_ok m (T k) j rj \<Longrightarrow> edge_ok m rk j rj"
  shows "round_state n m fr jn mpc (T(i := r', k := rk))"
proof -
  note d = round_stateD [OF rs]
  have b: "i < k" "k < n" using tree.bounds [OF k] by auto
  have w: "worker_ok n m fr jn i (T i)" "worker_ok n m fr jn k (T k)" "edge_ok m (T i) k (T k)"
    using d(7,8) i k b by auto
  note h = hyps [OF w]
  have "round_ok n m fr jn (T(i := r', k := rk))"
  proof (rule tree.tree_inv_update_two [OF d(5,1) i k])
    show "edge_ok m r' j (T j)" if "j \<in> set (down_kids n i n)" "j \<noteq> k" "edge_ok m (T i) j (T j)" for j
      by (rule down [OF w(1) that])
    show "edge_ok m rp i r'" if "edge_ok m rp i (T i)" for rp
      by (rule edge_up_same [OF that]) (use same in auto)
    show "edge_ok m rk j (T j)" if "edge_ok m (T k) j (T j)" for j
      by (rule below [OF w that])
  qed (use h in auto)
  moreover have "root_ok jn mpc ((T(i := r', k := rk)) 0)"
    using d(6) root_same [of jn mpc "T i" r'] same b i by auto
  ultimately show ?thesis using d(1-4) by (simp add: round_state_def)
qed

lemma notify_fork_reset_step:
  assumes "round_state n m fr jn mpc T" "0 \<le> i" "i < n" "pc (T i) = NotifyFork PReset (k # ks)"
  shows "round_state n m fr jn mpc (T(i := (T i)\<lparr>pc := NotifyFork PSet (k # ks)\<rparr>,
      k := (T k)\<lparr>signalTaskProcessed := 0\<rparr>))"
proof -
  have k: "k \<in> set (down_kids n i n)" 
    using assms round_stateD(7) [OF assms(1-3)] by (auto simp: worker_simps)
  show ?thesis
    by (rule kid_step_state [OF assms(1-3) k])
      (use assms tree.bounds [OF k] round_stateD(1-4) [OF assms(1)] in
        \<open>auto simp: worker_simps edge_simps split: stage.splits if_splits\<close>)
qed

lemma notify_fork_set_step:
  assumes "round_state n m fr jn mpc T" "0 \<le> i" "i < n" "pc (T i) = NotifyFork PSet (k # ks)"
  shows "round_state n m fr jn mpc (T(i := (T i)\<lparr>pc := Fork (k # ks)\<rparr>,
      k := (T k)\<lparr>signalTaskAvailable := 1, stage := Active\<rparr>))"
proof -
  have k: "k \<in> set (down_kids n i n)" 
    using assms round_stateD(7) [OF assms(1-3)] by (auto simp: worker_simps)
  show ?thesis
    by (rule kid_step_state [OF assms(1-3) k])
      (use assms tree.bounds [OF k] round_stateD(1-4) [OF assms(1)] in
        \<open>auto simp: worker_simps edge_simps split: stage.splits if_splits\<close>)
qed

lemma fork_step:
  assumes "round_state n m fr jn mpc T" "0 \<le> i" "i < n" "pc (T i) = Fork (k # ks)"
  shows "round_state n m fr jn mpc (T(i := (T i)\<lparr>pc := NotifyFork PReset ks\<rparr>,
      k := (T k)\<lparr>have_handle := True, pc := Started\<rparr>))"
proof -
  have k: "k \<in> set (down_kids n i n)" 
    using assms round_stateD(7) [OF assms(1-3)] by (auto simp: worker_simps)
  show ?thesis
    by (rule kid_step_state [OF assms(1-3) k])
      (use assms tree.bounds [OF k] round_stateD(1-4) [OF assms(1)] in
        \<open>auto simp: worker_simps edge_simps split: stage.splits if_splits\<close>)
qed

lemma notify_reset_step:
  assumes "round_state n m fr jn mpc T" "0 \<le> i" "i < n" "pc (T i) = Notify PReset (k # ks)"
  shows "round_state n m fr jn mpc (T(i := (T i)\<lparr>pc := Notify PSet (k # ks)\<rparr>,
      k := (T k)\<lparr>signalTaskProcessed := 0\<rparr>))"
proof -
  have k: "k \<in> set (down_kids n i n)" "k < m"
    using assms round_stateD(7) [OF assms(1-3)] kids_m [OF assms(1)] by (auto simp: worker_simps)
  show ?thesis
    by (rule kid_step_state [OF assms(1-3) k(1)])
      (use assms k tree.bounds [OF k(1)] round_stateD(1-4) [OF assms(1)] in
        \<open>auto simp: worker_simps edge_simps split: stage.splits if_splits\<close>)
qed

lemma notify_set_step:
  assumes "round_state n m fr jn mpc T" "0 \<le> i" "i < n" "pc (T i) = Notify PSet (k # ks)"
  shows "round_state n m fr jn mpc (T(i := (T i)\<lparr>pc := Notify PReset ks\<rparr>,
      k := (T k)\<lparr>signalTaskAvailable := 1, stage := Active\<rparr>))"
proof -
  note d = round_stateD [OF assms(1)]
  have k: "k \<in> set (down_kids n i n)" "k < m"
    using assms d(7) [OF assms(2,3)] kids_m [OF assms(1)] by (auto simp: worker_simps)
  have b: "i < k" "k < n" using tree.bounds [OF k(1)] by auto
  have i: "stage (T i) = Active" "\<not> fr"
    using assms(4) d(7) [OF assms(2,3)] by (auto simp: worker_simps split: stage.splits if_splits)
  have e: "stage (T k) = Before" "signalTaskProcessed (T k) = 0"
    using d(8) [OF assms(2,3) k(1)] assms(4) i k(2) by (auto simp: edge_simps)
  have r: "resting (T k)" "lists_ok n m k (pc (T k))"
    using d(7) [of k] assms(2) b e i(2) by (auto simp: worker_ok_def pc_ok_def)
  show ?thesis
  proof (rule kid_step_state [OF assms(1-3) k(1)])
    assume "worker_ok n m fr jn i (T i)" "worker_ok n m fr jn k (T k)" "edge_ok m (T i) k (T k)"
    then show "worker_ok n m fr jn i ((T i)\<lparr>pc := Notify PReset ks\<rparr>)
      \<and> worker_ok n m fr jn k ((T k)\<lparr>signalTaskAvailable := 1, stage := Active\<rparr>)
      \<and> edge_ok m ((T i)\<lparr>pc := Notify PReset ks\<rparr>) k ((T k)\<lparr>signalTaskAvailable := 1, stage := Active\<rparr>)"
      using assms(4) i e r k b
      by (intro conjI; simp add: worker_simps edge_simps) auto
  next
    show "edge_ok m ((T k)\<lparr>signalTaskAvailable := 1, stage := Active\<rparr>) j rj" if "edge_ok m (T k) j rj" for j rj
      using that e r by (auto simp: edge_simps resting_def)
  qed (use assms(4) i in \<open>auto simp: edge_simps\<close>)
qed

lemma join_step:
  assumes "round_state n m fr jn mpc T" "0 \<le> i" "i < n" "pc (T i) = Join (k # ks)" "pc (T k) = Exited"
  shows "round_state n m fr jn mpc (T(i := (T i)\<lparr>pc := Join ks\<rparr>, k := (T k)\<lparr>have_handle := False\<rparr>))"
proof -
  have k: "k \<in> set (down_kids n i n)" 
    using assms round_stateD(7) [OF assms(1-3)] by (auto simp: worker_simps tree.set_up)
  show ?thesis
    by (rule kid_step_state [OF assms(1-3) k])
      (use assms tree.bounds [OF k] round_stateD(1-4) [OF assms(1)] in
        \<open>auto simp: worker_simps edge_simps split: stage.splits if_splits\<close>)
qed
section \<open>The thread that a traversal visits next\<close>

lemma kid_facts:
  assumes "round_state n m fr jn mpc T" "0 \<le> i" "i < n" "k \<in> set (down_kids n i n)"
  shows "k \<noteq> i \<and> 0 \<le> k \<and> k < n \<and> worker_ok n m fr jn k (T k) \<and> edge_ok m (T i) k (T k)"
  using round_stateD(7) [OF assms(1), of k] round_stateD(8) [OF assms(1-4)] tree.bounds [OF assms(4)] assms(2) by auto

lemma notify_fork_kid:
  assumes "round_state n m fr jn mpc T" "0 \<le> i" "i < n" "pc (T i) = NotifyFork ph (k # ks)"
  shows "stage (T i) = Active \<and> k \<noteq> i \<and> 0 \<le> k \<and> k < n \<and> stage (T k) = Before \<and> pc (T k) = Unforked
    \<and> signalTaskAvailable (T k) = 0"
proof -
  have w: "stage (T i) = Active" "k \<in> set (down_kids n i n)"
    using round_stateD(7) [OF assms(1-3)] assms(4) by (auto simp: worker_simps split: stage.splits if_splits)
  note k = kid_facts [OF assms(1-3) w(2)]
  then have "stage (T k) = Before" "pc (T k) = Unforked"
    using assms(4) w(1) by (auto simp: edge_ok_def stage_edge_def unnotified_def unforked_def split: if_splits)
  then show ?thesis using k w by (simp add: worker_ok_def)
qed

lemma fork_kid:
  assumes "round_state n m fr jn mpc T" "0 \<le> i" "i < n" "pc (T i) = Fork (k # ks)"
  shows "stage (T i) = Active \<and> k \<noteq> i \<and> 0 \<le> k \<and> k < n \<and> stage (T k) = Active \<and> pc (T k) = Unforked \<and> \<not> have_handle (T k)"
proof -
  have w: "stage (T i) = Active" "k \<in> set (down_kids n i n)" "k \<notin> set ks" "fr"
    using round_stateD(7) [OF assms(1-3)] assms(4) by (auto simp: worker_simps split: stage.splits if_splits)
  note k = kid_facts [OF assms(1-3) w(2)]
  then have "pc (T k) = Unforked" "stage (T k) \<noteq> Before"
    using assms(4) w round_stateD(3) [OF assms(1)]
    by (auto simp: edge_ok_def stage_edge_def unnotified_def unforked_def)
  moreover from this have "stage (T k) = Active"
    using k by (cases "stage (T k)") (auto simp: worker_ok_def pc_ok_def resting_def)
  ultimately show ?thesis using k w by (simp add: worker_ok_def)
qed

lemma notify_kid:
  assumes "round_state n m fr jn mpc T" "0 \<le> i" "i < n" "pc (T i) = Notify ph (k # ks)"
  shows "stage (T i) = Active \<and> k \<noteq> i \<and> 0 \<le> k \<and> k < n \<and> stage (T k) = Before \<and> resting (T k)
    \<and> signalTaskAvailable (T k) = 0"
proof -
  have w: "stage (T i) = Active" "\<not> fr" "k \<in> set (down_kids n i m)"
    using round_stateD(7) [OF assms(1-3)] assms(4) by (auto simp: worker_simps split: stage.splits if_splits)
  then have m: "k \<in> set (down_kids n i n)" "k < m" using kids_m [OF assms(1)] by auto
  note k = kid_facts [OF assms(1-3) m(1)]
  then have "stage (T k) = Before"
    using assms(4) w(1) m(2) by (auto simp: edge_ok_def stage_edge_def unnotified_def)
  then show ?thesis using k w by (simp add: worker_ok_def pc_ok_def)
qed

lemma join_kid:
  assumes "round_state n m fr jn mpc T" "0 \<le> i" "i < n" "pc (T i) = Join (k # ks)"
  shows "stage (T i) = After \<and> k \<noteq> i \<and> 0 \<le> k \<and> k < n \<and> have_handle (T k)"
proof -
  have w: "stage (T i) = After" "k \<in> set (down_kids n i n)"
    using round_stateD(7) [OF assms(1-3)] assms(4)
    by (auto simp: worker_simps tree.set_up split: stage.splits if_splits)
  note k = kid_facts [OF assms(1-3) w(2)]
  then have "have_handle (T k)" using assms(4) by (auto simp: edge_ok_def joined_def unforked_def)
  then show ?thesis using k w by simp
qed

end
