(* ===== verification/Squad_Safety.thy ===== *)
theory Squad_Safety
  imports Squad_Invariant
begin

text \<open>
  The invariant of the whole squad (\<^verbatim>\<open>control_ok\<close>): the round invariant while a task is being
  processed, and what is left of it between two calls. Every step of the main thread and of
  the workers preserves it.
\<close>

text \<open>The number of threads that a call notifies.\<close>

definition round_size :: "int \<Rightarrow> bool \<Rightarrow> 'v squad_task \<Rightarrow> int" where
  "round_size n fr tk = (if fr \<or> join_requested (params tk) then n else concurrency (params tk))"

text \<open>The states of the threads between two calls.\<close>

definition all_fresh :: "int \<Rightarrow> (int \<Rightarrow> thread_data) \<Rightarrow> bool" where
  "all_fresh n T \<longleftrightarrow> (\<forall>i. 0 \<le> i \<and> i < n \<longrightarrow> T i = initial_thread)"

definition all_resting :: "int \<Rightarrow> (int \<Rightarrow> thread_data) \<Rightarrow> bool" where
  "all_resting n T \<longleftrightarrow> (\<forall>i. 0 \<le> i \<and> i < n \<longrightarrow> resting (T i) \<and> signalTaskAvailable (T i) = 0
     \<and> signalTaskProcessed (T i) \<in> {0, 1} \<and> 0 \<le> pass (T i) \<and> have_handle (T i))"

definition all_exited :: "int \<Rightarrow> (int \<Rightarrow> thread_data) \<Rightarrow> bool" where
  "all_exited n T \<longleftrightarrow> (\<forall>i. 0 \<le> i \<and> i < n \<longrightarrow> pc (T i) = Exited)"

definition idle_ok :: "int \<Rightarrow> 'v squad \<Rightarrow> bool" where
  "idle_ok n s \<longleftrightarrow>
     main s = MReady \<and> (all_fresh n (thrd s) \<or> all_resting n (thrd s))
   \<or> main s = MFreed \<and> todo s = [] \<and> (all_fresh n (thrd s) \<or> all_exited n (thrd s))"

definition call_ok :: "int \<Rightarrow> 'v squad_task \<Rightarrow> 'v squad \<Rightarrow> bool" where
  "call_ok n tk s \<longleftrightarrow>
     main s \<notin> {MReady, MFreed} \<and> valid_task n tk
   \<and> (join_requested (params tk) \<longrightarrow> todo s = [])
   \<and> (join_requested (params tk) \<or> concurrency (params tk) \<noteq> 0)
   \<and> round_state n (round_size n (first s) tk) (first s) (join_requested (params tk)) (main s) (thrd s)"

definition control_ok :: "int \<Rightarrow> 'v squad \<Rightarrow> bool" where
  "control_ok n s \<longleftrightarrow>
     tree_exact n \<and> 1 \<le> n \<and> numThreads s = n \<and> squad_strides n = Some (numSubthreads s)
   \<and> valid_calls n (todo s)
   \<and> (case task s of None \<Rightarrow> idle_ok n s | Some tk \<Rightarrow> call_ok n tk s)"

section \<open>Steps of the workers\<close>

lemma upd_simps [simp]:
  "numThreads (upd i f s) = numThreads s" "numSubthreads (upd i f s) = numSubthreads s"
  "task (upd i f s) = task s" "data (upd i f s) = data s" "main (upd i f s) = main s"
  "todo (upd i f s) = todo s" "first (upd i f s) = first s" "executed (upd i f s) = executed s"
  "finished (upd i f s) = finished s" "thrd (upd i f s) = (thrd s)(i := f (thrd s i))"
  by (simp_all add: upd_def)

lemma goto_simps [simp]:
  "numThreads (goto i l s) = numThreads s" "numSubthreads (goto i l s) = numSubthreads s"
  "task (goto i l s) = task s" "data (goto i l s) = data s" "main (goto i l s) = main s"
  "todo (goto i l s) = todo s" "first (goto i l s) = first s" "executed (goto i l s) = executed s"
  "finished (goto i l s) = finished s" "thrd (goto i l s) = (thrd s)(i := (thrd s i)\<lparr>pc := l\<rparr>)"
  by (simp_all add: goto_def)

lemma toggle_0 [simp]: "toggle_value 0 = 1"
  by (simp add: toggle_value_def)

lemma next_pass_pos: "0 \<le> p \<Longrightarrow> 0 < next_pass p"
  by (simp add: next_pass_def)

lemma control_okD:
  assumes "control_ok n s"
  shows "tree_exact n" "1 \<le> n" "numThreads s = n" "squad_strides n = Some (numSubthreads s)"
    "valid_calls n (todo s)" "task s = None \<Longrightarrow> idle_ok n s" "task s = Some tk \<Longrightarrow> call_ok n tk s"
  using assms by (auto simp: control_ok_def)

lemma traversals:
  assumes "control_ok n s" "0 \<le> i" "i < n"
  shows "to_subthreads (numSubthreads s) i c = Some (down_kids n i c)"
    "from_subthreads (numSubthreads s) i c = Some (up_kids n i c)"
  using subthreads_eq [OF control_okD(2) [OF assms(1)] control_okD(4) [OF assms(1)] assms(2,3)] by auto

text \<open>The number of threads of a traversal is the size of the round.\<close>

lemma num_threads_round:
  assumes "worker_ok n m fr jn i (thrd s i)" "task s = Some tk" "jn = join_requested (params tk)"
    "numThreads s = n" "fr = first s" "m = round_size n fr tk"
    "pc (thrd s i) = Started \<or> pc (thrd s i) = Run \<or> pc (thrd s i) = TaskWait \<and> signalTaskAvailable (thrd s i) \<noteq> 0"
  shows "num_threads_for_task s i = m"
  using assms by (auto simp: num_threads_for_task_def round_size_def worker_simps split: stage.splits if_splits)

lemma idle_worker_step:
  assumes ctl: "control_ok n s" and i: "0 \<le> i" "i < n" and none: "task s = None"
    and step: "worker_step i s = Next s'"
  shows "control_ok n s'"
proof -
  note d = control_okD [OF ctl]
  have idle: "idle_ok n s" by (rule d(6) [OF none])
  have pcs: "resting (thrd s i) \<and> signalTaskAvailable (thrd s i) = 0 \<and> 0 \<le> pass (thrd s i) \<and> main s = MReady
      \<and> all_resting n (thrd s)"
    using idle step i by (auto simp: idle_ok_def all_fresh_def all_resting_def all_exited_def worker_step_def
      initial_thread_def)
  then have eq: "s' = goto i TaskWait (upd i (\<lambda>r. r\<lparr>pass := next_pass (pass r)\<rparr>) s)"
    using step by (auto simp: resting_def worker_step_def task_wait_step_def next_pass_step_def Let_def)
  have "all_resting n (thrd s')"
    using pcs next_pass_pos [of "pass (thrd s i)"] by (auto simp: eq all_resting_def resting_def)
  then show ?thesis using d(1-5) none pcs by (simp add: control_ok_def idle_ok_def eq)
qed

lemma control_okI:
  assumes "control_ok n s" "call_ok n tk s" "task s = Some tk"
    and "numThreads s' = numThreads s" "numSubthreads s' = numSubthreads s" "todo s' = todo s" "task s' = task s"
      "main s' = main s" "first s' = first s"
    and "round_state n (round_size n (first s) tk) (first s) (join_requested (params tk)) (main s) (thrd s')"
  shows "control_ok n s'"
  using assms by (simp add: control_ok_def call_ok_def)

lemma step_Next_simps:
  "access s k x = Next s' \<longleftrightarrow> 0 \<le> k \<and> k < numThreads s \<and> x = Next s'"
  "traverse i ts l s = Next s' \<longleftrightarrow> (\<exists>ks. ts = Some ks \<and> s' = goto i (l ks) s)"
  by (auto simp: access_def traverse_def split: option.splits)

lemmas step_defs = reset_processed_def set_available_def fork_thread_def join_thread_def task_wait_step_def
  task_run_step_def wait_for_thread_step_def next_pass_step_def

lemma worker_step_frame:
  assumes "worker_step i s = Next s'"
  shows "numThreads s' = numThreads s \<and> numSubthreads s' = numSubthreads s \<and> todo s' = todo s \<and> task s' = task s
    \<and> main s' = main s \<and> first s' = first s \<and> finished s' = finished s"
  using assms
  by (auto simp: worker_step_def step_defs step_Next_simps Let_def
      split: worker_pc.splits list.splits phase.splits option.splits sum.splits if_splits)

lemma call_worker_step:
  assumes ctl: "control_ok n s" and i: "0 \<le> i" "i < n" and tk: "task s = Some tk"
    and step: "worker_step i s = Next s'"
  shows "control_ok n s'"
proof -
  note d = control_okD [OF ctl]
  have call: "call_ok n tk s" by (rule d(7) [OF tk])
  let ?m = "round_size n (first s) tk" and ?jn = "join_requested (params tk)"
  let ?G = "round_state n ?m (first s) ?jn (main s)"
  have rs: "?G (thrd s)" using call by (simp add: call_ok_def)
  have w: "worker_ok n ?m (first s) ?jn i (thrd s i)" by (rule round_stateD(7) [OF rs i])
  note num = num_threads_round [OF w tk refl d(3) refl refl]
  have twist: "(thrd s)(k := a, i := b) = (thrd s)(i := b, k := a)" if "k \<noteq> i" for k a b
    using that by (rule fun_upd_twist)
  have "?G (thrd s')"
  proof (cases "pc (thrd s i)")
    case Unforked
    then show ?thesis using step by (simp add: worker_step_def)
  next
    case Started
    then have "first s" "?m = n" using w by (auto simp: worker_simps round_size_def split: stage.splits if_splits)
    then show ?thesis using step Started num d(3) started_step [OF rs i Started]
      by (auto simp: worker_step_def step_Next_simps traversals [OF ctl i])
  next
    case TaskWait
    then show ?thesis using step num tk task_wait_notify_step [OF rs i] task_wait_run_step [OF rs i]
      by (auto simp: worker_step_def task_wait_step_def step_Next_simps traversals [OF ctl i] Let_def split: if_splits)
  next
    case Run
    then show ?thesis using step num tk run_step [OF rs i]
      by (auto simp: worker_step_def task_run_step_def step_Next_simps traversals [OF ctl i] Let_def
          split: if_splits sum.splits)
  next
    case SignalReset
    then show ?thesis using step signal_reset_step [OF rs i] by (auto simp: worker_step_def)
  next
    case SignalSet
    then show ?thesis using step signal_set_step [OF rs i] by (auto simp: worker_step_def split: if_splits)
  next
    case NextPass
    have p: "0 < next_pass (pass (thrd s i))" using w by (simp add: worker_ok_def next_pass_pos)
    show ?thesis using step NextPass p next_pass_wait_step [OF rs i] next_pass_join_step [OF rs i] d(3)
      by (auto simp: worker_step_def next_pass_step_def step_Next_simps traversals [OF ctl i] Let_def split: if_splits)
  next
    case Exited
    then show ?thesis using step by (simp add: worker_step_def)
  next
    case (NotifyFork ph ks)
    show ?thesis
    proof (cases ks)
      case Nil
      then show ?thesis using step NotifyFork forked_all_step [OF rs i] by (auto simp: worker_step_def split: phase.splits)
    next
      case (Cons k ks')
      then have k: "k \<noteq> i" using w NotifyFork tree.bounds [of k n i n] by (auto simp: worker_simps)
      then show ?thesis using step NotifyFork Cons notify_fork_reset_step [OF rs i] notify_fork_set_step [OF rs i]
        by (auto simp: worker_step_def reset_processed_def set_available_def step_Next_simps twist
            split: phase.splits if_splits)
    qed
  next
    case (Fork ks)
    then obtain k ks' where ks: "ks = k # ks'" using w by (cases ks) (auto simp: worker_simps)
    then have k: "k \<noteq> i" using w Fork tree.bounds [of k n i n] by (auto simp: worker_simps)
    then show ?thesis using step Fork ks fork_step [OF rs i]
      by (auto simp: worker_step_def fork_thread_def step_Next_simps twist split: if_splits)
  next
    case (Notify ph ks)
    show ?thesis
    proof (cases ks)
      case Nil
      then show ?thesis using step Notify notified_all_step [OF rs i] by (auto simp: worker_step_def split: phase.splits)
    next
      case (Cons k ks')
      then have k: "k \<noteq> i" using w Notify tree.bounds [of k n i ?m] by (auto simp: worker_simps)
      then show ?thesis using step Notify Cons notify_reset_step [OF rs i] notify_set_step [OF rs i]
        by (auto simp: worker_step_def reset_processed_def set_available_def step_Next_simps twist
            split: phase.splits if_splits)
    qed
  next
    case (Await ks)
    then show ?thesis using step tk awaited_all_step [OF rs i] await_step [OF rs i]
      by (auto simp: worker_step_def wait_for_thread_step_def step_Next_simps
          split: list.splits if_splits sum.splits)
  next
    case (Join ks)
    show ?thesis
    proof (cases ks)
      case Nil
      then show ?thesis using step Join exit_step [OF rs i] by (auto simp: worker_step_def)
    next
      case (Cons k ks')
      then have k: "k \<noteq> i" using w Join tree.bounds [of k n i n] by (auto simp: worker_simps tree.set_up)
      then show ?thesis using step Join Cons join_step [OF rs i]
        by (auto simp: worker_step_def join_thread_def step_Next_simps twist split: if_splits)
    qed
  qed
  then show ?thesis using worker_step_frame [OF step] by (intro control_okI [OF ctl call tk]) auto
qed


section \<open>Steps of the main thread\<close>

lemma down_kids_range: "0 \<le> i \<Longrightarrow> i < n \<Longrightarrow> k \<in> set (down_kids n i n) \<Longrightarrow> 0 \<le> k \<and> k < n"
  using tree.bounds [of k n i n] by auto

lemma begin_round:
  assumes "tree_exact n" "1 \<le> n" "m \<le> n" "fr \<or> jn \<longrightarrow> m = n"
    and fine: "\<And>i. 0 \<le> i \<Longrightarrow> i < n \<Longrightarrow> Q (T i)"
    and node: "\<And>i r. Q r \<Longrightarrow> worker_ok n m fr jn i (r\<lparr>stage := Before\<rparr>)"
    and edge: "\<And>k r rk. Q r \<Longrightarrow> Q rk \<Longrightarrow> edge_ok m (r\<lparr>stage := Before\<rparr>) k (rk\<lparr>stage := Before\<rparr>)"
    and root: "\<And>r. Q r \<Longrightarrow> root_ok jn MNotifyReset (r\<lparr>stage := Before\<rparr>)"
  shows "round_state n m fr jn MNotifyReset (\<lambda>i. (T i)\<lparr>stage := Before\<rparr>)"
proof -
  have "round_ok n m fr jn (\<lambda>i. (T i)\<lparr>stage := Before\<rparr>)"
    unfolding tree_inv_def
  proof (intro allI impI conjI ballI)
    fix i assume i: "0 \<le> i \<and> i < n"
    show "worker_ok n m fr jn i ((T i)\<lparr>stage := Before\<rparr>)" using node fine i by blast
    fix k assume "k \<in> set (down_kids n i n)"
    then have "0 \<le> k \<and> k < n" using down_kids_range i by blast
    then show "edge_ok m ((T i)\<lparr>stage := Before\<rparr>) k ((T k)\<lparr>stage := Before\<rparr>)" using edge fine i by blast
  qed
  then show ?thesis using assms(1-4) root [OF fine, of 0] by (simp add: round_state_def)
qed

lemma begin_fresh:
  assumes "tree_exact n" "1 \<le> n" "all_fresh n T"
  shows "round_state n n True jn MNotifyReset (\<lambda>i. (T i)\<lparr>stage := Before\<rparr>)"
  by (rule begin_round [where Q = "\<lambda>r. r = initial_thread"])
    (use assms in \<open>simp_all add: all_fresh_def initial_thread_def worker_simps edge_simps root_ok_def\<close>)

lemma begin_resting:
  assumes "tree_exact n" "1 \<le> n" "all_resting n T" "m \<le> n" "jn \<longrightarrow> m = n"
  shows "round_state n m False jn MNotifyReset (\<lambda>i. (T i)\<lparr>stage := Before\<rparr>)"
  by (rule begin_round [where Q = "\<lambda>r. resting r \<and> signalTaskAvailable r = 0
     \<and> signalTaskProcessed r \<in> {0, 1} \<and> 0 \<le> pass r \<and> have_handle r"])
    (use assms in \<open>auto simp: all_resting_def worker_simps edge_simps root_ok_def\<close>)

lemma root_step:
  assumes rs: "round_state n m fr jn mpc T" and n: "1 \<le> n"
    and node: "worker_ok n m fr jn 0 (T 0) \<Longrightarrow> worker_ok n m fr jn 0 r"
    and down: "\<And>k rk. edge_ok m (T 0) k rk \<Longrightarrow> edge_ok m r k rk"
    and root: "root_ok jn mpc' r"
  shows "round_state n m fr jn mpc' (T(0 := r))"
proof -
  note d = round_stateD [OF rs]
  have "round_ok n m fr jn (T(0 := r))"
    by (rule tree.tree_inv_update_root [OF d(5,1)]) (use d(7) [of 0] node n down in auto)
  then show ?thesis using d(1-4) root by (simp add: round_state_def)
qed

lemma main_only_step:
  assumes "round_state n m fr jn mpc T" "root_ok jn mpc' (T 0)"
  shows "round_state n m fr jn mpc' T"
  using assms by (simp add: round_state_def)

lemma end_join:
  assumes rs: "round_state n m fr True MRelease T"
  shows "all_exited n T"
  unfolding all_exited_def
proof (intro allI impI)
  note d = round_stateD [OF rs]
  fix t assume t: "0 \<le> t \<and> t < n"
  show "pc (T t) = Exited"
    by (rule tree.tree_inv_all [OF d(5,1) order.refl, of t "\<lambda>r. pc r = Exited"])
      (use t d(6) in \<open>auto simp: root_ok_def edge_ok_def joined_def\<close>)
qed

lemma end_rest:
  assumes rs: "round_state n m fr False MRelease T"
  shows "all_resting n T"
proof -
  note d = round_stateD [OF rs]
  have st: "stage (T t) \<noteq> Active \<and> (fr \<longrightarrow> stage (T t) = After)" if "0 \<le> t" "t < n" for t
    by (rule tree.tree_inv_all [OF d(5,1) order.refl that, of "\<lambda>r. stage r \<noteq> Active \<and> (fr \<longrightarrow> stage r = After)"])
      (use d(3,6) in \<open>auto simp: root_ok_def edge_ok_def stage_edge_def unnotified_def unawaited_def
        split: stage.splits if_splits\<close>)
  have rest: "resting (T t)" if "0 \<le> t" "t < n" for t
    using st [OF that] d(7) [OF that] by (auto simp: worker_ok_def pc_ok_def split: stage.splits if_splits)
  have handle: "have_handle (T t)" if t: "0 \<le> t" "t < n" for t
  proof (cases "t = 0")
    case True
    then show ?thesis using d(6) rest [OF t] by (auto simp: root_ok_def resting_def)
  next
    case False
    then obtain p where p: "0 \<le> p" "p < t" "t \<in> set (down_kids n p n)"
      using tree.parent_exists [OF d(1), of t n] t by auto
    then show ?thesis using d(8) [of p t] t rest [of p] rest [of t]
      by (auto simp: edge_ok_def resting_def joined_def)
  qed
  show ?thesis
    using st rest handle d(7) by (auto simp: all_resting_def worker_ok_def)
qed

lemma main_step_control:
  assumes ctl: "control_ok n s" and step: "main_step s = Next s'"
  shows "control_ok n s'"
proof (cases "task s")
  case None
  note d = control_okD [OF ctl]
  have idle: "main s = MReady" "all_fresh n (thrd s) \<or> all_resting n (thrd s)"
    using d(6) [OF None] step by (auto simp: idle_ok_def main_step_def)
  then obtain tk tks where td: "todo s = tk # tks" and b: "begin_call tk tks s = Next s'"
    using step by (auto simp: main_step_def split: list.splits)
  have v: "valid_task n tk" "join_requested (params tk) \<longrightarrow> tks = []" "valid_calls n tks" using d(5) td by auto
  show ?thesis
  proof (cases "have_work s tk")
    case False
    have fresh: "join_requested (params tk) \<Longrightarrow> all_fresh n (thrd s)"
      using idle(2) False d(2) by (auto simp: have_work_def all_resting_def)
    from False b have "s' = s\<lparr>todo := tks, finished := finished s @ [(tk, [], [])], main := after_call tk\<rparr>"
      by (simp add: begin_call_def access_def split: if_splits)
    then show ?thesis using d(1-5) None idle v fresh
      by (auto simp: control_ok_def idle_ok_def after_call_def)
  next
    case True
    from True b have eq: "s' = s\<lparr>todo := tks, task := Some tk, data := replicate (nat (concurrency (params tk))) None,
          executed := [], first := \<not> have_handle (thrd s 0), main := MNotifyReset,
          thrd := (\<lambda>i. (thrd s i)\<lparr>stage := Before\<rparr>)\<rparr>"
      by (simp add: begin_call_def access_def split: if_splits)
    have work: "join_requested (params tk) \<or> concurrency (params tk) \<noteq> 0"
      using True by (auto simp: have_work_def)
    have "round_state n (round_size n (first s') tk) (first s') (join_requested (params tk)) MNotifyReset (thrd s')"
      using idle(2)
    proof
      assume f: "all_fresh n (thrd s)"
      then have "first s'" using d(2) by (auto simp: eq all_fresh_def initial_thread_def)
      then show ?thesis using begin_fresh [OF d(1,2) f] by (simp add: eq round_size_def)
    next
      assume r: "all_resting n (thrd s)"
      then have "\<not> first s'" using d(2) by (auto simp: eq all_resting_def)
      then show ?thesis using begin_resting [OF d(1,2) r] v(1) by (simp add: eq round_size_def valid_task_def)
    qed
    then show ?thesis using d(1-5) v work by (simp add: control_ok_def call_ok_def eq)
  qed
next
  case (Some tk)
  note d = control_okD [OF ctl]
  have call: "call_ok n tk s" by (rule d(7) [OF Some])
  let ?m = "round_size n (first s) tk" and ?jn = "join_requested (params tk)"
  let ?G = "round_state n ?m (first s) ?jn"
  have rs: "?G (main s) (thrd s)" using call by (simp add: call_ok_def)
  have root: "root_ok ?jn (main s) (thrd s 0)" and w: "worker_ok n ?m (first s) ?jn 0 (thrd s 0)"
    using round_stateD(6,7) [OF rs] d(2) by auto
  note r = root_step [OF rs d(2)]
  show ?thesis
  proof (cases "main s = MRelease")
    case True
    then have "s' = s\<lparr>task := None, main := after_call tk, finished := finished s @ [(tk, executed s, data s)]\<rparr>"
      using step Some by (simp add: main_step_def)
    then show ?thesis
      using d(1-5) call rs True end_join [of n ?m "first s" "thrd s"] end_rest [of n ?m "first s" "thrd s"]
      by (auto simp: control_ok_def idle_ok_def after_call_def call_ok_def)
  next
    case False
    have "?G (main s') (thrd s') \<and> main s' \<notin> {MReady, MFreed} \<and> task s' = task s \<and> todo s' = todo s
      \<and> numThreads s' = numThreads s \<and> numSubthreads s' = numSubthreads s \<and> first s' = first s"
    proof (cases "main s")
      case MNotifyReset
      have "?G MNotifySet ((thrd s)(0 := (thrd s 0)\<lparr>signalTaskProcessed := 0\<rparr>))"
        by (rule r) (use w root MNotifyReset in \<open>auto simp: worker_ok_def pc_ok_def resting_def root_ok_def edge_simps\<close>)
      then show ?thesis using step MNotifyReset by (auto simp: main_step_def reset_processed_def step_Next_simps)
    next
      case MNotifySet
      let ?r = "(thrd s 0)\<lparr>signalTaskAvailable := 1, stage := Active\<rparr>"
      have "?G (if have_handle (thrd s 0) then MWait else MFork) ((thrd s)(0 := ?r))"
        by (rule r) (use w root MNotifySet in \<open>auto simp: worker_simps root_ok_def edge_simps split: if_splits\<close>)
      then show ?thesis using step MNotifySet
        by (auto simp: main_step_def set_available_def step_Next_simps split: if_splits)
    next
      case MFork
      have "?G MWait ((thrd s)(0 := (thrd s 0)\<lparr>have_handle := True, pc := Started\<rparr>))"
        by (rule r) (use w root MFork in \<open>auto simp: worker_simps root_ok_def edge_simps split: if_splits\<close>)
      then show ?thesis using step MFork
        by (auto simp: main_step_def fork_thread_def step_Next_simps split: if_splits)
    next
      case MWait
      have "stage (thrd s 0) = After" if "signalTaskProcessed (thrd s 0) \<noteq> 0"
        using that root w MWait by (cases "stage (thrd s 0)") (auto simp: root_ok_def worker_ok_def)
      then have "?G (if ?jn then MJoin else MRelease) (thrd s)" if "signalTaskProcessed (thrd s 0) \<noteq> 0"
        by (intro main_only_step [OF rs]) (use that root MWait in \<open>auto simp: root_ok_def\<close>)
      then show ?thesis using step MWait Some
        by (auto simp: main_step_def step_Next_simps split: if_splits)
    next
      case MJoin
      have "?G MRelease ((thrd s)(0 := (thrd s 0)\<lparr>have_handle := False\<rparr>))" if "pc (thrd s 0) = Exited"
        by (rule r) (use that w root MJoin in \<open>auto simp: worker_simps root_ok_def edge_simps split: stage.splits\<close>)
      then show ?thesis using step MJoin
        by (auto simp: main_step_def join_thread_def step_Next_simps split: if_splits)
    qed (use call False in \<open>auto simp: call_ok_def\<close>)
    then show ?thesis using d call Some by (simp add: control_ok_def call_ok_def)
  qed
qed

end
