(* ===== verification/Squad_Reduce.thy ===== *)
theory Squad_Reduce
  imports Squad_Tree
begin

text \<open>
  Reductions over the thread tree (the merges that \<^verbatim>\<open>wait_for_subthreads\<close> in
  \<^verbatim>\<open>src/src/thread_squad.cpp\<close> performs): every thread starts with its own value and merges the
  values of its subordinate threads in the order of \<^verbatim>\<open>from_subthreads\<close>, each of them reduced
  already. For an associative operation the value of thread 0 is the left fold over all threads in
  index order, so the operation need not be commutative.
\<close>

section \<open>Folding over the tree\<close>

text \<open>The value of thread \<^verbatim>\<open>i\<close> after it has merged its subordinate threads.\<close>

function tree_fold :: "('v \<Rightarrow> 'v \<Rightarrow> 'v) \<Rightarrow> (int \<Rightarrow> 'v) \<Rightarrow> int \<Rightarrow> int \<Rightarrow> int \<Rightarrow> 'v" where
  "tree_fold f x n c i = foldl f (x i) (map (tree_fold f x n c) (up_kids n i c))"
  by pat_completeness auto
termination
  by (relation "measure (\<lambda>(f, x, n, c, i). nat (c - i))")
    (auto simp: tree.set_up dest: down_kids_bounds)

declare tree_fold.simps [simp del]

text \<open>The reduction of the threads \<^verbatim>\<open>lo\<close> to \<^verbatim>\<open>hi - 1\<close>, from left to right.\<close>

definition range_fold :: "('v \<Rightarrow> 'v \<Rightarrow> 'v) \<Rightarrow> (int \<Rightarrow> 'v) \<Rightarrow> int \<Rightarrow> int \<Rightarrow> 'v" where
  "range_fold f x lo hi = foldl f (x lo) (map x [lo + 1..hi - 1])"

lemma foldl_split:
  assumes "\<And>a b c. f (f a b) c = f a (f b c)"
  shows "foldl f (f a b) ys = f a (foldl f b ys)"
  by (induction ys arbitrary: b) (simp_all add: assms)

lemma range_fold_append:
  assumes assoc: "\<And>a b c. f (f a b) c = f a (f b c)" and "lo < m" "m < hi"
  shows "f (range_fold f x lo m) (range_fold f x m hi) = range_fold f x lo hi"
proof -
  have "[lo + 1..hi - 1] = [lo + 1..m - 1] @ [m..hi - 1]"
    using upto_split1 [of "lo + 1" m "hi - 1"] assms(2,3) by simp
  moreover have "[m..hi - 1] = m # [m + 1..hi - 1]" using assms(3) by (simp add: upto_rec1)
  ultimately show ?thesis by (simp add: range_fold_def foldl_split [of f, OF assoc, symmetric])
qed

lemma blocks_fold:
  assumes assoc: "\<And>a b c. f (f a b) c = f a (f b c)"
  shows "0 < sub \<Longrightarrow> lo < i \<Longrightarrow> lo < hi \<Longrightarrow>
    foldl f (range_fold f x lo (min i hi)) (map (\<lambda>j. range_fold f x j (min (j + sub) hi)) (indices i hi sub))
      = range_fold f x lo hi"
proof (induction i hi sub rule: indices.induct)
  case (1 i hi sub)
  show ?case
  proof (cases "i < hi \<and> 0 < sub")
    case True
    then have ix: "indices i hi sub = i # indices (i + sub) hi sub" by (simp add: indices_step)
    have "f (range_fold f x lo i) (range_fold f x i (min (i + sub) hi)) = range_fold f x lo (min (i + sub) hi)"
      by (rule range_fold_append [OF assoc]) (use True 1 in auto)
    then show ?thesis using 1 True by (simp add: ix)
  next
    case False
    with "1.prems" show ?thesis by simp
  qed
qed

lemma block_fold:
  assumes assoc: "\<And>a b c. f (f a b) c = f a (f b c)"
    and "1 \<le> stride" "exact_chain (next_substride stride)"
    and "next_substride stride dvd stride \<or> c \<le> first + stride" "first < c"
    and "\<And>i. first < i \<Longrightarrow> i < min (first + stride) c \<Longrightarrow> stride_of 0 n i = stride_of first stride i"
  shows "foldl f (x first) (map (tree_fold f x n c) (up first (min (first + stride) c) stride))
    = range_fold f x first (min (first + stride) c)"
  using assms(2-)
proof (induction "nat stride" arbitrary: first stride rule: less_induct)
  case less
  let ?hi = "min (first + stride) c"
  let ?sub = "next_substride stride"
  let ?t = "tree_fold f x n c"
  show ?case
  proof (cases "stride = 1")
    case True
    then have "?hi = first + 1" using less.prems by simp
    then show ?thesis using True by (simp add: range_fold_def up.simps)
  next
    case False
    then have s2: "2 \<le> stride" using less.prems by simp
    have sub: "1 \<le> ?sub" "?sub < stride" using s2 next_substride_pos next_substride_less by auto
    have chain: "exact_chain (next_substride ?sub)" "next_substride ?sub dvd ?sub"
      using less.prems(2) sub(1) by (cases "?sub = 1"; subst (asm) exact_chain.simps; simp split: if_splits)+
    let ?js = "indices (first + ?sub) ?hi ?sub"
    have ix: "indices first ?hi ?sub = first # ?js"
      using less.prems sub by (simp add: indices_step)
    have strides: "stride_of 0 n i = stride_of j ?sub i"
      if "j \<in> set (indices first ?hi ?sub)" "j \<le> i" "i < min (j + ?sub) ?hi" "i \<noteq> first" for i j
      using stride_of_block [OF s2 that(1,2) _ that(4)] indices_bounds [OF that(1)] that less.prems(5) [of i]
      by simp
    have block: "foldl f (x j) (map ?t (up j (min (j + ?sub) ?hi) ?sub)) = range_fold f x j (min (j + ?sub) ?hi)"
      if j: "j \<in> set (indices first ?hi ?sub)" for j
      unfolding block_clip [OF j less.prems(3)]
    proof (rule less.hyps)
      show "stride_of 0 n i = stride_of j ?sub i" if "j < i" "i < min (j + ?sub) c" for i
        by (rule strides [OF j]) (use that indices_bounds [OF j] block_clip [OF j less.prems(3)] in auto)
    qed (use sub chain indices_bounds [OF j] in auto)
    have kid: "?t j = range_fold f x j (min (j + ?sub) ?hi)" if j: "j \<in> set ?js" for j
    proof -
      have j': "j \<in> set (indices first ?hi ?sub)" using j by (simp add: ix)
      have "stride_of 0 n j = ?sub"
        using strides [OF j', of j] indices_bounds [OF j] sub by simp
      then show ?thesis
        using block [OF j'] block_clip [OF j' less.prems(3)]
        by (simp add: tree_fold.simps [of f x n c j] up_kids_def)
    qed
    have "foldl f (x first) (map ?t (up first (min (first + ?sub) ?hi) ?sub @ ?js))
      = foldl f (range_fold f x first (min (first + ?sub) ?hi)) (map ?t ?js)"
      using block [of first] by (simp add: ix)
    also have "map ?t ?js = map (\<lambda>j. range_fold f x j (min (j + ?sub) ?hi)) ?js"
      using kid by (intro map_cong) auto
    also have "foldl f (range_fold f x first (min (first + ?sub) ?hi)) \<dots> = range_fold f x first ?hi"
      by (rule blocks_fold [OF assoc]) (use sub less.prems in auto)
    finally show ?thesis using s2 by (simp add: up.simps [of first _ stride] Let_def)
  qed
qed

lemma tree_fold_root:
  assumes "\<And>a b c. f (f a b) c = f a (f b c)" "tree_exact n" "1 \<le> c" "c \<le> n"
  shows "tree_fold f x n c 0 = range_fold f x 0 c"
proof -
  have c: "min (0 + n) c = c" using assms by simp
  have "foldl f (x 0) (map (tree_fold f x n c) (up 0 (min (0 + n) c) n)) = range_fold f x 0 (min (0 + n) c)"
    by (rule block_fold [OF assms(1)]) (use assms in \<open>auto simp: tree_exact_def\<close>)
  then show ?thesis using c by (simp add: tree_fold.simps [of f x n c 0] up_kids_def)
qed

end
