(* ===== verification/Squad_Results.thy ===== *)
theory Squad_Results
  imports Squad_Safety Squad_Reduce
begin

text \<open>
  What the tasks compute. While a task is being processed, \<^verbatim>\<open>task_data_ok\<close> relates the values
  of a transform-reduce task and the list of the threads that executed it to the program
  counters; when the main thread releases the task, it follows that every participating thread
  has executed it exactly once and that thread 0 holds the reduction over the tree
  (\<^verbatim>\<open>outcome_ok\<close>). \<^verbatim>\<open>reachable_squad_ok\<close> collects the invariants of all reachable states.
\<close>

section \<open>Values in the tree\<close>

text \<open>The threads that have executed the current task.\<close>

definition ran :: "thread_data \<Rightarrow> bool" where
  "ran r \<longleftrightarrow> (case stage r of Before \<Rightarrow> False | After \<Rightarrow> True
     | Active \<Rightarrow> (case pc r of Await _ \<Rightarrow> True | SignalReset \<Rightarrow> True | SignalSet \<Rightarrow> True | _ \<Rightarrow> False))"

text \<open>The value that thread \<^verbatim>\<open>i\<close> has accumulated.\<close>

definition accumulated ::
  "('v \<Rightarrow> 'v \<Rightarrow> 'v) \<Rightarrow> (int \<Rightarrow> 'v) \<Rightarrow> int \<Rightarrow> int \<Rightarrow> int \<Rightarrow> int \<Rightarrow> thread_data \<Rightarrow> 'v option" where
  "accumulated f x n m c i r =
     (if \<not> ran r then None
      else case (stage r, pc r) of
          (Active, Await ks) \<Rightarrow>
            (let up = up_kids n i m
             in Some (foldl f (x i) (map (tree_fold f x n c) (filter (\<lambda>t. t < c) (take (length up - length ks) up)))))
        | _ \<Rightarrow> Some (tree_fold f x n c i))"

text \<open>
  The value of a thread is in its slot until the superordinate thread has merged it.
\<close>

definition slots_ok ::
  "('v \<Rightarrow> 'v \<Rightarrow> 'v) \<Rightarrow> (int \<Rightarrow> 'v) \<Rightarrow> int \<Rightarrow> int \<Rightarrow> int \<Rightarrow> 'v reduce_data \<Rightarrow> (int \<Rightarrow> thread_data) \<Rightarrow> bool" where
  "slots_ok f x n m c d T \<longleftrightarrow>
     length d = nat c
   \<and> (0 < c \<longrightarrow> d ! 0 = accumulated f x n m c 0 (T 0))
   \<and> (\<forall>p k. 0 \<le> p \<and> p < n \<and> k \<in> set (down_kids n p n) \<and> k < c \<longrightarrow>
        d ! nat k = (if k \<in> unawaited (T p) then accumulated f x n m c k (T k) else None))"

definition executed_ok :: "int \<Rightarrow> int \<Rightarrow> int list \<Rightarrow> (int \<Rightarrow> thread_data) \<Rightarrow> bool" where
  "executed_ok n c ex T \<longleftrightarrow> set ex \<subseteq> {0..<n}
     \<and> (\<forall>i. 0 \<le> i \<and> i < n \<longrightarrow> count_list ex i = (if i < c \<and> ran (T i) then 1 else 0))"

lemma slots_okD:
  assumes "slots_ok f x n m c d T"
  shows "length d = nat c" "0 < c \<Longrightarrow> d ! 0 = accumulated f x n m c 0 (T 0)"
    "0 \<le> p \<Longrightarrow> p < n \<Longrightarrow> k \<in> set (down_kids n p n) \<Longrightarrow> k < c \<Longrightarrow>
      d ! nat k = (if k \<in> unawaited (T p) then accumulated f x n m c k (T k) else None)"
  using assms unfolding slots_ok_def by blast+

lemma slots_ok_cong:
  assumes sl: "slots_ok f x n m c d T" and c: "c \<le> n"
    and un: "\<And>i j. 0 \<le> i \<Longrightarrow> i < j \<Longrightarrow> j < c \<Longrightarrow> j \<in> unawaited (T' i) \<longleftrightarrow> j \<in> unawaited (T i)"
    and acc: "\<And>i. 0 \<le> i \<Longrightarrow> i < c \<Longrightarrow> accumulated f x n m c i (T' i) = accumulated f x n m c i (T i)"
  shows "slots_ok f x n m c d T'"
  unfolding slots_ok_def
proof (intro conjI allI impI)
  show "length d = nat c" by (rule slots_okD(1) [OF sl])
  show "0 < c \<Longrightarrow> d ! 0 = accumulated f x n m c 0 (T' 0)" using slots_okD(2) [OF sl] acc [of 0] c by simp
  fix p k assume a: "0 \<le> p \<and> p < n \<and> k \<in> set (down_kids n p n) \<and> k < c"
  then have "0 \<le> k" "p < k" using tree.bounds [of k n p n] by auto
  then show "d ! nat k = (if k \<in> unawaited (T' p) then accumulated f x n m c k (T' k) else None)"
    using a slots_okD(3) [OF sl, of p k] un [of p k] acc [of k] by simp
qed

lemma executed_ok_cong:
  assumes "executed_ok n c ex T" "\<And>i. 0 \<le> i \<Longrightarrow> i < n \<Longrightarrow> ran (T' i) = ran (T i)"
  shows "executed_ok n c ex T'"
  using assms by (simp add: executed_ok_def)

lemma slot_active:
  assumes rs: "round_state n m fr jn mpc T" and sl: "slots_ok f x n m c d T" 
    and i: "0 \<le> i" "i < c" "c \<le> m" and st: "stage (T i) = Active"
  shows "d ! nat i = accumulated f x n m c i (T i)"
proof (cases "i = 0")
  case True
  then show ?thesis using sl i by (simp add: slots_ok_def)
next
  case False
  note d = round_stateD [OF rs]
  obtain p where p: "0 \<le> p" "p < i" "i \<in> set (down_kids n p n)"
    using tree.parent_exists [OF d(1), of i n] False i d(2) by auto
  then have "i \<in> unawaited (T p)"
    using d(8) [of p i] st i d(2) by (auto simp: edge_ok_def stage_edge_def)
  then show ?thesis using slots_okD(3) [OF sl p(1) _ p(3)] p i d(2) by simp
qed

lemma slots_run:
  assumes rs: "round_state n m fr jn mpc T" and sl: "slots_ok f x n m c d T"
    and i: "0 \<le> i" "i < c" "c \<le> m" and pc: "pc (T i) = Run" "stage (T i) = Active"
  shows "slots_ok f x n m c (d[nat i := Some (x i)]) (T(i := (T i)\<lparr>pc := Await (up_kids n i m)\<rparr>))"
proof -
  note d = round_stateD [OF rs]
  let ?r = "(T i)\<lparr>pc := Await (up_kids n i m)\<rparr>"
  have un: "k \<in> unawaited ?r \<longleftrightarrow> k \<in> unawaited (T i)" if "k \<in> set (down_kids n i n)" "k < c" for k
    using that pc kids_m [OF rs] i by (auto simp: unawaited_def)
  have acc: "accumulated f x n m c i ?r = Some (x i)"
    using pc by (simp add: accumulated_def ran_def)
  have self: "i \<in> unawaited (T p)" if "0 \<le> p" "p < n" "i \<in> set (down_kids n p n)" for p
    using d(8) [OF that] pc i by (auto simp: edge_ok_def stage_edge_def)
  show ?thesis
    unfolding slots_ok_def
  proof (intro conjI allI impI)
    show "length (d[nat i := Some (x i)]) = nat c" using sl by (simp add: slots_ok_def)
    show "d[nat i := Some (x i)] ! 0 = accumulated f x n m c 0 ((T(i := ?r)) 0)" if "0 < c"
      using sl acc that i by (cases "i = 0") (auto simp: slots_ok_def nth_list_update)
    fix p k assume a: "0 \<le> p \<and> p < n \<and> k \<in> set (down_kids n p n) \<and> k < c"
    then have k: "p < k" "0 \<le> k" using tree.bounds [of k n p n] by auto
    show "d[nat i := Some (x i)] ! nat k = (if k \<in> unawaited ((T(i := ?r)) p)
        then accumulated f x n m c k ((T(i := ?r)) k) else None)"
    proof (cases "k = i")
      case True
      then show ?thesis using self [of p] a k i sl acc by (auto simp: slots_ok_def)
    next
      case False
      then have "nat k \<noteq> nat i" using k i by simp
      then show ?thesis using sl a un [of k] False by (auto simp: slots_ok_def)
    qed
  qed
qed


lemma slots_await:
  assumes rs: "round_state n m fr jn mpc T" and sl: "slots_ok f x n m c d T"
    and i: "0 \<le> i" "i < n" "c \<le> m" and pc: "pc (T i) = Await (k # ks)" and dn: "signalTaskProcessed (T k) \<noteq> 0"
  shows "if k < c
    then (\<exists>a b. i < c \<and> 0 \<le> k \<and> d ! nat i = Some a \<and> d ! nat k = Some b
      \<and> slots_ok f x n m c (d[nat i := Some (f a b), nat k := None]) (T(i := (T i)\<lparr>pc := Await ks\<rparr>)))
    else slots_ok f x n m c d (T(i := (T i)\<lparr>pc := Await ks\<rparr>))"
proof -
  note d = round_stateD [OF rs]
  let ?r = "(T i)\<lparr>pc := Await ks\<rparr>" and ?F = "tree_fold f x n c"
  have st: "stage (T i) = Active" and "lists_ok n m i (Await (k # ks))"
    using d(7) [OF i(1,2)] pc by (auto simp: worker_simps split: stage.splits if_splits)
  then obtain us where us: "us @ k # ks = up_kids n i m" by (auto simp: lists_ok_def)
  then have k: "k \<in> set (up_kids n i m)" by (metis in_set_conv_decomp)
  have "distinct (us @ k # ks)" using tree.distinct_upw [OF d(1) i(1) d(2)] us by simp
  then have dist: "k \<notin> set ks" by simp
  have kid: "k \<in> set (down_kids n i n)" "k < m" using k kids_m [OF rs] by auto
  then have b: "i < k" using tree.bounds by blast
  have un: "unawaited (T i) = insert k (set ks)" "unawaited ?r = set ks"
    using pc st by (auto simp: unawaited_def)
  have after: "stage (T k) = After"
    using d(8) [OF i(1,2) kid(1)] d(7) [of k] kid b i(1) d(2) un pc st dn
    by (cases "stage (T k)") (auto simp: edge_ok_def stage_edge_def worker_ok_def unnotified_def)
  have acck: "accumulated f x n m c k (T k) = Some (?F k)"
    using after by (simp add: accumulated_def ran_def)
  have self: "i \<in> unawaited (T p)" if "0 \<le> p" "p < n" "i \<in> set (down_kids n p n)" "i < c" for p
    using d(8) [OF that(1-3)] st that i by (auto simp: edge_ok_def stage_edge_def)
  let ?fold = "\<lambda>us. foldl f (x i) (map ?F (filter (\<lambda>t. t < c) us))"
  have "up_kids n i m = (us @ [k]) @ ks" using us by simp
  then have acci: "accumulated f x n m c i (T i) = Some (?fold us)"
      "accumulated f x n m c i ?r = Some (?fold (us @ [k]))"
    using pc st by (simp_all add: accumulated_def ran_def us [symmetric])
  have other: "(d[nat i := u, nat k := v]) ! nat j = d ! nat j" if "0 \<le> j" "j \<noteq> i" "j \<noteq> k" for j u v
    using that i(1) b by simp
  show ?thesis
  proof (cases "k < c")
    case True
    have sloti: "d ! nat i = Some (?fold us)"
      using slot_active [OF rs sl i(1) _ i(3) st] b True acci(1) by simp
    have slotk: "d ! nat k = Some (?F k)"
      using slots_okD(3) [OF sl i(1,2) kid(1) True] un acck by simp
    let ?d = "d[nat i := Some (f (?fold us) (?F k)), nat k := None]"
    have len: "nat i < length d" "nat k < length d" "nat i \<noteq> nat k"
      using slots_okD(1) [OF sl] b True i(1) by auto
    have "slots_ok f x n m c ?d (T(i := ?r))"
      unfolding slots_ok_def
    proof (intro conjI allI impI)
      show "length ?d = nat c" using slots_okD(1) [OF sl] by simp
      show "?d ! 0 = accumulated f x n m c 0 ((T(i := ?r)) 0)" if "0 < c"
      proof (cases "i = 0")
        case True
        then show ?thesis using acci(2) \<open>k < c\<close> len by (auto simp: nth_list_update)
      next
        case False
        then show ?thesis using slots_okD(2) [OF sl that] other [of 0] b i(1) by simp
      qed
      fix p j assume a: "0 \<le> p \<and> p < n \<and> j \<in> set (down_kids n p n) \<and> j < c"
      then have j: "p < j" "0 \<le> j" using tree.bounds [of j n p n] by auto
      have old: "d ! nat j = (if j \<in> unawaited (T p) then accumulated f x n m c j (T j) else None)"
        using slots_okD(3) [OF sl] a by blast
      have pi: "p = i" if "j = k"
        using tree.parent_unique [OF d(1) order.refl, of p i k] that a kid i by blast
      show "?d ! nat j = (if j \<in> unawaited ((T(i := ?r)) p) then accumulated f x n m c j ((T(i := ?r)) j) else None)"
      proof (cases "j = k")
        case True
        then show ?thesis using pi un dist len by simp
      next
        case jk: False
        show ?thesis
        proof (cases "j = i")
          case True
          then have "p \<noteq> i" using j by simp
          then show ?thesis using True acci(2) \<open>k < c\<close> len self [of p] a by simp
        next
          case False
          then show ?thesis using other [OF j(2) False jk] old un jk by simp
        qed
      qed
    qed
    then show ?thesis using True sloti slotk b kid i(1) by auto
  next
    case False
    have "accumulated f x n m c i ?r = accumulated f x n m c i (T i)" using acci False by simp
    then have "slots_ok f x n m c d (T(i := ?r))"
      by (intro slots_ok_cong [OF sl]) (use un False i(3) d(2) in auto)
    then show ?thesis using False by simp
  qed
qed


section \<open>The data of the current task\<close>

definition task_data_ok :: "int \<Rightarrow> 'v squad \<Rightarrow> bool" where
  "task_data_ok n s \<longleftrightarrow>
     (case task s of
        None \<Rightarrow> True
      | Some tk \<Rightarrow>
          let c = concurrency (params tk) in
            executed_ok n c (executed s) (thrd s)
          \<and> (case task_op tk of
               TransformReduceTask tr rd \<Rightarrow>
                 slots_ok rd (\<lambda>i. tr i c) n (round_size n (first s) tk) c (data s) (thrd s)
             | _ \<Rightarrow> True))"

text \<open>Most steps neither execute nor merge, and change nothing that these conditions depend on.\<close>

definition same_view :: "(int \<Rightarrow> thread_data \<Rightarrow> 'v option) \<Rightarrow> int \<Rightarrow> thread_data \<Rightarrow> thread_data \<Rightarrow> bool" where
  "same_view acc i r r' \<longleftrightarrow> ran r' = ran r \<and> unawaited r' = unawaited r \<and> acc i r' = acc i r"

lemmas view_defs = same_view_def ran_def unawaited_def accumulated_def

lemma same_view_refl [simp]: "same_view acc i r r"
  by (simp add: same_view_def)

lemma same_view_update:
  assumes "\<And>i. same_view acc i (T i) (T' i)" "same_view acc k (T' k) r"
  shows "same_view acc i (T i) ((T'(k := r)) i)"
  using assms(1) [of i] assms(2) by (auto simp: same_view_def)

lemma task_data_ok_cong:
  assumes "task_data_ok n s" "task s = Some tk" "call_ok n tk s"
    and "data s' = data s" "executed s' = executed s" "task s' = task s" "first s' = first s"
    and view: "\<And>f (x :: int \<Rightarrow> 'v) i. 0 \<le> i \<Longrightarrow> i < n \<Longrightarrow>
      same_view (accumulated f x n (round_size n (first s) tk) (concurrency (params tk))) i (thrd s i) (thrd s' i)"
  shows "task_data_ok n (s' :: 'v squad)"
proof -
  have c: "concurrency (params tk) \<le> n" using assms(3) by (simp add: call_ok_def valid_task_def)
  have "executed_ok n (concurrency (params tk)) (executed s) (thrd s')"
    by (rule executed_ok_cong [of _ _ _ "thrd s"])
      (use assms(1,2) view in \<open>auto simp: task_data_ok_def Let_def same_view_def\<close>)
  moreover have "slots_ok rd x n (round_size n (first s) tk) (concurrency (params tk)) (data s) (thrd s')"
    if "slots_ok rd x n (round_size n (first s) tk) (concurrency (params tk)) (data s) (thrd s)" for rd and x :: "int \<Rightarrow> 'v"
    by (rule slots_ok_cong [OF that c]) (use view c in \<open>auto simp: same_view_def\<close>)
  ultimately show ?thesis using assms by (auto simp: task_data_ok_def Let_def split: task_op.splits)
qed

lemma quiet_worker_step:
  fixes s :: "'v squad"
  assumes ctl: "control_ok n s" and i: "0 \<le> i" "i < n" and tk: "task s = Some tk"
    and step: "worker_step i s = Next s'" and quiet: "pc (thrd s i) \<noteq> Run" "\<And>k ks. pc (thrd s i) \<noteq> Await (k # ks)"
    and acc: "acc = accumulated f x n (round_size n (first s) tk) (concurrency (params tk))"
  shows "data s' = data s \<and> executed s' = executed s \<and> same_view acc j (thrd s j) (thrd s' j)"
proof -
  note d = control_okD [OF ctl]
  have call: "call_ok n tk s" by (rule d(7) [OF tk])
  let ?m = "round_size n (first s) tk" and ?jn = "join_requested (params tk)" and ?c = "concurrency (params tk)"
  have rs: "round_state n ?m (first s) ?jn (main s) (thrd s)" using call by (simp add: call_ok_def)
  have w: "worker_ok n ?m (first s) ?jn i (thrd s i)" by (rule round_stateD(7) [OF rs i])
  have cm: "?c \<le> ?m" using call by (auto simp: call_ok_def valid_task_def round_size_def)
  show ?thesis
  proof (cases "pc (thrd s i)")
    case Unforked
    then show ?thesis using step by (simp add: worker_step_def)
  next
    case Started
    then show ?thesis using step
      by (auto simp: worker_step_def step_Next_simps split: if_splits;
        simp add: acc view_defs split: stage.splits)
  next
    case TaskWait
    then show ?thesis using step tk
      by (auto simp: worker_step_def task_wait_step_def step_Next_simps Let_def split: if_splits;
        simp add: acc view_defs split: stage.splits)
  next
    case SignalReset
    then have "stage (thrd s i) = Active" using w by (auto simp: worker_simps split: stage.splits if_splits)
    then show ?thesis using step SignalReset by (auto simp: worker_step_def split: if_splits;
        simp add: acc view_defs split: stage.splits)
  next
    case SignalSet
    then have "stage (thrd s i) = Active" using w by (auto simp: worker_simps split: stage.splits if_splits)
    then show ?thesis using step SignalSet by (auto simp: worker_step_def split: if_splits;
        simp add: acc view_defs split: stage.splits)
  next
    case NextPass
    then show ?thesis using step
      by (auto simp: worker_step_def next_pass_step_def step_Next_simps Let_def split: if_splits;
        simp add: acc view_defs split: stage.splits)
  next
    case Exited
    then show ?thesis using step by (simp add: worker_step_def)
  next
    case (Await ks)
    then have [simp]: "ks = []" using quiet(2) by (cases ks) auto
    have "stage (thrd s i) = Active" using w Await by (auto simp: worker_simps split: stage.splits if_splits)
    moreover have "filter (\<lambda>t. t < ?c) (up_kids n i ?m) = up_kids n i ?c"
      using tree.up_restrict [OF cm] by simp
    ultimately show ?thesis using step Await
      by (auto simp: worker_step_def;
        simp add: acc view_defs Let_def tree_fold.simps [of f x n ?c i] split: stage.splits)
  next
    case (NotifyFork ph ks)
    then have "stage (thrd s i) = Active" using w by (auto simp: worker_simps split: stage.splits if_splits)
    then show ?thesis using step NotifyFork notify_fork_kid [OF rs i]
      by (auto simp: worker_step_def reset_processed_def set_available_def step_Next_simps
          split: list.splits phase.splits if_splits; simp add: acc view_defs split: stage.splits)
  next
    case (Fork ks)
    then have "stage (thrd s i) = Active" using w by (auto simp: worker_simps split: stage.splits if_splits)
    then show ?thesis using step Fork fork_kid [OF rs i]
      by (auto simp: worker_step_def fork_thread_def step_Next_simps split: list.splits if_splits;
          simp add: acc view_defs split: stage.splits)
  next
    case (Notify ph ks)
    then have "stage (thrd s i) = Active" using w by (auto simp: worker_simps split: stage.splits if_splits)
    then show ?thesis using step Notify notify_kid [OF rs i]
      by (auto simp: worker_step_def reset_processed_def set_available_def step_Next_simps
          split: list.splits phase.splits if_splits;
          auto simp: acc view_defs resting_def split: stage.splits)
  next
    case (Join ks)
    then have "stage (thrd s i) = After" using w by (auto simp: worker_simps split: stage.splits if_splits)
    then show ?thesis using step Join join_kid [OF rs i]
      by (auto simp: worker_step_def join_thread_def step_Next_simps split: list.splits if_splits;
          simp add: acc view_defs split: stage.splits)
  qed (use quiet in simp)
qed


lemma in_task:
  assumes "control_ok n s" "0 \<le> i" "i < n" "task s = Some tk" "finishing (pc (thrd s i))"
  shows "round_state n (round_size n (first s) tk) (first s) (join_requested (params tk)) (main s) (thrd s)"
    "concurrency (params tk) \<le> round_size n (first s) tk" "0 \<le> concurrency (params tk)"
    "stage (thrd s i) = Active" "lists_ok n (round_size n (first s) tk) i (pc (thrd s i))"
    "worker_ok n (round_size n (first s) tk) (first s) (join_requested (params tk)) i (thrd s i)"
proof -
  have call: "call_ok n tk s" by (rule control_okD(7) [OF assms(1,4)])
  then show rs: "round_state n (round_size n (first s) tk) (first s) (join_requested (params tk)) (main s) (thrd s)"
      and "concurrency (params tk) \<le> round_size n (first s) tk" "0 \<le> concurrency (params tk)"
    by (auto simp: call_ok_def valid_task_def round_size_def)
  show w: "worker_ok n (round_size n (first s) tk) (first s) (join_requested (params tk)) i (thrd s i)"
    by (rule round_stateD(7) [OF rs assms(2,3)])
  then show "stage (thrd s i) = Active" "lists_ok n (round_size n (first s) tk) i (pc (thrd s i))"
    using assms(5) by (auto simp: worker_simps split: stage.splits if_splits worker_pc.splits)
qed

lemma await_kid: "lists_ok n m i (Await (k # ks)) \<Longrightarrow> k \<in> set (up_kids n i m)"
  by (auto simp: lists_ok_def) (metis in_set_conv_decomp)

lemma executed_run:
  assumes "executed_ok n c ex T" "0 \<le> i" "i < n" "\<not> ran (T i)" "ran r"
  shows "executed_ok n c (if i < c then ex @ [i] else ex) (T(i := r))"
  using assms by (auto simp: executed_ok_def)

lemma run_result:
  assumes ctl: "control_ok n s" and i: "0 \<le> i" "i < n" and tk: "task s = Some tk"
    and ok: "task_data_ok n s" and pc: "pc (thrd s i) = Run"
  shows "\<exists>s'. worker_step i s = Next s' \<and> task_data_ok n s'"
proof -
  note d = control_okD [OF ctl]
  let ?m = "round_size n (first s) tk" and ?c = "concurrency (params tk)"
  let ?r = "(thrd s i)\<lparr>pc := Await (up_kids n i ?m)\<rparr>"
  have fin: "finishing (pc (thrd s i))" using pc by (simp add: finishing_def)
  note t = in_task [OF ctl i tk fin]
  have enter: "traverse i (from_subthreads (numSubthreads s) i (num_threads_for_task s i)) Await s0
      = Next (goto i (Await (up_kids n i ?m)) s0)" for s0 :: "'a squad"
    using num_threads_round [OF t(6) tk refl d(3) refl refl] pc
    by (simp add: traverse_def traversals [OF ctl i])
  have nr: "\<not> ran (thrd s i)" "ran ?r" using pc t(4) by (auto simp: ran_def)
  have ex: "executed_ok n ?c (if i < ?c then executed s @ [i] else executed s) ((thrd s)(i := ?r))"
    by (rule executed_run) (use ok tk i nr in \<open>auto simp: task_data_ok_def Let_def\<close>)
  define s0 where "s0 = (if i < ?c then s\<lparr>data := data s, executed := executed s @ [i]\<rparr> else s)"
  have plain: "task_data_ok n (goto i (Await (up_kids n i ?m)) s0)" if "\<And>tr rd. task_op tk \<noteq> TransformReduceTask tr rd"
    using ex that tk by (auto simp: s0_def task_data_ok_def Let_def split: task_op.splits)
  show ?thesis
  proof (cases "task_op tk")
    case NopTask
    then show ?thesis using plain tk pc
      by (auto simp: worker_step_def task_run_step_def Let_def enter execute_def s0_def split: if_splits)
  next
    case ActionTask
    then show ?thesis using plain tk pc
      by (auto simp: worker_step_def task_run_step_def Let_def enter execute_def s0_def split: if_splits)
  next
    case (TransformReduceTask tr rd)
    let ?x = "\<lambda>i. tr i ?c"
    have sl: "slots_ok rd ?x n ?m ?c (data s) (thrd s)"
      using ok tk TransformReduceTask by (simp add: task_data_ok_def Let_def)
    show ?thesis
    proof (cases "i < ?c")
      case True
      have "data s ! nat i = None"
        using slot_active [OF t(1) sl i(1) True t(2,4)] nr(1) by (simp add: accumulated_def)
      then have "execute (task_op tk) i ?c (data s) = Inr ((data s)[nat i := Some (?x i)])"
        using slots_okD(1) [OF sl] True i(1) TransformReduceTask by (simp add: execute_ok)
      moreover have "slots_ok rd ?x n ?m ?c ((data s)[nat i := Some (?x i)]) ((thrd s)(i := ?r))"
        by (rule slots_run [OF t(1) sl i(1) True t(2) pc t(4)])
      ultimately show ?thesis using tk pc ex True TransformReduceTask
        by (simp add: worker_step_def task_run_step_def enter task_data_ok_def Let_def)
    next
      case False
      have "slots_ok rd ?x n ?m ?c (data s) ((thrd s)(i := ?r))"
        by (rule slots_ok_cong [OF sl]) (use False t(2) round_stateD(2) [OF t(1)] in auto)
      then show ?thesis using tk pc ex False TransformReduceTask
        by (simp add: worker_step_def task_run_step_def enter task_data_ok_def Let_def)
    qed
  qed
qed


lemma await_result:
  assumes ctl: "control_ok n s" and i: "0 \<le> i" "i < n" and tk: "task s = Some tk"
    and ok: "task_data_ok n s" and pc: "pc (thrd s i) = Await (k # ks)"
  shows "(worker_step i s = Blocked \<and> signalTaskProcessed (thrd s k) = 0)
    \<or> (\<exists>s'. worker_step i s = Next s' \<and> task_data_ok n s')"
proof (cases "signalTaskProcessed (thrd s k) = 0")
  case True
  have fin: "finishing (pc (thrd s i))" using pc by (simp add: finishing_def)
  note t = in_task [OF ctl i tk fin]
  have "k \<in> set (up_kids n i (round_size n (first s) tk))"
    using t(5) pc by (simp add: await_kid)
  then have "0 \<le> k \<and> k < n"
    using kids_m [OF t(1)] down_kids_range [OF i] by blast
  then show ?thesis using pc True control_okD(3) [OF ctl]
    by (simp add: worker_step_def wait_for_thread_step_def access_def)
next
  case False
  let ?m = "round_size n (first s) tk" and ?c = "concurrency (params tk)"
  let ?r = "(thrd s i)\<lparr>pc := Await ks\<rparr>"
  have fin: "finishing (pc (thrd s i))" using pc by (simp add: finishing_def)
  note t = in_task [OF ctl i tk fin]
  have "k \<in> set (up_kids n i ?m)"
    using t(5) pc by (simp add: await_kid)
  then have k: "0 \<le> k \<and> k < numThreads s"
    using kids_m [OF t(1)] down_kids_range [OF i] control_okD(3) [OF ctl] by blast
  have nr: "ran (thrd s i)" "ran ?r" using pc t(4) by (auto simp: ran_def)
  have ex: "executed_ok n ?c (executed s) ((thrd s)(i := ?r))"
    by (rule executed_ok_cong [of _ _ _ "thrd s"]) (use ok tk nr in \<open>auto simp: task_data_ok_def Let_def\<close>)
  have plain: "task_data_ok n (goto i (Await ks) s)" if "\<And>tr rd. task_op tk \<noteq> TransformReduceTask tr rd"
    using ex that tk by (auto simp: task_data_ok_def Let_def split: task_op.splits)
  have step: "worker_step i s = (if k < ?c then (case merge (task_op tk) i k (data s) of
        Inl e \<Rightarrow> Fault e | Inr d \<Rightarrow> Next (goto i (Await ks) (s\<lparr>data := d\<rparr>))) else Next (goto i (Await ks) s))"
    using pc False k tk by (simp add: worker_step_def wait_for_thread_step_def access_def)
  show ?thesis
  proof (cases "task_op tk")
    case (TransformReduceTask tr rd)
    let ?x = "\<lambda>i. tr i ?c"
    have sl: "slots_ok rd ?x n ?m ?c (data s) (thrd s)"
      using ok tk TransformReduceTask by (simp add: task_data_ok_def Let_def)
    note await = slots_await [OF t(1) sl i t(2) pc False]
    show ?thesis
    proof (cases "k < ?c")
      case True
      then obtain a b where ab: "i < ?c" "0 \<le> k" "data s ! nat i = Some a" "data s ! nat k = Some b"
        "slots_ok rd ?x n ?m ?c ((data s)[nat i := Some (rd a b), nat k := None]) ((thrd s)(i := ?r))"
        using await by auto
      then have "merge (task_op tk) i k (data s) = Inr ((data s)[nat i := Some (rd a b), nat k := None])"
        using slots_okD(1) [OF sl] True i(1) TransformReduceTask by (simp add: merge_ok)
      then show ?thesis using step ab(5) ex True tk TransformReduceTask
        by (simp add: task_data_ok_def Let_def)
    next
      case False
      then show ?thesis using step await ex tk TransformReduceTask
        by (simp add: task_data_ok_def Let_def)
    qed
  qed (use step plain in \<open>auto simp: merge_def split: if_splits\<close>)
qed

lemma worker_step_data:
  assumes ctl: "control_ok n s" and i: "0 \<le> i" "i < n" and ok: "task_data_ok n s"
    and step: "worker_step i s = Next s'"
  shows "task_data_ok n s'"
proof (cases "task s")
  case None
  then show ?thesis using worker_step_frame [OF step] by (simp add: task_data_ok_def)
next
  case (Some tk)
  consider "pc (thrd s i) = Run" | k ks where "pc (thrd s i) = Await (k # ks)"
    | "pc (thrd s i) \<noteq> Run" "\<And>k ks. pc (thrd s i) \<noteq> Await (k # ks)" by blast
  then show ?thesis
  proof cases
    case 1
    then show ?thesis using run_result [OF ctl i Some ok] step by auto
  next
    case 2
    then show ?thesis using await_result [OF ctl i Some ok] step by auto
  next
    case 3
    note q = quiet_worker_step [OF ctl i Some step 3 refl]
    show ?thesis
      by (rule task_data_ok_cong [OF ok Some control_okD(7) [OF ctl Some]])
        (use q worker_step_frame [OF step] in auto)
  qed
qed

section \<open>Completed tasks\<close>

definition outcome_ok :: "int \<Rightarrow> 'v outcome \<Rightarrow> bool" where
  "outcome_ok n = (\<lambda>(tk, ex, d).
     let c = concurrency (params tk) in
       mset ex = mset_set {0..<c}
     \<and> (case task_op tk of
          TransformReduceTask tr rd \<Rightarrow> 0 < c \<longrightarrow> d \<noteq> [] \<and> d ! 0 = Some (tree_fold rd (\<lambda>i. tr i c) n c 0)
        | _ \<Rightarrow> True))"

definition calls_ok :: "'v squad_task list \<Rightarrow> 'v squad \<Rightarrow> bool" where
  "calls_ok calls s \<longleftrightarrow>
     calls = map (\<lambda>(tk, _). tk) (finished s) @ (case task s of None \<Rightarrow> [] | Some tk \<Rightarrow> [tk]) @ todo s"

definition squad_ok :: "int \<Rightarrow> 'v squad_task list \<Rightarrow> 'v squad \<Rightarrow> bool" where
  "squad_ok n calls s \<longleftrightarrow> control_ok n s \<and> task_data_ok n s \<and> calls_ok calls s
     \<and> (\<forall>out\<in>set (finished s). outcome_ok n out)"

lemma release_outcome:
  assumes ctl: "control_ok n s" and ok: "task_data_ok n s" and tk: "task s = Some tk" and "main s = MRelease"
  shows "outcome_ok n (tk, executed s, data s)"
proof -
  note d = control_okD [OF ctl]
  let ?m = "round_size n (first s) tk" and ?c = "concurrency (params tk)"
  have call: "call_ok n tk s" by (rule d(7) [OF tk])
  then have rs: "round_state n ?m (first s) (join_requested (params tk)) (main s) (thrd s)"
    and c: "0 \<le> ?c" "?c \<le> ?m" "?c \<le> n"
    by (auto simp: call_ok_def valid_task_def round_size_def)
  note r = round_stateD [OF rs]
  have root: "stage (thrd s 0) = After" using r(6) assms(4) by (simp add: root_ok_def)
  have "stage (thrd s t) = After" if t: "0 \<le> t" "t < ?c" for t
    by (rule tree.tree_inv_all [OF r(5,1) c(3) t, of "\<lambda>r. stage r = After"])
      (use root c(2) in \<open>auto simp: edge_ok_def stage_edge_def unawaited_def\<close>)
  then have ran: "ran (thrd s t)" if "0 \<le> t" "t < ?c" for t using that by (simp add: ran_def)
  have ex: "executed_ok n ?c (executed s) (thrd s)" using ok tk by (simp add: task_data_ok_def Let_def)
  have "mset (executed s) = mset_set {0..<?c}"
  proof (rule multiset_eqI)
    fix t
    have "count_list (executed s) t = 0" if "\<not> (0 \<le> t \<and> t < n)"
      using ex that by (auto simp: executed_ok_def count_list_0_iff)
    moreover have "count_list (executed s) t = (if t < ?c then 1 else 0)" if "0 \<le> t \<and> t < n"
      using ex that ran by (auto simp: executed_ok_def)
    ultimately show "count (mset (executed s)) t = count (mset_set {0..<?c}) t"
      using c by (cases "0 \<le> t \<and> t < n") (auto simp: count_mset count_mset_set')
  qed
  moreover have "data s \<noteq> [] \<and> data s ! 0 = Some (tree_fold rd (\<lambda>i. tr i ?c) n ?c 0)"
    if "task_op tk = TransformReduceTask tr rd" "0 < ?c" for tr rd
  proof -
    have sl: "slots_ok rd (\<lambda>i. tr i ?c) n ?m ?c (data s) (thrd s)"
      using ok tk that by (simp add: task_data_ok_def Let_def)
    have "accumulated rd (\<lambda>i. tr i ?c) n ?m ?c 0 (thrd s 0) = Some (tree_fold rd (\<lambda>i. tr i ?c) n ?c 0)"
      using root by (simp add: accumulated_def ran_def)
    then show ?thesis using slots_okD(1,2) [OF sl] that(2) by auto
  qed
  ultimately show ?thesis by (auto simp: outcome_ok_def Let_def split: task_op.splits)
qed


lemma begin_data:
  assumes "call_ok n tk s" "task s = Some tk" "data s = replicate (nat (concurrency (params tk))) None"
    "executed s = []" "\<And>i. stage (thrd s i) = Before"
  shows "task_data_ok n s"
proof -
  have view: "\<not> ran (thrd s i)" "unawaited (thrd s i) = UNIV" for i
    using assms(5) by (simp_all add: ran_def unawaited_def)
  then have acc: "accumulated f x n m c i (thrd s i) = None" for f x m c i
    by (simp add: accumulated_def)
  have "slots_ok f x n m c (replicate (nat c) None) (thrd s)" for f and x :: "int \<Rightarrow> 'a" and m c
    unfolding slots_ok_def
  proof (intro conjI allI impI)
    fix p k assume a: "0 \<le> p \<and> p < n \<and> k \<in> set (down_kids n p n) \<and> k < c"
    then have "nat k < nat c" using tree.bounds [of k n p n] by auto
    then show "replicate (nat c) None ! nat k
        = (if k \<in> unawaited (thrd s p) then accumulated f x n m c k (thrd s k) else None)"
      by (simp add: acc)
  qed (simp_all add: acc)
  moreover have "executed_ok n c [] (thrd s)" for c by (simp add: executed_ok_def view)
  ultimately show ?thesis using assms(1-4) by (simp add: task_data_ok_def Let_def split: task_op.splits)
qed

lemma main_step_data:
  assumes ctl: "control_ok n s" and ok: "task_data_ok n s" and step: "main_step s = Next s'"
  shows "task_data_ok n s'"
proof (cases "task s")
  case None
  note d = control_okD [OF ctl]
  have idle: "main s = MReady" using d(6) [OF None] step by (auto simp: idle_ok_def main_step_def)
  then obtain tk tks where b: "begin_call tk tks s = Next s'"
    using step by (auto simp: main_step_def split: list.splits)
  show ?thesis
  proof (cases "task s'")
    case (Some tk')
    have "call_ok n tk' s'" by (rule control_okD(7) [OF main_step_control [OF ctl step] Some])
    then show ?thesis using b Some None
      by (intro begin_data [of n tk']) (auto simp: begin_call_def step_Next_simps split: if_splits)
  qed (simp add: task_data_ok_def)
next
  case (Some tk)
  note d = control_okD [OF ctl]
  have call: "call_ok n tk s" by (rule d(7) [OF Some])
  then have rs: "round_state n (round_size n (first s) tk) (first s) (join_requested (params tk)) (main s) (thrd s)"
    by (simp add: call_ok_def)
  have root: "root_ok (join_requested (params tk)) (main s) (thrd s 0)"
    and w: "worker_ok n (round_size n (first s) tk) (first s) (join_requested (params tk)) 0 (thrd s 0)"
    using round_stateD(6,7) [OF rs] d(2) by auto
  show ?thesis
  proof (cases "main s = MRelease")
    case True
    then show ?thesis using step Some by (auto simp: main_step_def task_data_ok_def)
  next
    case False
    have "data s' = data s \<and> executed s' = executed s \<and> task s' = task s \<and> first s' = first s
      \<and> same_view (accumulated f x n m c) i (thrd s i) (thrd s' i)" for f and x :: "int \<Rightarrow> 'a" and m c i
    proof (cases "main s")
      case MNotifySet
      then have "stage (thrd s 0) = Before" "pc (thrd s 0) = Unforked \<or> resting (thrd s 0)"
        using root w by (auto simp: root_ok_def worker_ok_def pc_ok_def split: if_splits)
      then have "same_view (accumulated f x n m c) 0 (thrd s 0)
          ((thrd s 0)\<lparr>signalTaskAvailable := 1, stage := Active\<rparr>)"
        by (auto simp: view_defs resting_def)
      then show ?thesis using step MNotifySet
        by (auto simp: main_step_def set_available_def step_Next_simps split: if_splits)
    next
      case MNotifyReset
      have "same_view (accumulated f x n m c) 0 (thrd s 0) ((thrd s 0)\<lparr>signalTaskProcessed := 0\<rparr>)"
        by (simp add: view_defs split: stage.splits)
      then show ?thesis using step MNotifyReset
        by (auto simp: main_step_def reset_processed_def step_Next_simps)
    next
      case MFork
      then have "stage (thrd s 0) = Active" "pc (thrd s 0) = Unforked"
        using root by (auto simp: root_ok_def)
      then have "same_view (accumulated f x n m c) 0 (thrd s 0) ((thrd s 0)\<lparr>have_handle := True, pc := Started\<rparr>)"
        by (simp add: view_defs)
      then show ?thesis using step MFork
        by (auto simp: main_step_def fork_thread_def step_Next_simps split: if_splits)
    next
      case MWait
      then show ?thesis using step Some by (auto simp: main_step_def step_Next_simps split: if_splits)
    next
      case MJoin
      have "same_view (accumulated f x n m c) 0 (thrd s 0) ((thrd s 0)\<lparr>have_handle := False\<rparr>)"
        by (simp add: view_defs split: stage.splits)
      then show ?thesis using step MJoin
        by (auto simp: main_step_def join_thread_def step_Next_simps split: if_splits)
    qed (use call False in \<open>auto simp: call_ok_def\<close>)
    then show ?thesis by (intro task_data_ok_cong [OF ok Some call]) auto
  qed
qed

lemma main_step_log:
  assumes sq: "squad_ok n calls s" and step: "main_step s = Next s'"
  shows "calls_ok calls s' \<and> (\<forall>out\<in>set (finished s'). outcome_ok n out)"
proof -
  have ctl: "control_ok n s" and ok: "task_data_ok n s" and log: "calls_ok calls s"
    and out: "\<forall>out\<in>set (finished s). outcome_ok n out" using sq by (auto simp: squad_ok_def)
  note d = control_okD [OF ctl]
  show ?thesis
  proof (cases "task s")
    case None
    have "main s = MReady" using d(6) [OF None] step by (auto simp: idle_ok_def main_step_def)
    then obtain tk tks where td: "todo s = tk # tks" and b: "begin_call tk tks s = Next s'"
      using step by (auto simp: main_step_def split: list.splits)
    have "outcome_ok n (tk, [], [])" if "\<not> have_work s tk"
      using that by (auto simp: have_work_def outcome_ok_def Let_def split: task_op.splits)
    then show ?thesis using b td None log out
      by (auto simp: begin_call_def step_Next_simps calls_ok_def split: if_splits)
  next
    case (Some tk)
    show ?thesis
    proof (cases "main s = MRelease")
      case True
      then show ?thesis using step Some log out release_outcome [OF ctl ok Some True]
        by (auto simp: main_step_def calls_ok_def)
    next
      case False
      then have "finished s' = finished s \<and> task s' = task s \<and> todo s' = todo s"
        using step Some d(7) [OF Some]
        by (auto simp: main_step_def step_defs step_Next_simps call_ok_def split: main_pc.splits if_splits)
      then show ?thesis using log out by (simp add: calls_ok_def)
    qed
  qed
qed

lemma reachable_squad_ok:
  assumes "reachable n calls s" "tree_exact n" "1 \<le> n" "valid_calls n calls"
  shows "squad_ok n calls s"
  using assms(1)
proof induction
  case (start s)
  then show ?case using assms(2-4)
    by (auto simp: construct_squad_def squad_ok_def control_ok_def idle_ok_def all_fresh_def task_data_ok_def calls_ok_def)
next
  case (step s s')
  note sq = step.IH
  have ctl: "control_ok n s" and ok: "task_data_ok n s" and log: "calls_ok calls s"
    and out: "\<forall>out\<in>set (finished s). outcome_ok n out" using sq by (auto simp: squad_ok_def)
  from step.hyps(2) show ?case
  proof cases
    case main
    then show ?thesis using main_step_control [OF ctl] main_step_data [OF ctl ok] main_step_log [OF sq]
      by (simp add: squad_ok_def)
  next
    case (worker i)
    have i: "0 \<le> i" "i < n" using worker(1,2) control_okD(3) [OF ctl] by auto
    have "control_ok n s'"
      using idle_worker_step [OF ctl i _ worker(3)] call_worker_step [OF ctl i _ worker(3)] by (cases "task s") auto
    then show ?thesis
      using worker_step_data [OF ctl i ok worker(3)] worker_step_frame [OF worker(3)] log out
      by (simp add: squad_ok_def calls_ok_def)
  qed
qed

end
