(* ===== verification/Squad_Liveness.thy ===== *)
theory Squad_Liveness
  imports Squad_Results
begin

text \<open>
  In a state that satisfies the invariants, no step of any thread fails, some thread can make a
  step unless all calls have returned, and every step decreases \<^verbatim>\<open>squad_measure\<close>.
\<close>

section \<open>No step fails\<close>

lemma access_ok: "0 \<le> k \<Longrightarrow> k < numThreads s \<Longrightarrow> access s k x = x"
  by (simp add: access_def)

lemma idle_no_fault:
  assumes ctl: "control_ok n s" and i: "0 \<le> i" "i < n" and none: "task s = None"
  shows "worker_step i s \<noteq> Fault e"
proof -
  consider "thrd s i = initial_thread" | "resting (thrd s i)" "signalTaskAvailable (thrd s i) = 0" | "pc (thrd s i) = Exited"
    using control_okD(6) [OF ctl none] i by (auto simp: idle_ok_def all_fresh_def all_resting_def all_exited_def)
  then show ?thesis
  proof cases
    case 1
    then show ?thesis by (simp add: worker_step_def initial_thread_def)
  next
    case 2
    then show ?thesis by (auto simp: resting_def worker_step_def task_wait_step_def next_pass_step_def Let_def)
  next
    case 3
    then show ?thesis by (simp add: worker_step_def)
  qed
qed

lemma call_no_fault:
  assumes ctl: "control_ok n s" and ok: "task_data_ok n s" and i: "0 \<le> i" "i < n" and tk: "task s = Some tk"
  shows "worker_step i s \<noteq> Fault e"
proof -
  note d = control_okD [OF ctl]
  have call: "call_ok n tk s" by (rule d(7) [OF tk])
  let ?m = "round_size n (first s) tk" and ?jn = "join_requested (params tk)"
  have rs: "round_state n ?m (first s) ?jn (main s) (thrd s)" using call by (simp add: call_ok_def)
  have w: "worker_ok n ?m (first s) ?jn i (thrd s i)" by (rule round_stateD(7) [OF rs i])
  note num = num_threads_round [OF w tk refl d(3) refl refl]
  show ?thesis
  proof (cases "pc (thrd s i)")
    case Started
    then have "first s" using w by (auto simp: worker_simps split: stage.splits if_splits)
    then have "?m = n" by (simp add: round_size_def)
    then show ?thesis using num d(3) Started by (simp add: worker_step_def traverse_def traversals [OF ctl i])
  next
    case TaskWait
    then show ?thesis using tk
      by (simp add: worker_step_def task_wait_step_def traverse_def traversals [OF ctl i] Let_def)
  next
    case Run
    then show ?thesis using run_result [OF ctl i tk ok] by auto
  next
    case SignalSet
    then have "signalTaskProcessed (thrd s i) = 0" using w by (auto simp: worker_simps split: stage.splits if_splits)
    then show ?thesis using SignalSet by (simp add: worker_step_def)
  next
    case NextPass
    have "0 < next_pass (pass (thrd s i))" using w by (simp add: worker_ok_def next_pass_pos)
    moreover have "?jn" if "joinRequested (thrd s i)"
      using w NextPass that by (auto simp: worker_simps split: stage.splits if_splits)
    ultimately show ?thesis using NextPass tk d(3)
      by (simp add: worker_step_def next_pass_step_def num_threads_for_task_def traverse_def traversals [OF ctl i] Let_def)
  next
    case (NotifyFork ph ks)
    then show ?thesis using notify_fork_kid [OF rs i] d(3)
      by (auto simp: worker_step_def reset_processed_def set_available_def access_ok
          split: list.splits phase.splits)
  next
    case (Fork ks)
    then show ?thesis using fork_kid [OF rs i] d(3)
      by (auto simp: worker_step_def fork_thread_def access_ok split: list.splits)
  next
    case (Notify ph ks)
    then show ?thesis using notify_kid [OF rs i] d(3)
      by (auto simp: worker_step_def reset_processed_def set_available_def access_ok
          split: list.splits phase.splits)
  next
    case (Await ks)
    then show ?thesis using await_result [OF ctl i tk ok] by (cases ks) (force simp: worker_step_def)+
  next
    case (Join ks)
    then show ?thesis using join_kid [OF rs i] d(3)
      by (auto simp: worker_step_def join_thread_def access_ok split: list.splits)
  qed (simp_all add: worker_step_def)
qed

lemma main_no_fault:
  assumes ctl: "control_ok n s"
  shows "main_step s \<noteq> Fault e"
proof (cases "task s")
  case None
  then show ?thesis using control_okD(2,3,6) [OF ctl]
    by (auto simp: idle_ok_def main_step_def begin_call_def access_ok split: list.splits if_splits)
next
  case (Some tk)
  note d = control_okD [OF ctl]
  have call: "call_ok n tk s" by (rule d(7) [OF Some])
  then have rs: "round_state n (round_size n (first s) tk) (first s) (join_requested (params tk)) (main s) (thrd s)"
    by (simp add: call_ok_def)
  have "root_ok (join_requested (params tk)) (main s) (thrd s 0)"
    and "worker_ok n (round_size n (first s) tk) (first s) (join_requested (params tk)) 0 (thrd s 0)"
    using round_stateD(6,7) [OF rs] d(2) by auto
  then show ?thesis using Some d(2,3) call
    by (auto simp: main_step_def step_defs access_ok root_ok_def worker_ok_def pc_ok_def resting_def call_ok_def
        split: main_pc.splits if_splits)
qed

section \<open>The squad is never stuck\<close>

definition finished_all :: "'v squad \<Rightarrow> bool" where
  "finished_all s \<longleftrightarrow> todo s = [] \<and> (main s = MReady \<or> main s = MFreed)"

lemma blockedD:
  assumes "worker_step i s = Blocked"
  shows "pc (thrd s i) = Unforked \<or> pc (thrd s i) = Exited
    \<or> pc (thrd s i) = TaskWait \<and> signalTaskAvailable (thrd s i) = 0
    \<or> (\<exists>k ks. pc (thrd s i) = Await (k # ks) \<and> signalTaskProcessed (thrd s k) = 0)
    \<or> (\<exists>k ks. pc (thrd s i) = Join (k # ks) \<and> pc (thrd s k) \<noteq> Exited)"
  using assms
  by (auto simp: worker_step_def step_defs access_def traverse_def Let_def
      split: worker_pc.splits list.splits phase.splits option.splits sum.splits if_splits)

lemma max_thread:
  assumes "P (0 :: int)" "0 < n"
  obtains i where "0 \<le> i" "i < n" "P i" "\<And>k. i < k \<Longrightarrow> k < n \<Longrightarrow> \<not> P k"
proof -
  let ?S = "{i. 0 \<le> i \<and> i < n \<and> P i}"
  have f: "finite ?S" by (rule finite_subset [of _ "{0..<n}"]) auto
  have ne: "?S \<noteq> {}" using assms by auto
  have "Max ?S \<in> ?S" by (rule Max_in [OF f ne])
  moreover have "\<not> P k" if "Max ?S < k" "k < n" for k
  proof
    assume "P k"
    then have "k \<in> ?S" using that calculation by auto
    then show False using Max_ge [OF f] that by fastforce
  qed
  ultimately show thesis using that by blast
qed

lemma progress:
  assumes sq: "squad_ok n calls s" and nf: "\<not> finished_all s"
  shows "\<exists>s'. squad_step s s'"
proof (rule ccontr)
  assume stuck: "\<nexists>s'. squad_step s s'"
  have ctl: "control_ok n s" and ok: "task_data_ok n s" using sq by (auto simp: squad_ok_def)
  note d = control_okD [OF ctl]
  have mb: "main_step s = Blocked"
    using stuck main_no_fault [OF ctl] squad_step.main by (cases "main_step s") blast+
  have wb: "worker_step i s = Blocked" if i: "0 \<le> i" "i < n" for i
  proof (cases "worker_step i s")
    case (Fault e)
    then show ?thesis using idle_no_fault [OF ctl i] call_no_fault [OF ctl ok i] by (cases "task s") blast+
  next
    case (Next s')
    then show ?thesis using stuck squad_step.worker i d(3) by blast
  qed
  show False
  proof (cases "task s")
    case None
    then show ?thesis using mb d(2,3,6) nf
      by (auto simp: idle_ok_def main_step_def finished_all_def begin_call_def access_ok split: list.splits if_splits)
  next
    case (Some tk)
    have call: "call_ok n tk s" by (rule d(7) [OF Some])
    let ?m = "round_size n (first s) tk" and ?jn = "join_requested (params tk)"
    have rs: "round_state n ?m (first s) ?jn (main s) (thrd s)" using call by (simp add: call_ok_def)
    note r = round_stateD [OF rs]
    have root: "root_ok ?jn (main s) (thrd s 0)" by (rule r(6))
    have w0: "worker_ok n ?m (first s) ?jn 0 (thrd s 0)" using r(7) [of 0] d(2) by simp
    have "main s = MWait \<and> stage (thrd s 0) = Active \<and> pc (thrd s 0) \<noteq> Unforked
        \<or> main s = MJoin \<and> stage (thrd s 0) = After \<and> ?jn \<and> pc (thrd s 0) \<noteq> Exited"
      using mb root w0 Some call d(2,3)
      by (cases "stage (thrd s 0)") (auto simp: main_step_def step_defs access_ok root_ok_def worker_ok_def call_ok_def
          split: main_pc.splits if_splits)
    then show False
    proof
      assume a: "main s = MWait \<and> stage (thrd s 0) = Active \<and> pc (thrd s 0) \<noteq> Unforked"
      obtain i where i: "0 \<le> i" "i < n" "stage (thrd s i) = Active \<and> pc (thrd s i) \<noteq> Unforked"
        and max: "\<And>k. i < k \<Longrightarrow> k < n \<Longrightarrow> \<not> (stage (thrd s k) = Active \<and> pc (thrd s k) \<noteq> Unforked)"
        using max_thread [of "\<lambda>i. stage (thrd s i) = Active \<and> pc (thrd s i) \<noteq> Unforked" n] a d(2) by auto
      have w: "worker_ok n ?m (first s) ?jn i (thrd s i)" by (rule r(7) [OF i(1,2)])
      have "\<not> fin_join" if "fin_join \<longleftrightarrow> (\<exists>ks. pc (thrd s i) = Join ks)" for fin_join
        using that w i(3) by (auto simp: worker_simps split: if_splits)
      then obtain k ks where aw: "pc (thrd s i) = Await (k # ks)" "signalTaskProcessed (thrd s k) = 0"
        using blockedD [OF wb [OF i(1,2)]] w i(3) by (auto simp: worker_ok_def pc_ok_def finishing_def
            starting_def notifying_def resting_def split: if_splits)
      have "lists_ok n ?m i (Await (k # ks))" using w aw by (simp add: worker_ok_def)
      then have k: "k \<in> set (down_kids n i n)" "k < ?m" using kids_m [OF rs] await_kid by blast+
      then have b: "i < k" "k < n" using tree.bounds by blast+
      have "pc (thrd s k) \<noteq> Unforked" "stage (thrd s k) \<noteq> Before"
        using r(8) [OF i(1,2) k(1)] aw i(3) k(2)
        by (auto simp: edge_ok_def stage_edge_def unforked_def unnotified_def)
      moreover have "stage (thrd s k) \<noteq> After"
        using r(7) [of k] b i(1) aw by (auto simp: worker_ok_def)
      ultimately show False using max [OF b] by (cases "stage (thrd s k)") auto
    next
      assume a: "main s = MJoin \<and> stage (thrd s 0) = After \<and> ?jn \<and> pc (thrd s 0) \<noteq> Exited"
      obtain i where i: "0 \<le> i" "i < n" "pc (thrd s i) \<noteq> Exited"
        and max: "\<And>k. i < k \<Longrightarrow> k < n \<Longrightarrow> pc (thrd s k) = Exited"
        using max_thread [of "\<lambda>i. pc (thrd s i) \<noteq> Exited" n] a d(2) by auto
      have "stage (thrd s i) = After"
        by (rule tree.tree_inv_all [OF r(5,1) order.refl i(1,2), of "\<lambda>r. stage r = After"])
          (use a r(4) in \<open>auto simp: edge_ok_def stage_edge_def unawaited_def\<close>)
      then obtain k ks where j: "pc (thrd s i) = Join (k # ks)" "pc (thrd s k) \<noteq> Exited"
        using blockedD [OF wb [OF i(1,2)]] r(7) [OF i(1,2)] i(3) a by (auto simp: worker_simps)
      then have "k \<in> set (down_kids n i n)"
        using r(7) [OF i(1,2)] by (auto simp: worker_ok_def lists_ok_def tree.set_up)
      then have "i < k \<and> k < n" using tree.bounds by blast
      then show False using max j(2) by blast
    qed
  qed
qed

section \<open>Every execution ends\<close>

text \<open>
  A bound on the number of steps that a thread of a squad of \<^verbatim>\<open>n\<close> threads can still make for the
  current task.
\<close>

definition steps_left :: "nat \<Rightarrow> thread_data \<Rightarrow> nat" where
  "steps_left n r =
     (if stage r = After then
        (case pc r of NextPass \<Rightarrow> n + 2 | Join ks \<Rightarrow> length ks + 1 | _ \<Rightarrow> 0)
      else
        (case pc r of
           Unforked \<Rightarrow> 7 * n + 14
         | Started \<Rightarrow> 7 * n + 13
         | NotifyFork ph ks \<Rightarrow> 4 * n + (if ph = PReset then 12 else 11) + 3 * length ks
         | Fork ks \<Rightarrow> 4 * n + 10 + 3 * length ks
         | NextPass \<Rightarrow> 4 * n + 12
         | TaskWait \<Rightarrow> 4 * n + 11
         | Notify ph ks \<Rightarrow> 2 * n + (if ph = PReset then 10 else 9) + 2 * length ks
         | Run \<Rightarrow> 2 * n + 9
         | Await ks \<Rightarrow> n + 8 + length ks
         | SignalReset \<Rightarrow> n + 7
         | SignalSet \<Rightarrow> n + 6
         | _ \<Rightarrow> 0))"

definition main_steps_left :: "main_pc \<Rightarrow> nat" where
  "main_steps_left m = (case m of MNotifyReset \<Rightarrow> 6 | MNotifySet \<Rightarrow> 5 | MFork \<Rightarrow> 4 | MWait \<Rightarrow> 3 | MJoin \<Rightarrow> 2
     | MRelease \<Rightarrow> 1 | _ \<Rightarrow> 0)"

definition call_cost :: "nat \<Rightarrow> nat" where
  "call_cost n = n * (7 * n + 14) + 7"

definition squad_measure :: "int \<Rightarrow> 'v squad \<Rightarrow> nat" where
  "squad_measure n s = length (todo s) * call_cost (nat n) + main_steps_left (main s)
     + (\<Sum>i\<in>{0..<n}. steps_left (nat n) (thrd s i))"

lemma kids_length:
  assumes "tree_exact n" "0 \<le> i" "c \<le> n"
  shows "length (down_kids n i c) \<le> nat n" "length (up_kids n i c) \<le> nat n"
proof -
  have "card (set (down_kids n i c)) \<le> card {0..<n}"
    by (rule card_mono) (use tree.bounds [of _ n i c] assms in fastforce)+
  then show "length (down_kids n i c) \<le> nat n"
    using tree.distinct_dn [OF assms] by (simp add: distinct_card)
  then show "length (up_kids n i c) \<le> nat n"
    using tree.up_perm [of n i c] by (metis size_mset)
qed

lemma sum_update_less:
  fixes f :: "'r \<Rightarrow> nat"
  assumes "0 \<le> i" "i < (n :: int)" "f r < f (T i)"
  shows "(\<Sum>j\<in>{0..<n}. f ((T(i := r)) j)) < (\<Sum>j\<in>{0..<n}. f (T j))"
  by (rule sum_strict_mono_ex1) (use assms in \<open>auto intro!: bexI [of _ i]\<close>)

lemma sum_update_two_less:
  fixes f :: "'r \<Rightarrow> nat"
  assumes "0 \<le> i" "i < (n :: int)" "f r < f (T i)" "f rk \<le> f (T k)" "k \<noteq> i"
  shows "(\<Sum>j\<in>{0..<n}. f ((T(k := rk, i := r)) j)) < (\<Sum>j\<in>{0..<n}. f (T j))"
  by (rule sum_strict_mono_ex1) (use assms in \<open>auto intro!: bexI [of _ i]\<close>)


lemma idle_step_less:
  assumes ctl: "control_ok n s" and i: "0 \<le> i" "i < n" and none: "task s = None"
    and step: "worker_step i s = Next s'"
  shows "(\<Sum>j\<in>{0..<n}. steps_left N (thrd s' j)) < (\<Sum>j\<in>{0..<n}. steps_left N (thrd s j))"
proof -
  consider "thrd s i = initial_thread" | "resting (thrd s i)" "signalTaskAvailable (thrd s i) = 0" | "pc (thrd s i) = Exited"
    using control_okD(6) [OF ctl none] i by (auto simp: idle_ok_def all_fresh_def all_resting_def all_exited_def)
  then show ?thesis
  proof cases
    case 1
    then show ?thesis using step by (simp add: worker_step_def initial_thread_def)
  next
    case 2
    then have "pc (thrd s i) = NextPass" "\<not> joinRequested (thrd s i)"
      using step by (auto simp: resting_def worker_step_def task_wait_step_def)
    then have "thrd s' = (thrd s)(i := (thrd s i)\<lparr>pass := next_pass (pass (thrd s i)), pc := TaskWait\<rparr>)"
      "steps_left N ((thrd s i)\<lparr>pass := next_pass (pass (thrd s i)), pc := TaskWait\<rparr>) < steps_left N (thrd s i)"
      using step by (auto simp: worker_step_def next_pass_step_def Let_def steps_left_def)
    then show ?thesis using sum_update_less [OF i] by metis
  next
    case 3
    then show ?thesis using step by (simp add: worker_step_def)
  qed
qed

lemma call_step_less:
  assumes ctl: "control_ok n s" and i: "0 \<le> i" "i < n" and tk: "task s = Some tk"
    and step: "worker_step i s = Next s'"
  shows "(\<Sum>j\<in>{0..<n}. steps_left (nat n) (thrd s' j)) < (\<Sum>j\<in>{0..<n}. steps_left (nat n) (thrd s j))"
proof -
  note d = control_okD [OF ctl]
  have call: "call_ok n tk s" by (rule d(7) [OF tk])
  let ?m = "round_size n (first s) tk" and ?jn = "join_requested (params tk)" and ?f = "steps_left (nat n)"
  have rs: "round_state n ?m (first s) ?jn (main s) (thrd s)" using call by (simp add: call_ok_def)
  have w: "worker_ok n ?m (first s) ?jn i (thrd s i)" by (rule round_stateD(7) [OF rs i])
  note num = num_threads_round [OF w tk refl d(3) refl refl]
  note len = kids_length [OF d(1) i(1) round_stateD(2) [OF rs]] kids_length [OF d(1) i(1) order.refl]
  have one: ?thesis if "thrd s' = (thrd s)(i := r)" "?f r < ?f (thrd s i)" for r
    using sum_update_less [OF i, of ?f r "thrd s"] that by simp
  have two: ?thesis if "thrd s' = (thrd s)(k := rk, i := r)" "k \<noteq> i" "?f r < ?f (thrd s i)" "?f rk \<le> ?f (thrd s k)" for r k rk
    using sum_update_two_less [OF i, of ?f r "thrd s" rk k] that by simp
  show ?thesis
  proof (cases "pc (thrd s i)")
    case Unforked
    then show ?thesis using step by (simp add: worker_step_def)
  next
    case Started
    then have "first s" "stage (thrd s i) = Active" using w by (auto simp: worker_simps split: stage.splits if_splits)
    then have "?m = n" by (simp add: round_size_def)
    then show ?thesis using step Started num d(3) len \<open>stage (thrd s i) = Active\<close>
      by (intro one [of "(thrd s i)\<lparr>pc := NotifyFork PReset (down_kids n i n)\<rparr>"])
        (auto simp: worker_step_def step_Next_simps traversals [OF ctl i] steps_left_def)
  next
    case TaskWait
    then have "stage (thrd s i) = Active" using w step
      by (auto simp: worker_ok_def worker_step_def task_wait_step_def split: if_splits)
    then show ?thesis using step num tk TaskWait len
      by (intro one [of "(thrd s i)\<lparr>joinRequested := ?jn,
          pc := (if pass (thrd s i) \<noteq> 0 then Notify PReset (down_kids n i ?m) else Run)\<rparr>"])
        (auto simp: worker_step_def task_wait_step_def step_Next_simps traversals [OF ctl i] Let_def steps_left_def
          split: if_splits)
  next
    case Run
    then have "stage (thrd s i) = Active" using w by (auto simp: worker_simps split: stage.splits if_splits)
    then show ?thesis using step num tk Run len
      by (intro one [of "(thrd s i)\<lparr>pc := Await (up_kids n i ?m)\<rparr>"])
        (auto simp: worker_step_def task_run_step_def step_Next_simps traversals [OF ctl i] Let_def steps_left_def
          split: if_splits sum.splits)
  next
    case SignalReset
    then have "stage (thrd s i) = Active" using w by (auto simp: worker_simps split: stage.splits if_splits)
    then show ?thesis using step SignalReset
      by (intro one [of "(thrd s i)\<lparr>signalTaskAvailable := 0, pc := SignalSet\<rparr>"])
        (auto simp: worker_step_def steps_left_def)
  next
    case SignalSet
    then have "stage (thrd s i) = Active" using w by (auto simp: worker_simps split: stage.splits if_splits)
    then show ?thesis using step SignalSet
      by (intro one [of "(thrd s i)\<lparr>signalTaskProcessed := 1, pc := NextPass, stage := After\<rparr>"])
        (auto simp: worker_step_def steps_left_def split: if_splits)
  next
    case NextPass
    have "stage (thrd s i) = After" if "joinRequested (thrd s i)"
      using w NextPass that by (auto simp: worker_simps split: stage.splits if_splits)
    then show ?thesis using step NextPass len d(3)
      by (intro one [of "(thrd s i)\<lparr>pass := next_pass (pass (thrd s i)),
          pc := (if joinRequested (thrd s i) then Join (up_kids n i n) else TaskWait)\<rparr>"])
        (auto simp: worker_step_def next_pass_step_def step_Next_simps traversals [OF ctl i] Let_def steps_left_def
          split: if_splits)
  next
    case Exited
    then show ?thesis using step by (simp add: worker_step_def)
  next
    case (NotifyFork ph ks)
    then have a: "stage (thrd s i) = Active" using w by (auto simp: worker_simps split: stage.splits if_splits)
    show ?thesis
    proof (cases ks)
      case Nil
      then have "ph = PReset" using w NotifyFork by (cases ph) (auto simp: worker_simps)
      then show ?thesis using step NotifyFork a Nil
        by (intro one [of "(thrd s i)\<lparr>pc := TaskWait\<rparr>"]) (auto simp: worker_step_def steps_left_def split: phase.splits)
    next
      case (Cons k ks')
      then show ?thesis using step NotifyFork notify_fork_kid [OF rs i]
        by (intro two [of k "if ph = PReset then (thrd s k)\<lparr>signalTaskProcessed := 0\<rparr>
              else (thrd s k)\<lparr>signalTaskAvailable := 1, stage := Active\<rparr>"
            "(thrd s i)\<lparr>pc := if ph = PReset then NotifyFork PSet ks else Fork ks\<rparr>"])
          (auto simp: worker_step_def reset_processed_def set_available_def step_Next_simps steps_left_def
            split: phase.splits if_splits)
    qed
  next
    case (Fork ks)
    then have "ks \<noteq> []" using w by (auto simp: worker_simps)
    then obtain k ks' where "ks = k # ks'" by (cases ks) auto
    then show ?thesis using step Fork fork_kid [OF rs i]
      by (intro two [of k "(thrd s k)\<lparr>have_handle := True, pc := Started\<rparr>" "(thrd s i)\<lparr>pc := NotifyFork PReset ks'\<rparr>"])
        (auto simp: worker_step_def fork_thread_def step_Next_simps steps_left_def split: if_splits)
  next
    case (Notify ph ks)
    then have a: "stage (thrd s i) = Active" using w by (auto simp: worker_simps split: stage.splits if_splits)
    show ?thesis
    proof (cases ks)
      case Nil
      then have "ph = PReset" using w Notify by (cases ph) (auto simp: worker_simps)
      then show ?thesis using step Notify a Nil
        by (intro one [of "(thrd s i)\<lparr>pc := Run\<rparr>"]) (auto simp: worker_step_def steps_left_def split: phase.splits)
    next
      case (Cons k ks')
      then have "steps_left (nat n) ((thrd s k)\<lparr>signalTaskAvailable := 1, stage := Active\<rparr>) = steps_left (nat n) (thrd s k)"
        using Notify notify_kid [OF rs i] by (auto simp: steps_left_def)
      then show ?thesis using step Notify Cons notify_kid [OF rs i]
        by (intro two [of k "if ph = PReset then (thrd s k)\<lparr>signalTaskProcessed := 0\<rparr>
              else (thrd s k)\<lparr>signalTaskAvailable := 1, stage := Active\<rparr>"
            "(thrd s i)\<lparr>pc := if ph = PReset then Notify PSet ks else Notify PReset ks'\<rparr>"])
          (auto simp: worker_step_def reset_processed_def set_available_def step_Next_simps steps_left_def [of _ "thrd s i"]
            steps_left_def [of _ "(thrd s i)\<lparr>pc := l\<rparr>" for l] steps_left_def [of _ "(thrd s k)\<lparr>signalTaskProcessed := 0\<rparr>"]
            steps_left_def [of _ "thrd s k"]
            split: phase.splits if_splits)
    qed
  next
    case (Await ks)
    then have "stage (thrd s i) = Active" using w by (auto simp: worker_simps split: stage.splits if_splits)
    then show ?thesis using step tk Await
      by (intro one [of "(thrd s i)\<lparr>pc := if ks = [] then SignalReset else Await (tl ks)\<rparr>"])
        (auto simp: worker_step_def wait_for_thread_step_def step_Next_simps steps_left_def
          split: list.splits if_splits sum.splits)
  next
    case (Join ks)
    then have a: "stage (thrd s i) = After" using w by (auto simp: worker_simps split: stage.splits if_splits)
    show ?thesis
    proof (cases ks)
      case Nil
      then show ?thesis using step Join a
        by (intro one [of "(thrd s i)\<lparr>pc := Exited\<rparr>"]) (auto simp: worker_step_def steps_left_def)
    next
      case (Cons k ks')
      then show ?thesis using step Join join_kid [OF rs i]
        by (intro two [of k "(thrd s k)\<lparr>have_handle := False\<rparr>" "(thrd s i)\<lparr>pc := Join ks'\<rparr>"])
          (auto simp: worker_step_def join_thread_def step_Next_simps steps_left_def split: if_splits)
    qed
  qed
qed

lemma steps_left_Before: "steps_left n (r\<lparr>stage := Before\<rparr>) \<le> 7 * n + 14" if "resting r \<or> pc r = Unforked"
  using that by (auto simp: steps_left_def resting_def)

lemma main_step_less:
  assumes ctl: "control_ok n s" and step: "main_step s = Next s'"
  shows "squad_measure n s' < squad_measure n s"
proof -
  note d = control_okD [OF ctl]
  let ?f = "steps_left (nat n)" and ?B = "7 * nat n + 14"
  have root: "(\<Sum>j\<in>{0..<n}. ?f (((thrd s)(0 := r)) j)) \<le> (\<Sum>j\<in>{0..<n}. ?f (thrd s j))" if "?f r \<le> ?f (thrd s 0)" for r
    by (rule sum_mono) (use that in auto)
  show ?thesis
  proof (cases "task s")
    case None
    have idle: "main s = MReady" "all_fresh n (thrd s) \<or> all_resting n (thrd s)"
      using d(6) [OF None] step by (auto simp: idle_ok_def main_step_def)
    then obtain tk tks where td: "todo s = tk # tks" and b: "begin_call tk tks s = Next s'"
      using step by (auto simp: main_step_def split: list.splits)
    have "?f ((thrd s i)\<lparr>stage := Before\<rparr>) \<le> ?B" if "i \<in> {0..<n}" for i
      by (rule steps_left_Before) (use idle(2) that in \<open>auto simp: all_fresh_def all_resting_def initial_thread_def\<close>)
    then have "(\<Sum>i\<in>{0..<n}. ?f ((thrd s i)\<lparr>stage := Before\<rparr>)) \<le> (\<Sum>i\<in>{0..<n}. ?B)"
      by (intro sum_mono) auto
    also have "\<dots> + 7 = call_cost (nat n)" by (simp add: call_cost_def)
    finally have sum: "(\<Sum>i\<in>{0..<n}. ?f ((thrd s i)\<lparr>stage := Before\<rparr>)) + 6 < call_cost (nat n)" by simp
    have ac: "main_steps_left (after_call tk) = 0" by (simp add: after_call_def main_steps_left_def)
    show ?thesis
    proof (cases "have_work s tk")
      case True
      then have "todo s' = tks" "main s' = MNotifyReset" "thrd s' = (\<lambda>i. (thrd s i)\<lparr>stage := Before\<rparr>)"
        using b by (auto simp: begin_call_def step_Next_simps)
      then show ?thesis using td sum idle(1) by (simp add: squad_measure_def main_steps_left_def)
    next
      case False
      then have "todo s' = tks" "main s' = after_call tk" "thrd s' = thrd s"
        using b by (auto simp: begin_call_def step_Next_simps)
      then show ?thesis using td idle(1) ac by (simp add: squad_measure_def call_cost_def)
    qed
  next
    case (Some tk)
    have call: "call_ok n tk s" by (rule d(7) [OF Some])
    then have rs: "round_state n (round_size n (first s) tk) (first s) (join_requested (params tk)) (main s) (thrd s)"
      by (simp add: call_ok_def)
    have ro: "root_ok (join_requested (params tk)) (main s) (thrd s 0)"
      and w: "worker_ok n (round_size n (first s) tk) (first s) (join_requested (params tk)) 0 (thrd s 0)"
      using round_stateD(6,7) [OF rs] d(2) by auto
    have "todo s' = todo s \<and> main_steps_left (main s') < main_steps_left (main s)
      \<and> (\<Sum>j\<in>{0..<n}. ?f (thrd s' j)) \<le> (\<Sum>j\<in>{0..<n}. ?f (thrd s j))"
    proof (cases "main s")
      case MNotifyReset
      then have "?f ((thrd s 0)\<lparr>signalTaskProcessed := 0\<rparr>) \<le> ?f (thrd s 0)" by (simp add: steps_left_def)
      from root [OF this] show ?thesis using step MNotifyReset
        by (auto simp: main_step_def reset_processed_def step_Next_simps main_steps_left_def split: if_splits)
    next
      case MNotifySet
      then have "stage (thrd s 0) = Before" using ro by (simp add: root_ok_def)
      then have "?f ((thrd s 0)\<lparr>signalTaskAvailable := 1, stage := Active\<rparr>) \<le> ?f (thrd s 0)" by (simp add: steps_left_def)
      from root [OF this] show ?thesis using step MNotifySet
        by (auto simp: main_step_def set_available_def step_Next_simps main_steps_left_def split: if_splits)
    next
      case MFork
      then have "stage (thrd s 0) = Active" "pc (thrd s 0) = Unforked" using ro by (auto simp: root_ok_def)
      then have "?f ((thrd s 0)\<lparr>have_handle := True, pc := Started\<rparr>) \<le> ?f (thrd s 0)" by (simp add: steps_left_def)
      from root [OF this] show ?thesis using step MFork
        by (auto simp: main_step_def fork_thread_def step_Next_simps main_steps_left_def split: if_splits)
    next
      case MWait
      then show ?thesis using step Some
        by (auto simp: main_step_def step_Next_simps main_steps_left_def split: if_splits)
    next
      case MJoin
      then have "?f ((thrd s 0)\<lparr>have_handle := False\<rparr>) \<le> ?f (thrd s 0)" by (simp add: steps_left_def)
      from root [OF this] show ?thesis using step MJoin
        by (auto simp: main_step_def join_thread_def step_Next_simps main_steps_left_def split: if_splits)
    next
      case MRelease
      then show ?thesis using step Some by (auto simp: main_step_def main_steps_left_def after_call_def)
    qed (use call in \<open>auto simp: call_ok_def\<close>)
    then show ?thesis by (simp add: squad_measure_def)
  qed
qed

lemma squad_step_less:
  assumes "squad_ok n calls s" "squad_step s s'"
  shows "squad_measure n s' < squad_measure n s"
  using assms(2)
proof cases
  case main
  then show ?thesis using assms(1) main_step_less by (auto simp: squad_ok_def)
next
  case (worker i)
  have ctl: "control_ok n s" using assms(1) by (simp add: squad_ok_def)
  have i: "0 \<le> i" "i < n" using worker control_okD(3) [OF ctl] by auto
  have "(\<Sum>j\<in>{0..<n}. steps_left (nat n) (thrd s' j)) < (\<Sum>j\<in>{0..<n}. steps_left (nat n) (thrd s j))"
    using idle_step_less [OF ctl i _ worker(3)] call_step_less [OF ctl i _ worker(3)] by (cases "task s") auto
  then show ?thesis using worker_step_frame [OF worker(3)] by (simp add: squad_measure_def)
qed

end
