(* ===== verification/Squad_Properties.thy ===== *)
theory Squad_Properties
  imports Squad_Liveness
begin

text \<open>
  The guarantees of the squad protocol for all interleavings of its threads, and an executable
  scheduler that produces concrete executions for them. The number of threads is any \<^verbatim>\<open>n\<close> with
  \<^verbatim>\<open>tree_exact n\<close>, in particular any \<^verbatim>\<open>n\<close> from 1 to 64, and the sequence of calls is any that
  \<^verbatim>\<open>thread_squad\<close> can make.
\<close>

section \<open>Schedules\<close>

text \<open>The thread that makes the next step is given; -1 is the main thread.\<close>

fun run_schedule :: "int list \<Rightarrow> 'v squad \<Rightarrow> 'v step" where
  "run_schedule [] s = Next s"
| "run_schedule (i # ids) s =
     (case (if i = - 1 then main_step s else worker_step i s) of
        Next s' \<Rightarrow> run_schedule ids s'
      | Blocked \<Rightarrow> Blocked
      | Fault e \<Rightarrow> Fault e)"

text \<open>The main thread goes first, then the worker with the smallest index that is not blocked.\<close>

fun first_enabled :: "int list \<Rightarrow> 'v squad \<Rightarrow> 'v squad option" where
  "first_enabled [] s = None"
| "first_enabled (i # ids) s = (case worker_step i s of Next s' \<Rightarrow> Some s' | _ \<Rightarrow> first_enabled ids s)"

fun run_greedy :: "nat \<Rightarrow> 'v squad \<Rightarrow> 'v squad" where
  "run_greedy 0 s = s"
| "run_greedy (Suc k) s =
     (case (case main_step s of Next s' \<Rightarrow> Some s' | _ \<Rightarrow> first_enabled [0..numThreads s - 1] s) of
        None \<Rightarrow> s
      | Some s' \<Rightarrow> run_greedy k s')"

lemma first_enabled_step:
  "first_enabled ids s = Some s' \<Longrightarrow> set ids \<subseteq> {0..<numThreads s} \<Longrightarrow> squad_step s s'"
  by (induction ids) (auto split: step.splits intro: squad_step.worker)

lemma run_greedy_steps: "\<exists>j. (squad_step ^^ j) s (run_greedy k s)"
proof (induction k arbitrary: s)
  case 0
  have "(squad_step ^^ 0) s (run_greedy 0 s)" by simp
  then show ?case by blast
next
  case (Suc k)
  have one: "squad_step s s'"
    if "(case main_step s of Next s' \<Rightarrow> Some s' | _ \<Rightarrow> first_enabled [0..numThreads s - 1] s) = Some s'" for s'
  proof -
    have "set [0..numThreads s - 1] \<subseteq> {0..<numThreads s}" by auto
    note enabled = first_enabled_step [OF _ this]
    show "squad_step s s'" using that by (auto split: step.splits intro: squad_step.main enabled)
  qed
  show ?case
  proof (cases "case main_step s of Next s' \<Rightarrow> Some s' | _ \<Rightarrow> first_enabled [0..numThreads s - 1] s")
    case None
    then have "(squad_step ^^ 0) s (run_greedy (Suc k) s)" by simp
    then show ?thesis by blast
  next
    case (Some s')
    obtain j where "(squad_step ^^ j) s' (run_greedy k s')" using Suc.IH by blast
    then have "(squad_step ^^ Suc j) s (run_greedy k s')" using one [OF Some] by (rule relpowp_Suc_I2 [rotated])
    moreover have "run_greedy (Suc k) s = run_greedy k s'" using Some by simp
    ultimately show ?thesis by metis
  qed
qed

lemma reachable_steps: "(squad_step ^^ k) s s' \<Longrightarrow> reachable n calls s \<Longrightarrow> reachable n calls s'"
  by (induction k arbitrary: s') (auto intro: reachable.step)

lemma run_greedy_reachable: "reachable n calls s \<Longrightarrow> reachable n calls (run_greedy k s)"
  using run_greedy_steps [of s k] reachable_steps by blast

lemma run_schedule_numThreads:
  "main_step s = Next s' \<Longrightarrow> numThreads s' = numThreads s"
  by (auto simp: main_step_def begin_call_def step_defs step_Next_simps
      split: main_pc.splits list.splits option.splits if_splits)

lemma run_schedule_reachable:
  "reachable n calls s \<Longrightarrow> set ids \<subseteq> {-1..<numThreads s} \<Longrightarrow> run_schedule ids s = Next s' \<Longrightarrow> reachable n calls s'"
proof (induction ids arbitrary: s)
  case (Cons i ids)
  obtain t where t: "(if i = - 1 then main_step s else worker_step i s) = Next t" "run_schedule ids t = Next s'"
    using Cons.prems(3) by (cases "if i = - 1 then main_step s else worker_step i s") auto
  have "squad_step s t \<and> numThreads t = numThreads s"
  proof (cases "i = - 1")
    case True
    then show ?thesis using t(1) run_schedule_numThreads squad_step.main by auto
  next
    case False
    then have "0 \<le> i" "i < numThreads s" "worker_step i s = Next t" using t(1) Cons.prems(2) by auto
    then show ?thesis using worker_step_frame squad_step.worker by blast
  qed
  then show ?case
    using Cons.IH [of t] t(2) Cons.prems(1,2) reachable.step by auto
qed simp

text \<open>A program that runs a reduction on two threads, one on three threads, and ends the squad.\<close>

definition demo_reduce :: "int \<Rightarrow> int squad_task" where
  "demo_reduce c = \<lparr>params = \<lparr>concurrency = c, join_requested = False\<rparr>,
     task_op = TransformReduceTask (\<lambda>i m. 10 * i + m) (+)\<rparr>"

definition demo_join :: "int squad_task" where
  "demo_join = \<lparr>params = \<lparr>concurrency = 0, join_requested = True\<rparr>, task_op = NopTask\<rparr>"

definition demo_calls :: "int squad_task list" where
  "demo_calls = [demo_reduce 2, demo_reduce 3, demo_join]"

definition demo_start :: "int squad" where
  "demo_start = the (construct_squad 3 demo_calls)"

definition demo :: "nat \<Rightarrow> int squad" where
  "demo k = run_greedy k demo_start"

lemma construct_Some: "1 \<le> n \<Longrightarrow> \<exists>s. construct_squad n calls = Some s"
  by (metis construct_squad_def option.simps(9) squad_strides_eq)

lemma demo_start: "construct_squad 3 demo_calls = Some demo_start"
  using construct_Some [of 3 demo_calls] by (auto simp: demo_start_def)

lemma demo_ok: "reachable 3 demo_calls (demo k)" "tree_exact 3" "valid_calls 3 demo_calls"
  using run_greedy_reachable [OF reachable.start [OF demo_start]]
  by (simp_all add: demo_def tree_exact_small demo_calls_def demo_reduce_def demo_join_def valid_task_def)

lemma demo_finished: "length (finished (demo 150)) = 3" "main (demo 150) = MFreed"
  by code_simp+

lemma demo_stuck: "\<nexists>s'. squad_step (demo 150) s'"
proof
  have blocked: "(case main_step (demo 150) of Blocked \<Rightarrow> True | _ \<Rightarrow> False)"
    "list_all (\<lambda>i. case worker_step i (demo 150) of Blocked \<Rightarrow> True | _ \<Rightarrow> False) [0, 1, 2]" "numThreads (demo 150) = 3"
    by code_simp+
  assume "\<exists>s'. squad_step (demo 150) s'"
  then obtain s' where "squad_step (demo 150) s'" ..
  then show False
  proof cases
    case main
    then show ?thesis using blocked(1) by simp
  next
    case (worker i)
    then have "i = 0 \<or> i = 1 \<or> i = 2" using blocked(3) by linarith
    then show ?thesis using blocked(2) worker(3) by auto
  qed
qed

lemma demo_second: "\<exists>ex d. finished (demo 150) ! 1 = (demo_reduce 3, ex, d) \<and> (demo_reduce 3, ex, d) \<in> set (finished (demo 150))"
proof -
  have "calls_ok demo_calls (demo 150)"
    using reachable_squad_ok [OF demo_ok(1,2) _ demo_ok(3)] by (simp add: squad_ok_def)
  then have "(case finished (demo 150) ! 1 of (tk, _) \<Rightarrow> tk) = demo_reduce 3"
    using demo_finished by (auto simp: calls_ok_def demo_calls_def length_Suc_conv numeral_eq_Suc)
  moreover have "finished (demo 150) ! 1 \<in> set (finished (demo 150))" by (rule nth_mem) (simp add: demo_finished)
  ultimately show ?thesis by (auto split: prod.splits)
qed

text \<open>The result of a completed transform-reduce task.\<close>

lemma finished_tree_reduction:
  assumes "reachable n calls s" "tree_exact n" "1 \<le> n" "valid_calls n calls"
    and "(tk, ex, d) \<in> set (finished s)" "task_op tk = TransformReduceTask transform reduce"
    and "c = concurrency (params tk)" "0 < c"
  shows "data_get d 0 = Inr (Some (tree_fold reduce (\<lambda>i. transform i c) n c 0))" "c \<le> n"
proof -
  have ctl: "calls_ok calls s" and out: "outcome_ok n (tk, ex, d)"
    using reachable_squad_ok [OF assms(1-4)] assms(5) by (auto simp: squad_ok_def)
  have v: "tk' \<in> set cs \<Longrightarrow> valid_calls n cs \<Longrightarrow> valid_task n tk'" for tk' and cs :: "'a squad_task list"
    by (induction cs) auto
  have "tk \<in> set calls" using ctl assms(5) by (force simp: calls_ok_def)
  then show "c \<le> n" using v [OF _ assms(4)] assms(7,8) by (auto simp: valid_task_def)
  have "d \<noteq> []" "d ! 0 = Some (tree_fold reduce (\<lambda>i. transform i c) n c 0)"
    using out assms(6-8) by (auto simp: outcome_ok_def Let_def)
  then show "data_get d 0 = Inr (Some (tree_fold reduce (\<lambda>i. transform i c) n c 0))"
    by (simp add: data_get_def)
qed

lemma finished_reduction:
  assumes "reachable n calls s" "tree_exact n" "1 \<le> n" "valid_calls n calls"
    and "(tk, ex, d) \<in> set (finished s)" "task_op tk = TransformReduceTask transform reduce"
    and "c = concurrency (params tk)" "0 < c"
    and "\<And>x y z. reduce (reduce x y) z = reduce x (reduce y z)"
  shows "data_get d 0 = Inr (Some (foldl reduce (transform 0 c) (map (\<lambda>i. transform i c) [1..c - 1])))"
proof -
  note fin = finished_tree_reduction [OF assms(1-8)]
  have "tree_fold reduce (\<lambda>i. transform i c) n c 0 = range_fold reduce (\<lambda>i. transform i c) 0 c"
    by (rule tree_fold_root [OF assms(9,2)]) (use assms(8) fin(2) in simp_all)
  then show ?thesis using fin(1) by (simp add: range_fold_def)
qed

section \<open>Properties\<close>

text \<open>
  C1: No thread of a squad whose thread tree is exact (among them all of 1 to 64 threads) ever
  fails, in any interleaving: no assertion of the protocol is violated (no signal is set twice, no
  thread is started twice or joined without having been started, the number of threads of a tree
  traversal is the expected one), no access is out of range, the task is never used after its
  release, no slot of a reduction is written twice, and no empty optional is read.
\<close>

theorem squad_never_faults:
  assumes "reachable n calls s" "tree_exact n" "1 \<le> n" "valid_calls n calls"
  shows "(\<forall>e. main_step s \<noteq> Fault e) \<and> (\<forall>i e. 0 \<le> i \<and> i < n \<longrightarrow> worker_step i s \<noteq> Fault e)"
proof -
  have "control_ok n s" "task_data_ok n s"
    using reachable_squad_ok [OF assms] by (auto simp: squad_ok_def)
  then show ?thesis
    using main_no_fault idle_no_fault call_no_fault by (cases "task s") blast+
qed

lemma squad_never_faults_witness:
  "(\<forall>e. main_step (demo 20) \<noteq> Fault e) \<and> (\<forall>e. worker_step 1 (demo 20) \<noteq> Fault e)"
  using squad_never_faults [OF demo_ok(1,2) _ demo_ok(3), of 20] by simp

text \<open>
  C3: A squad whose thread tree is exact processes the calls in order, and every completed call has
  been executed by exactly the threads 0 to \<^verbatim>\<open>concurrency - 1\<close>, once by each.
\<close>

theorem squad_executes_each_once:
  assumes "reachable n calls s" "tree_exact n" "1 \<le> n" "valid_calls n calls"
  shows "map (\<lambda>(tk, ex, d). tk) (finished s) = take (length (finished s)) calls
    \<and> (\<forall>(tk, ex, d) \<in> set (finished s). mset ex = mset_set {0..<concurrency (params tk)})"
proof -
  have "calls_ok calls s" "\<forall>out \<in> set (finished s). outcome_ok n out"
    using reachable_squad_ok [OF assms] by (auto simp: squad_ok_def)
  then show ?thesis by (auto simp: calls_ok_def outcome_ok_def Let_def)
qed

lemma squad_executes_each_once_witness:
  "map (\<lambda>(tk, ex, d). tk) (finished (demo 150)) = take (length (finished (demo 150))) demo_calls
    \<and> length (finished (demo 150)) = 3
    \<and> (\<exists>ex d. (demo_reduce 3, ex, d) \<in> set (finished (demo 150)) \<and> mset ex = mset_set {0..<3})"
proof -
  note ex = squad_executes_each_once [OF demo_ok(1,2) _ demo_ok(3), of 150]
  obtain ex d where "(demo_reduce 3, ex, d) \<in> set (finished (demo 150))" using demo_second by blast
  moreover from this have "mset ex = mset_set {0..<concurrency (params (demo_reduce 3))}" using ex by fastforce
  ultimately show ?thesis using ex by (auto simp: demo_finished demo_reduce_def)
qed

text \<open>
  C4: When a transform-reduce task of a squad whose thread tree is exact has completed and its
  reduction is associative, slot 0 holds the reduction of the values of the threads 0, 1, ...,
  \<^verbatim>\<open>concurrency - 1\<close> from left to right, whatever the interleaving was and whether or not the
  reduction is commutative.
\<close>

theorem squad_reduces_in_index_order:
  assumes "reachable n calls s" "tree_exact n" "1 \<le> n" "valid_calls n calls"
    and "(tk, ex, d) \<in> set (finished s)" "task_op tk = TransformReduceTask transform reduce"
    and "c = concurrency (params tk)" "0 < c"
    and "\<And>x y z. reduce (reduce x y) z = reduce x (reduce y z)"
  shows "data_get d 0 = Inr (Some (foldl reduce (transform 0 c) (map (\<lambda>i. transform i c) [1..c - 1])))"
  using finished_reduction [OF assms] .

lemma squad_reduces_in_index_order_witness:
  "\<exists>ex d. finished (demo 150) ! 1 = (demo_reduce 3, ex, d) \<and> data_get d 0 = Inr (Some (foldl (+) 3 [13, 23]))"
proof -
  obtain ex d where out: "finished (demo 150) ! 1 = (demo_reduce 3, ex, d)" "(demo_reduce 3, ex, d) \<in> set (finished (demo 150))"
    using demo_second by blast
  have "data_get d 0 = Inr (Some (foldl (+) (10 * 0 + 3) (map (\<lambda>i. 10 * i + 3) [1..3 - 1])))"
    by (rule squad_reduces_in_index_order [OF demo_ok(1,2) _ demo_ok(3) out(2)])
      (simp_all add: demo_reduce_def)
  moreover have "[1..3 - 1] = [1, 2 :: int]" by code_simp
  ultimately show ?thesis using out(1) by auto
qed

text \<open>
  The squad never gets stuck: as long as there is a call that has not returned, some
  thread can make a step.
\<close>

theorem squad_progress:
  assumes "reachable n calls s" "tree_exact n" "1 \<le> n" "valid_calls n calls"
  shows "finished_all s \<or> (\<exists>s'. squad_step s s')"
  using progress [OF reachable_squad_ok [OF assms]] by blast

lemma squad_progress_witness: "finished_all (demo 60) \<or> (\<exists>s'. squad_step (demo 60) s')"
  by (rule squad_progress [OF demo_ok(1,2) _ demo_ok(3)]) simp

text \<open>
  C5: Every execution of a squad whose thread tree is exact (among them all of 1 to 64 threads)
  ends, after at most the given number of steps, whatever the scheduler does; and when no thread can
  make another step, all calls have returned.
\<close>

theorem squad_terminates:
  assumes "construct_squad n calls = Some s0" "tree_exact n" "1 \<le> n" "valid_calls n calls"
    and "(squad_step ^^ k) s0 s"
  shows "k \<le> length calls * call_cost (nat n) + nat n * (7 * nat n + 14)
    \<and> ((\<nexists>s'. squad_step s s') \<longrightarrow> finished_all s \<and> length (finished s) = length calls)"
proof -
  have "reachable n calls s \<and> squad_measure n s + k \<le> squad_measure n s0"
    using assms(5)
  proof (induction k arbitrary: s)
    case 0
    then show ?case using reachable.start [OF assms(1)] by simp
  next
    case (Suc k)
    then obtain t where t: "(squad_step ^^ k) s0 t" "squad_step t s" by auto
    then have r: "reachable n calls t" and m: "squad_measure n t + k \<le> squad_measure n s0" using Suc.IH by auto
    have "squad_measure n s < squad_measure n t"
      by (rule squad_step_less [OF reachable_squad_ok [OF r assms(2-4)] t(2)])
    with m reachable.step [OF r t(2)] show ?case by simp
  qed
  moreover have "squad_measure n s0 = length calls * call_cost (nat n) + nat n * (7 * nat n + 14)"
    using assms(1) by (auto simp: construct_squad_def squad_measure_def main_steps_left_def steps_left_def initial_thread_def)
  moreover have "finished_all s \<and> length (finished s) = length calls" if "reachable n calls s" "\<nexists>s'. squad_step s s'"
  proof -
    note sq = reachable_squad_ok [OF that(1) assms(2-4)]
    then have fin: "finished_all s" using progress that(2) by blast
    have "control_ok n s" "calls_ok calls s" using sq by (auto simp: squad_ok_def)
    then show ?thesis using fin
      by (cases "task s") (auto simp: finished_all_def calls_ok_def control_ok_def call_ok_def)
  qed
  ultimately show ?thesis by auto
qed

lemma squad_terminates_witness:
  "\<exists>k. (squad_step ^^ k) demo_start (demo 150)
    \<and> k \<le> length demo_calls * call_cost 3 + 3 * (7 * 3 + 14)
    \<and> finished_all (demo 150) \<and> length (finished (demo 150)) = length demo_calls"
proof -
  obtain k where k: "(squad_step ^^ k) demo_start (demo 150)"
    using run_greedy_steps [of demo_start 150] by (auto simp: demo_def)
  show ?thesis using squad_terminates [OF demo_start demo_ok(2) _ demo_ok(3) k] k demo_stuck by auto
qed

text \<open>
  No thread outlives the squad or uses a task after it was released: whenever no task is
  stored, every worker has either not been started, or waits for the next task (or is about to),
  or has exited; and when the squad object is destroyed, no worker is running.
\<close>

theorem squad_quiescent_without_task:
  assumes "reachable n calls s" "tree_exact n" "1 \<le> n" "valid_calls n calls" "0 \<le> i" "i < n"
  shows "(task s = None \<longrightarrow> pc (thrd s i) \<in> {Unforked, TaskWait, NextPass, Exited})
    \<and> (main s = MFreed \<longrightarrow> task s = None \<and> pc (thrd s i) \<in> {Unforked, Exited})"
proof -
  have "control_ok n s" using reachable_squad_ok [OF assms(1-4)] by (simp add: squad_ok_def)
  then show ?thesis using assms(5,6)
    by (cases "task s") (auto simp: control_ok_def idle_ok_def call_ok_def all_fresh_def all_resting_def
        all_exited_def resting_def initial_thread_def)
qed

lemma squad_quiescent_without_task_witness:
  "main (demo 150) = MFreed \<and> task (demo 150) = None \<and> pc (thrd (demo 150) 2) \<in> {Unforked, Exited}"
  using squad_quiescent_without_task [OF demo_ok(1,2) _ demo_ok(3), of 2 150] by (simp add: demo_finished)

text \<open>
  C38: A squad of 65 threads does fail: thread 9 is among the threads that thread 0 addresses, has
  been started, and its signal is set; thread 8, which addresses thread 9 as well and is about to
  set the signal, violates the assertion of \<^verbatim>\<open>set_and_notify\<close>.
\<close>

theorem squad_65_faults:
  "\<exists>s ks ks'. reachable 65 [demo_reduce 65] s
    \<and> to_subthreads (numSubthreads s) 0 65 = Some ks \<and> 9 \<in> set ks
    \<and> have_handle (thrd s 9) \<and> signalTaskAvailable (thrd s 9) = toggle_value 0
    \<and> pc (thrd s 8) = NotifyFork PSet (9 # ks') \<and> worker_step 8 s = Fault ContractViolation"
proof -
  let ?s0 = "the (construct_squad 65 [demo_reduce 65])"
  let ?ids = "[- 1, - 1, - 1, - 1] @ replicate 37 0 @ [8, 8]"
  have r: "reachable 65 [demo_reduce 65] ?s0"
    using construct_Some [of 65 "[demo_reduce 65]"] by (auto intro: reachable.start)
  have n: "numThreads ?s0 = 65"
    using construct_Some [of 65 "[demo_reduce 65]"] by (auto simp: construct_squad_def)
  have "case run_schedule ?ids ?s0 of
        Next s \<Rightarrow> (case to_subthreads (numSubthreads s) 0 65 of None \<Rightarrow> False | Some ks \<Rightarrow> 9 \<in> set ks)
          \<and> have_handle (thrd s 9) \<and> signalTaskAvailable (thrd s 9) = toggle_value 0
          \<and> (case pc (thrd s 8) of NotifyFork PSet (k # ks) \<Rightarrow> k = 9 | _ \<Rightarrow> False)
          \<and> (case worker_step 8 s of Fault e \<Rightarrow> e = ContractViolation | _ \<Rightarrow> False)
      | _ \<Rightarrow> False"
    by code_simp
  then obtain s where s: "run_schedule ?ids ?s0 = Next s"
      "case to_subthreads (numSubthreads s) 0 65 of None \<Rightarrow> False | Some ks \<Rightarrow> 9 \<in> set ks"
      "have_handle (thrd s 9)" "signalTaskAvailable (thrd s 9) = toggle_value 0"
      "case pc (thrd s 8) of NotifyFork PSet (k # ks) \<Rightarrow> k = 9 | _ \<Rightarrow> False"
      "case worker_step 8 s of Fault e \<Rightarrow> e = ContractViolation | _ \<Rightarrow> False"
    by (cases "run_schedule ?ids ?s0") simp_all
  moreover have "reachable 65 [demo_reduce 65] s"
    by (rule run_schedule_reachable [OF r _ s(1)]) (simp add: n)
  ultimately show ?thesis
    by (auto split: option.splits worker_pc.splits phase.splits list.splits step.splits)
qed

end
