(* ===== verification/Squad_Races.thy ===== *)
theory Squad_Races
  imports Squad_Properties
begin

text \<open>
  What the threads of a squad share without atomics: the pointer to the task, the slots for the
  values of a reduction, and the \<^verbatim>\<open>os_thread\<close> objects. Two threads never access the same of them at
  the same time unless both only read, which is what makes the interleaving of single steps a
  faithful picture of the program.
\<close>

section \<open>Accesses\<close>

datatype shared =
    TaskPointer          \<comment> \<open>\<^verbatim>\<open>task_\<close>, and the parameters of the task\<close>
  | TaskSlot int         \<comment> \<open>\<^verbatim>\<open>subthreadData_[i].value\<close>\<close>
  | OsThread int         \<comment> \<open>\<^verbatim>\<open>threadData_[i].osThread_\<close>\<close>

datatype agent = MainThread | Worker int

text \<open>
  The accesses of a worker's next step. A worker that waits for a task reads the pointer once the
  signal is set. Merging moves from the slot of the subordinate thread. \<^verbatim>\<open>next_pass\<close> reads the task
  only on the way to \<^verbatim>\<open>join_subthreads()\<close>, and \<^verbatim>\<open>notify_and_fork_subthreads()\<close> does not read it, as
  \<^verbatim>\<open>pass_\<close> is 0.
\<close>

definition worker_reads :: "int \<Rightarrow> 'v squad \<Rightarrow> shared set" where
  "worker_reads i s =
     (case pc (thrd s i) of
        TaskWait \<Rightarrow> {TaskPointer}
      | Run \<Rightarrow> {TaskPointer}
      | Await (k # ks) \<Rightarrow> {TaskPointer, TaskSlot i, TaskSlot k}
      | NextPass \<Rightarrow> if joinRequested (thrd s i) then {TaskPointer} else {}
      | Fork (k # ks) \<Rightarrow> {OsThread k}
      | Join (k # ks) \<Rightarrow> {OsThread k}
      | _ \<Rightarrow> {})"

definition worker_writes :: "int \<Rightarrow> 'v squad \<Rightarrow> shared set" where
  "worker_writes i s =
     (case pc (thrd s i) of
        Run \<Rightarrow> {TaskSlot i}
      | Await (k # ks) \<Rightarrow> {TaskSlot i, TaskSlot k}
      | Fork (k # ks) \<Rightarrow> {OsThread k}
      | Join (k # ks) \<Rightarrow> {OsThread k}
      | _ \<Rightarrow> {})"

text \<open>
  The main thread makes the slots before it stores the task and takes the result after it has
  released it. After the last call it destroys the squad, which accesses everything.
\<close>

definition main_reads :: "'v squad \<Rightarrow> shared set" where
  "main_reads s =
     (case main s of
        MReady \<Rightarrow> {OsThread 0}
      | MNotifySet \<Rightarrow> {OsThread 0}
      | MFork \<Rightarrow> {OsThread 0}
      | MWait \<Rightarrow> {TaskPointer}
      | MJoin \<Rightarrow> {OsThread 0}
      | MRelease \<Rightarrow> insert TaskPointer (range TaskSlot)
      | MFreed \<Rightarrow> UNIV
      | _ \<Rightarrow> {})"

definition main_writes :: "'v squad \<Rightarrow> shared set" where
  "main_writes s =
     (case main s of
        MReady \<Rightarrow> insert TaskPointer (range TaskSlot)
      | MFork \<Rightarrow> {OsThread 0}
      | MJoin \<Rightarrow> {OsThread 0}
      | MRelease \<Rightarrow> insert TaskPointer (range TaskSlot)
      | MFreed \<Rightarrow> UNIV
      | _ \<Rightarrow> {})"

text \<open>The threads that can go on.\<close>

definition can_go :: "agent \<Rightarrow> 'v squad \<Rightarrow> bool" where
  "can_go a s =
     (case a of
        MainThread \<Rightarrow> main_step s \<noteq> Blocked \<or> main s = MFreed
      | Worker i \<Rightarrow> 0 \<le> i \<and> i < numThreads s \<and> worker_step i s \<noteq> Blocked)"

definition reads :: "agent \<Rightarrow> 'v squad \<Rightarrow> shared set" where
  "reads a s = (case a of MainThread \<Rightarrow> main_reads s | Worker i \<Rightarrow> worker_reads i s)"

definition writes :: "agent \<Rightarrow> 'v squad \<Rightarrow> shared set" where
  "writes a s = (case a of MainThread \<Rightarrow> main_writes s | Worker i \<Rightarrow> worker_writes i s)"

lemmas access_defs = worker_reads_def worker_writes_def main_reads_def main_writes_def

section \<open>Workers while no task is processed\<close>

lemma resting_accesses:
  assumes "resting (thrd s i)" "signalTaskAvailable (thrd s i) = 0" "worker_step i s \<noteq> Blocked"
  shows "worker_reads i s = {}" "worker_writes i s = {}"
  using assms by (auto simp: resting_def access_defs worker_step_def task_wait_step_def)

lemma quiet_accesses:
  assumes "all_fresh n (thrd s) \<or> all_resting n (thrd s) \<or> all_exited n (thrd s)" "0 \<le> i" "i < n"
    "worker_step i s \<noteq> Blocked"
  shows "worker_reads i s = {}" "worker_writes i s = {}"
  using assms resting_accesses [of s i]
  by (auto simp: all_fresh_def all_resting_def all_exited_def initial_thread_def worker_step_def)

section \<open>Workers while a task is processed\<close>

text \<open>The subordinate thread that a traversal is at.\<close>

definition visited :: "worker_pc \<Rightarrow> int option" where
  "visited l = (case l of Await (k # ks) \<Rightarrow> Some k | Fork (k # ks) \<Rightarrow> Some k | Join (k # ks) \<Rightarrow> Some k | _ \<Rightarrow> None)"

lemma visited_kid:
  assumes rs: "round_state n m fr jn mpc T" and i: "0 \<le> i" "i < n" and k: "visited (pc (T i)) = Some k"
  shows "k \<in> set (down_kids n i n)" "i < k" "k < n"
proof -
  have w: "worker_ok n m fr jn i (T i)" by (rule round_stateD(7) [OF rs i])
  show kid: "k \<in> set (down_kids n i n)"
  proof (cases "pc (T i)")
    case (Await ks)
    then obtain ks' us where "us @ k # ks' = up_kids n i m"
      using k w by (auto simp: visited_def worker_ok_def lists_ok_def split: list.splits)
    then have "k \<in> set (up_kids n i m)" by (metis in_set_conv_decomp)
    then show ?thesis using kids_m(2) [OF rs] by blast
  qed (use k w in \<open>auto simp: visited_def worker_ok_def lists_ok_def tree.set_up split: list.splits\<close>)
  show "i < k" "k < n" using tree.bounds [OF kid] by auto
qed

text \<open>The slots that a worker accesses: its own, and that of a thread that has signalled completion.\<close>

lemma slot_access:
  assumes rs: "round_state n m fr jn mpc (thrd s)" and n: "numThreads s = n" and i: "0 \<le> i" "i < n"
    and go: "worker_step i s \<noteq> Blocked"
    and a: "TaskSlot k \<in> worker_reads i s \<union> worker_writes i s"
  shows "stage (thrd s i) = Active \<and> k = i
    \<or> visited (pc (thrd s i)) = Some k \<and> stage (thrd s i) = Active \<and> signalTaskProcessed (thrd s k) \<noteq> 0"
proof -
  have w: "worker_ok n m fr jn i (thrd s i)" by (rule round_stateD(7) [OF rs i])
  have pc: "pc (thrd s i) = Run \<or> (\<exists>j ks. pc (thrd s i) = Await (j # ks))"
    using a by (auto simp: access_defs split: worker_pc.splits list.splits if_splits)
  then have st: "stage (thrd s i) = Active"
    using w by (auto simp: worker_simps split: stage.splits if_splits)
  have "signalTaskProcessed (thrd s j) \<noteq> 0" if "pc (thrd s i) = Await (j # ks)" for j ks
    using go that visited_kid(2,3) [OF rs i, of j] i n
    by (auto simp: worker_step_def wait_for_thread_step_def access_def visited_def)
  then show ?thesis using pc a st by (auto simp: access_defs visited_def)
qed

lemma os_thread_access:
  assumes "OsThread k \<in> worker_reads i s \<union> worker_writes i s"
  shows "visited (pc (thrd s i)) = Some k"
  using assms by (auto simp: access_defs visited_def split: worker_pc.splits list.splits if_splits)

lemma no_task_write: "TaskPointer \<notin> worker_writes i s"
  by (auto simp: worker_writes_def split: worker_pc.splits list.splits)

lemma main_handle:
  assumes "round_state n m fr jn mpc (thrd s)" "0 \<le> i" "i < n"
  shows "OsThread 0 \<notin> worker_reads i s \<union> worker_writes i s"
  using os_thread_access [of 0 i s] visited_kid(2) [OF assms, of 0] assms(2) by force

text \<open>Two workers.\<close>

lemma workers_disjoint:
  assumes rs: "round_state n m fr jn mpc (thrd s)" and n: "numThreads s = n"
    and i: "0 \<le> i" "i < n" and j: "0 \<le> j" "j < n" and ij: "i \<noteq> j"
    and go: "worker_step i s \<noteq> Blocked" "worker_step j s \<noteq> Blocked"
  shows "worker_writes i s \<inter> (worker_reads j s \<union> worker_writes j s) = {}"
proof (rule equals0I)
  fix x assume x: "x \<in> worker_writes i s \<inter> (worker_reads j s \<union> worker_writes j s)"
  have parent: "i = j" if "visited (pc (thrd s i)) = Some k" "visited (pc (thrd s j)) = Some k" for k
    using tree.parent_unique [OF round_stateD(1) [OF rs] order.refl i(1) j(1)]
      visited_kid(1) [OF rs i that(1)] visited_kid(1) [OF rs j that(2)] by blast
  have active: "signalTaskProcessed (thrd s k) = 0" if "stage (thrd s k) = Active" "0 \<le> k" "k < n" for k
    using round_stateD(7) [OF rs that(2,3)] that(1) by (simp add: worker_ok_def)
  show False
  proof (cases x)
    case TaskPointer
    then show ?thesis using x no_task_write by blast
  next
    case (OsThread k)
    then have "visited (pc (thrd s i)) = Some k" "visited (pc (thrd s j)) = Some k" using x os_thread_access by blast+
    then show ?thesis using parent ij by blast
  next
    case (TaskSlot k)
    have a: "stage (thrd s i) = Active \<and> k = i
        \<or> visited (pc (thrd s i)) = Some k \<and> stage (thrd s i) = Active \<and> signalTaskProcessed (thrd s k) \<noteq> 0"
      by (rule slot_access [OF rs n i go(1)]) (use x TaskSlot in blast)
    have b: "stage (thrd s j) = Active \<and> k = j
        \<or> visited (pc (thrd s j)) = Some k \<and> stage (thrd s j) = Active \<and> signalTaskProcessed (thrd s k) \<noteq> 0"
      by (rule slot_access [OF rs n j go(2)]) (use x TaskSlot in blast)
    from a b show ?thesis using parent [of k] ij active [of i] active [of j] i j by auto
  qed
qed

section \<open>The main thread\<close>

lemma main_disjoint:
  assumes ctl: "control_ok n s" and i: "0 \<le> i" "i < n" and go: "worker_step i s \<noteq> Blocked"
  shows "main_writes s \<inter> (worker_reads i s \<union> worker_writes i s) = {}" "main_reads s \<inter> worker_writes i s = {}"
proof -
  note d = control_okD [OF ctl]
  have "main_writes s \<inter> (worker_reads i s \<union> worker_writes i s) = {} \<and> main_reads s \<inter> worker_writes i s = {}"
  proof (cases "task s")
    case None
    then have "all_fresh n (thrd s) \<or> all_resting n (thrd s) \<or> all_exited n (thrd s)"
      using d(6) by (auto simp: idle_ok_def)
    then show ?thesis using quiet_accesses [OF _ i go] by simp
  next
    case (Some tk)
    let ?jn = "join_requested (params tk)"
    have call: "call_ok n tk s" by (rule d(7) [OF Some])
    then have rs: "round_state n (round_size n (first s) tk) (first s) ?jn (main s) (thrd s)" by (simp add: call_ok_def)
    show ?thesis
    proof (cases "main s = MRelease")
      case True
      have "all_resting n (thrd s) \<or> all_exited n (thrd s)"
        using rs True end_join [of n "round_size n (first s) tk" "first s" "thrd s"]
          end_rest [of n "round_size n (first s) tk" "first s" "thrd s"] by (cases ?jn) auto
      then show ?thesis using quiet_accesses [OF _ i go] by simp
    next
      case False
      then show ?thesis using main_handle [OF rs i] no_task_write [of i s] call
        by (auto simp: main_reads_def main_writes_def call_ok_def split: main_pc.splits)
    qed
  qed
  then show "main_writes s \<inter> (worker_reads i s \<union> worker_writes i s) = {}" "main_reads s \<inter> worker_writes i s = {}"
    by blast+
qed

section \<open>The property\<close>

text \<open>
  C2: There is no data race in a squad whose thread tree is exact (among them all of 1 to 64
  threads): in every reachable state, of two threads that can go on (the main thread and the workers, or the destruction of the squad after the last call) none writes what the
  other one accesses, of what is not atomic.
\<close>

theorem squad_no_data_race:
  assumes "reachable n calls s" "tree_exact n" "1 \<le> n" "valid_calls n calls"
    and "can_go a s" "can_go b s" "a \<noteq> b"
  shows "writes a s \<inter> (reads b s \<union> writes b s) = {}"
proof -
  have ctl: "control_ok n s" using reachable_squad_ok [OF assms(1-4)] by (simp add: squad_ok_def)
  note d = control_okD [OF ctl]
  have w: "0 \<le> i" "i < n" "worker_step i s \<noteq> Blocked" if "can_go (Worker i) s" for i
    using that d(3) by (simp_all add: can_go_def)
  show ?thesis
  proof (cases a)
    case MainThread
    then obtain j where j: "b = Worker j" using assms(7) by (cases b) auto
    show ?thesis
      using main_disjoint(1) [OF ctl w(1-3)] assms(6) j MainThread by (simp add: writes_def reads_def)
  next
    case a: (Worker i)
    show ?thesis
    proof (cases b)
      case MainThread
      then show ?thesis
        using main_disjoint [OF ctl w(1-3), of i] assms(5) a by (auto simp: writes_def reads_def)
    next
      case b: (Worker j)
      show ?thesis
      proof (cases "task s")
        case None
        then have "all_fresh n (thrd s) \<or> all_resting n (thrd s) \<or> all_exited n (thrd s)"
          using d(6) by (auto simp: idle_ok_def)
        then show ?thesis
          using quiet_accesses [of n s i] w [of i] assms(5) a by (simp add: writes_def)
      next
        case (Some tk)
        then have "round_state n (round_size n (first s) tk) (first s) (join_requested (params tk)) (main s) (thrd s)"
          using d(7) by (simp add: call_ok_def)
        from workers_disjoint [OF this d(3) w(1,2) [of i] w(1,2) [of j] _ w(3) [of i] w(3) [of j]] show ?thesis
          using assms(5-7) a b by (simp add: writes_def reads_def)
      qed
    qed
  qed
qed

text \<open>
  Thread 0 merges the value of thread 2, which has signalled its completion and goes on to the next pass
  at the same time.
\<close>

lemma squad_no_data_race_witness:
  "writes (Worker 0) (demo 30) = {TaskSlot 0, TaskSlot 2} \<and> pc (thrd (demo 30) 2) = NextPass
    \<and> writes (Worker 0) (demo 30) \<inter> (reads (Worker 2) (demo 30) \<union> writes (Worker 2) (demo 30)) = {}"
proof -
  have w: "pc (thrd (demo 30) 0) = Await [2]" "pc (thrd (demo 30) 2) = NextPass"
    by code_simp+
  have "case worker_step 0 (demo 30) of Blocked \<Rightarrow> False | _ \<Rightarrow> True"
      "case worker_step 2 (demo 30) of Blocked \<Rightarrow> False | _ \<Rightarrow> True" "numThreads (demo 30) = 3"
    by code_simp+
  then have g: "can_go (Worker 0) (demo 30)" "can_go (Worker 2) (demo 30)"
    by (auto simp: can_go_def split: step.splits)
  show ?thesis
    using squad_no_data_race [OF demo_ok(1,2) _ demo_ok(3) g] w by (simp add: writes_def worker_writes_def)
qed

end
