(* ===== verification/Squad_Sync.thy ===== *)
theory Squad_Sync
  imports Tree_Invariant Squad_Reduce Squad_Protocol
begin

text \<open>
  The synchronization operations of a task context: \<^verbatim>\<open>synchronize()\<close>, \<^verbatim>\<open>reduce()\<close> and
  \<^verbatim>\<open>reduce_transform()\<close> (\<^verbatim>\<open>src/include/patton/thread_squad.hpp\<close>), the synchronizer objects they
  create (\<^verbatim>\<open>src/include/patton/detail/thread_squad.hpp\<close>) and the protocol with which the threads
  that execute a task exchange their data, \<^verbatim>\<open>synchronize_collect()\<close> and
  \<^verbatim>\<open>synchronize_broadcast()\<close> (\<^verbatim>\<open>src/src/thread_squad.cpp\<close>).

  The threads 0 to \<^verbatim>\<open>running - 1\<close> execute the same sequence of operations, as the documentation
  demands; what a thread contributes to an operation may depend on its index and on the results
  of its previous operations. A step is one access to shared state, as in \<^verbatim>\<open>Squad_Protocol\<close>. The
  types \<^verbatim>\<open>T\<close> of a value and \<^verbatim>\<open>R\<close> of a transformed result are the same type here.
\<close>

section \<open>Synchronizers\<close>

text \<open>The three operations, with the caller's function objects.\<close>

datatype 'v sync_op =
    Synchronize
  | Reduce "'v \<Rightarrow> 'v \<Rightarrow> 'v"
  | ReduceTransform "'v \<Rightarrow> 'v \<Rightarrow> 'v" "'v \<Rightarrow> 'v"

text \<open>
  The data member of the operation's synchronizer: none for \<^verbatim>\<open>task_context_synchronizer\<close>,
  \<^verbatim>\<open>thread_sync_reduce_data\<close>, \<^verbatim>\<open>thread_sync_reduce_transform_data\<close>.
\<close>

datatype 'v synchronizer_data =
    PlainData
  | ReduceData 'v
  | TransformData 'v "'v option"

text \<open>The constructors of the synchronizers.\<close>

definition make_synchronizer :: "'v sync_op \<Rightarrow> 'v \<Rightarrow> 'v synchronizer_data" where
  "make_synchronizer op v =
     (case op of Synchronize \<Rightarrow> PlainData | Reduce f \<Rightarrow> ReduceData v | ReduceTransform f h \<Rightarrow> TransformData v None)"

text \<open>
  The member functions of the three classes. \<^verbatim>\<open>sync_data()\<close> returns a pointer to the data of the
  calling thread's synchronizer, or null; a pointer is the index of the thread on whose stack the
  synchronizer is. \<^verbatim>\<open>collect(src)\<close> makes the synchronizer's data the reduction of both values.
  \<^verbatim>\<open>broadcast(dst)\<close> yields the data at the destination after it, if it writes there; an empty result
  ends the program, as the function is \<^verbatim>\<open>noexcept\<close>. A conversion to a type that the object behind the
  pointer does not have is undefined behaviour.
\<close>

definition plain_sync_data :: "int \<Rightarrow> int option" where
  "plain_sync_data i = None"

definition plain_collect ::
  "'v synchronizer_data res \<Rightarrow> 'v synchronizer_data res \<Rightarrow> 'v synchronizer_data res" where
  "plain_collect self src = self"

definition plain_broadcast ::
  "'v synchronizer_data res \<Rightarrow> 'v synchronizer_data res \<Rightarrow> 'v synchronizer_data option res" where
  "plain_broadcast self dst = Inr None"

definition reduce_sync_data :: "int \<Rightarrow> int option" where
  "reduce_sync_data i = Some i"

definition reduce_collect :: "('v \<Rightarrow> 'v \<Rightarrow> 'v) \<Rightarrow>
    'v synchronizer_data res \<Rightarrow> 'v synchronizer_data res \<Rightarrow> 'v synchronizer_data res" where
  "reduce_collect f self src = res_bind self (\<lambda>d. res_bind src (\<lambda>s.
     case (d, s) of (ReduceData v, ReduceData w) \<Rightarrow> Inr (ReduceData (f v w)) | _ \<Rightarrow> Inl UndefinedBehaviour))"

definition reduce_broadcast ::
  "'v synchronizer_data res \<Rightarrow> 'v synchronizer_data res \<Rightarrow> 'v synchronizer_data option res" where
  "reduce_broadcast self dst = res_bind self (\<lambda>d. res_bind dst (\<lambda>s.
     case (d, s) of (ReduceData v, ReduceData w) \<Rightarrow> Inr (Some (ReduceData v)) | _ \<Rightarrow> Inl UndefinedBehaviour))"

definition transform_sync_data :: "int \<Rightarrow> int option" where
  "transform_sync_data i = Some i"

definition transform_collect :: "('v \<Rightarrow> 'v \<Rightarrow> 'v) \<Rightarrow>
    'v synchronizer_data res \<Rightarrow> 'v synchronizer_data res \<Rightarrow> 'v synchronizer_data res" where
  "transform_collect f self src = res_bind self (\<lambda>d. res_bind src (\<lambda>s.
     case (d, s) of (TransformData v r, TransformData w q) \<Rightarrow> Inr (TransformData (f v w) r)
     | _ \<Rightarrow> Inl UndefinedBehaviour))"

definition transform_broadcast ::
  "'v synchronizer_data res \<Rightarrow> 'v synchronizer_data res \<Rightarrow> 'v synchronizer_data option res" where
  "transform_broadcast self dst = res_bind self (\<lambda>d. res_bind dst (\<lambda>s.
     case (d, s) of
       (TransformData v r, TransformData w q) \<Rightarrow>
         res_bind (opt_value r) (\<lambda>x. Inr (Some (TransformData w (Some x))))
     | _ \<Rightarrow> Inl UndefinedBehaviour))"

text \<open>The virtual calls.\<close>

definition sync_data :: "'v sync_op \<Rightarrow> int \<Rightarrow> int option" where
  "sync_data op = (case op of Synchronize \<Rightarrow> plain_sync_data | Reduce f \<Rightarrow> reduce_sync_data
     | ReduceTransform f h \<Rightarrow> transform_sync_data)"

definition synchronizer_collect ::
  "'v sync_op \<Rightarrow> 'v synchronizer_data res \<Rightarrow> 'v synchronizer_data res \<Rightarrow> 'v synchronizer_data res" where
  "synchronizer_collect op = (case op of Synchronize \<Rightarrow> plain_collect | Reduce f \<Rightarrow> reduce_collect f
     | ReduceTransform f h \<Rightarrow> transform_collect f)"

definition synchronizer_broadcast ::
  "'v sync_op \<Rightarrow> 'v synchronizer_data res \<Rightarrow> 'v synchronizer_data res \<Rightarrow> 'v synchronizer_data option res" where
  "synchronizer_broadcast op = (case op of Synchronize \<Rightarrow> plain_broadcast | Reduce f \<Rightarrow> reduce_broadcast
     | ReduceTransform f h \<Rightarrow> transform_broadcast)"

lemmas virtual_calls = sync_data_def synchronizer_collect_def synchronizer_broadcast_def
  plain_sync_data_def plain_collect_def plain_broadcast_def
  reduce_sync_data_def reduce_collect_def reduce_broadcast_def
  transform_sync_data_def transform_collect_def transform_broadcast_def

text \<open>
  What the operation does between its calls of \<^verbatim>\<open>collect\<close> and \<^verbatim>\<open>broadcast\<close>, and the value that it
  returns (\<^verbatim>\<open>synchronize()\<close> returns none).
\<close>

definition root_transform :: "'v sync_op \<Rightarrow> int \<Rightarrow> 'v synchronizer_data res \<Rightarrow> 'v synchronizer_data res" where
  "root_transform op threadIdx self =
     (case op of
        Synchronize \<Rightarrow> self
      | Reduce f \<Rightarrow> self
      | ReduceTransform f h \<Rightarrow>
          if threadIdx = 0 then res_bind self (\<lambda>d.
            case d of TransformData v r \<Rightarrow> Inr (TransformData v (Some (h v))) | _ \<Rightarrow> Inl UndefinedBehaviour)
          else self)"

definition operation_result :: "'v sync_op \<Rightarrow> 'v synchronizer_data res \<Rightarrow> 'v option res" where
  "operation_result op self =
     (case op of
        Synchronize \<Rightarrow> Inr None
      | Reduce f \<Rightarrow> res_bind self (\<lambda>d. case d of ReduceData v \<Rightarrow> Inr (Some v) | _ \<Rightarrow> Inl UndefinedBehaviour)
      | ReduceTransform f h \<Rightarrow> res_bind self (\<lambda>d.
          case d of TransformData v r \<Rightarrow> res_bind (opt_value r) (\<lambda>x. Inr (Some x)) | _ \<Rightarrow> Inl UndefinedBehaviour))"

section \<open>State\<close>

datatype sync_phase = WriteData | ResetCollecting | NotifyBroadcasting

text \<open>
  Where a thread is. The list arguments have the subordinate threads that the traversal has still
  to visit.
\<close>

datatype sync_point =
    Outside                        \<comment> \<open>between two operations\<close>
  | AwaitCollecting "int list"     \<comment> \<open>in \<^verbatim>\<open>synchronize_collect()\<close>: \<^verbatim>\<open>collect_from_thread\<close>, its wait\<close>
  | Collecting "int list"          \<comment> \<open>and its read of the head's data\<close>
  | Publish                        \<comment> \<open>before \<^verbatim>\<open>syncData_ = synchronizer.sync_data()\<close>\<close>
  | ResetBroadcasting              \<comment> \<open>before \<^verbatim>\<open>reset(signalBroadcasting_)\<close>\<close>
  | NotifyCollecting               \<comment> \<open>before \<^verbatim>\<open>set_and_notify(signalCollecting_)\<close>\<close>
  | AwaitBroadcasting              \<comment> \<open>in \<^verbatim>\<open>wait(signalBroadcasting_)\<close>\<close>
  | Withdraw                       \<comment> \<open>before \<^verbatim>\<open>syncData_ = nullptr\<close>\<close>
  | Transform                      \<comment> \<open>between \<^verbatim>\<open>collect()\<close> and \<^verbatim>\<open>broadcast()\<close>\<close>
  | Broadcasting sync_phase "int list" \<comment> \<open>in \<^verbatim>\<open>synchronize_broadcast()\<close>: \<^verbatim>\<open>broadcast_to_thread\<close> of the head\<close>

text \<open>
  The members of \<^verbatim>\<open>thread_data\<close> that synchronization uses, and the local state of the thread: the
  data of the synchronizer while an operation is running, and what the operations returned.
\<close>

record 'v sync_thread =
  signalCollecting :: int
  signalBroadcasting :: int
  syncData :: "int option"
  point :: sync_point
  synchronizer :: "'v synchronizer_data option"
  results :: "'v option list"

text \<open>
  What does not change while a task is executed: the squad's size and tree, the number of threads
  that execute the task, the operations, and what a thread contributes to them.
\<close>

record 'v sync_task =
  squad_size :: int
  strides :: "int list"
  running :: int
  operations :: "'v sync_op list"
  contribution :: "'v option list \<Rightarrow> int \<Rightarrow> 'v"

text \<open>
  The threads when they start with the task. A squad that has synchronized before leaves the
  broadcasting signals set.
\<close>

definition sync_start :: "(int \<Rightarrow> int) \<Rightarrow> int \<Rightarrow> 'v sync_thread" where
  "sync_start b = (\<lambda>i. \<lparr>signalCollecting = 0, signalBroadcasting = b i, syncData = None, point = Outside,
     synchronizer = None, results = []\<rparr>)"

section \<open>Steps\<close>

datatype 'v sync_outcome = Waits | Fails failure | Moves "int \<Rightarrow> 'v sync_thread"

definition moves :: "'a res \<Rightarrow> ('a \<Rightarrow> int \<Rightarrow> 'v sync_thread) \<Rightarrow> 'v sync_outcome" where
  "moves r f = (case r of Inl e \<Rightarrow> Fails e | Inr x \<Rightarrow> Moves (f x))"

text \<open>Access to \<^verbatim>\<open>threadData_[k]\<close> and through a pointer to a synchronizer's data.\<close>

definition sync_access :: "'v sync_task \<Rightarrow> int \<Rightarrow> 'v sync_outcome \<Rightarrow> 'v sync_outcome" where
  "sync_access g k x = (if 0 \<le> k \<and> k < squad_size g then x else Fails UndefinedBehaviour)"

definition deref :: "(int \<Rightarrow> 'v sync_thread) \<Rightarrow> int option \<Rightarrow> 'v synchronizer_data res" where
  "deref T p =
     (case p of
        None \<Rightarrow> Inl UndefinedBehaviour
      | Some j \<Rightarrow> (case synchronizer (T j) of None \<Rightarrow> Inl UndefinedBehaviour | Some d \<Rightarrow> Inr d))"

definition store :: "int option \<Rightarrow> 'v synchronizer_data option \<Rightarrow> (int \<Rightarrow> 'v sync_thread) \<Rightarrow> int \<Rightarrow> 'v sync_thread" where
  "store p d T =
     (case (p, d) of (Some j, Some x) \<Rightarrow> T(j := (T j)\<lparr>synchronizer := Some x\<rparr>) | _ \<Rightarrow> T)"

definition at_point :: "int \<Rightarrow> sync_point \<Rightarrow> (int \<Rightarrow> 'v sync_thread) \<Rightarrow> int \<Rightarrow> 'v sync_thread" where
  "at_point i l T = T(i := (T i)\<lparr>point := l\<rparr>)"

definition current_op :: "'v sync_task \<Rightarrow> 'v sync_thread \<Rightarrow> 'v sync_op" where
  "current_op g t = operations g ! length (results t)"

text \<open>The call of an operation: its synchronizer is made and \<^verbatim>\<open>synchronize_collect()\<close> entered.\<close>

definition enter_operation :: "'v sync_task \<Rightarrow> int \<Rightarrow> (int \<Rightarrow> 'v sync_thread) \<Rightarrow> 'v sync_outcome" where
  "enter_operation g i T =
     (if length (results (T i)) < length (operations g) then
        (case from_subthreads (strides g) i (running g) of
           None \<Rightarrow> Fails UndefinedBehaviour
         | Some ks \<Rightarrow> Moves (T(i := (T i)\<lparr>
             synchronizer := Some (make_synchronizer (current_op g (T i)) (contribution g (results (T i)) i)),
             point := AwaitCollecting ks\<rparr>)))
      else Waits)"

text \<open>\<^verbatim>\<open>collect_from_thread\<close>\<close>

definition collect_wait :: "'v sync_task \<Rightarrow> int \<Rightarrow> int \<Rightarrow> int list \<Rightarrow> (int \<Rightarrow> 'v sync_thread) \<Rightarrow> 'v sync_outcome" where
  "collect_wait g i k ks T = sync_access g k
     (if signalCollecting (T k) = 0 then Waits else Moves (at_point i (Collecting (k # ks)) T))"

definition collect_read :: "'v sync_task \<Rightarrow> int \<Rightarrow> int \<Rightarrow> int list \<Rightarrow> (int \<Rightarrow> 'v sync_thread) \<Rightarrow> 'v sync_outcome" where
  "collect_read g i k ks T = sync_access g k
     (moves (synchronizer_collect (current_op g (T i)) (deref T (Some i)) (deref T (syncData (T k))))
       (\<lambda>d. at_point i (AwaitCollecting ks) (T(i := (T i)\<lparr>synchronizer := Some d\<rparr>))))"

text \<open>\<^verbatim>\<open>broadcast_to_thread\<close>\<close>

definition broadcast_write :: "'v sync_task \<Rightarrow> int \<Rightarrow> int \<Rightarrow> int list \<Rightarrow> (int \<Rightarrow> 'v sync_thread) \<Rightarrow> 'v sync_outcome" where
  "broadcast_write g i k ks T = sync_access g k
     (moves (synchronizer_broadcast (current_op g (T i)) (deref T (Some i)) (deref T (syncData (T k))))
       (\<lambda>d. at_point i (Broadcasting ResetCollecting (k # ks)) (store (syncData (T k)) d T)))"

definition broadcast_reset :: "'v sync_task \<Rightarrow> int \<Rightarrow> int \<Rightarrow> int list \<Rightarrow> (int \<Rightarrow> 'v sync_thread) \<Rightarrow> 'v sync_outcome" where
  "broadcast_reset g i k ks T = sync_access g k
     (Moves (at_point i (Broadcasting NotifyBroadcasting (k # ks)) (T(k := (T k)\<lparr>signalCollecting := 0\<rparr>))))"

definition broadcast_notify :: "'v sync_task \<Rightarrow> int \<Rightarrow> int \<Rightarrow> int list \<Rightarrow> (int \<Rightarrow> 'v sync_thread) \<Rightarrow> 'v sync_outcome" where
  "broadcast_notify g i k ks T = sync_access g k
     (if signalBroadcasting (T k) = toggle_value 0 then Fails ContractViolation
      else Moves (at_point i (Broadcasting WriteData ks) (T(k := (T k)\<lparr>signalBroadcasting := toggle_value 0\<rparr>))))"

text \<open>The transformation on the root, and the entry into \<^verbatim>\<open>synchronize_broadcast()\<close>.\<close>

definition enter_broadcast :: "'v sync_task \<Rightarrow> int \<Rightarrow> (int \<Rightarrow> 'v sync_thread) \<Rightarrow> 'v sync_outcome" where
  "enter_broadcast g i T =
     (case to_subthreads (strides g) i (running g) of
        None \<Rightarrow> Fails UndefinedBehaviour
      | Some ks \<Rightarrow> moves (root_transform (current_op g (T i)) i (deref T (Some i)))
          (\<lambda>d. T(i := (T i)\<lparr>synchronizer := Some d, point := Broadcasting WriteData ks\<rparr>)))"

text \<open>The operation returns; its synchronizer is destroyed.\<close>

definition leave_operation :: "'v sync_task \<Rightarrow> int \<Rightarrow> (int \<Rightarrow> 'v sync_thread) \<Rightarrow> 'v sync_outcome" where
  "leave_operation g i T =
     moves (operation_result (current_op g (T i)) (deref T (Some i)))
       (\<lambda>r. T(i := (T i)\<lparr>results := results (T i) @ [r], synchronizer := None, point := Outside\<rparr>))"

text \<open>One step of thread \<^verbatim>\<open>i\<close>.\<close>

definition sync_step :: "'v sync_task \<Rightarrow> int \<Rightarrow> (int \<Rightarrow> 'v sync_thread) \<Rightarrow> 'v sync_outcome" where
  "sync_step g i T =
     (case point (T i) of
        Outside \<Rightarrow> enter_operation g i T
      | AwaitCollecting [] \<Rightarrow> Moves (at_point i (if 0 < i then Publish else Transform) T)
      | AwaitCollecting (k # ks) \<Rightarrow> collect_wait g i k ks T
      | Collecting [] \<Rightarrow> Moves (at_point i (AwaitCollecting []) T)
      | Collecting (k # ks) \<Rightarrow> collect_read g i k ks T
      | Publish \<Rightarrow> Moves (T(i := (T i)\<lparr>syncData := sync_data (current_op g (T i)) i, point := ResetBroadcasting\<rparr>))
      | ResetBroadcasting \<Rightarrow> Moves (T(i := (T i)\<lparr>signalBroadcasting := 0, point := NotifyCollecting\<rparr>))
      | NotifyCollecting \<Rightarrow>
          if signalCollecting (T i) = toggle_value 0 then Fails ContractViolation
          else Moves (T(i := (T i)\<lparr>signalCollecting := toggle_value 0, point := AwaitBroadcasting\<rparr>))
      | AwaitBroadcasting \<Rightarrow>
          if signalBroadcasting (T i) = 0 then Waits else Moves (at_point i Withdraw T)
      | Withdraw \<Rightarrow> Moves (T(i := (T i)\<lparr>syncData := None, point := Transform\<rparr>))
      | Transform \<Rightarrow> enter_broadcast g i T
      | Broadcasting ph [] \<Rightarrow> leave_operation g i T
      | Broadcasting WriteData (k # ks) \<Rightarrow> broadcast_write g i k ks T
      | Broadcasting ResetCollecting (k # ks) \<Rightarrow> broadcast_reset g i k ks T
      | Broadcasting NotifyBroadcasting (k # ks) \<Rightarrow> broadcast_notify g i k ks T)"

text \<open>Executions: any thread makes the next step.\<close>

inductive sync_reachable :: "'v sync_task \<Rightarrow> (int \<Rightarrow> int) \<Rightarrow> (int \<Rightarrow> 'v sync_thread) \<Rightarrow> bool" for g b where
  start: "sync_reachable g b (sync_start b)"
| step: "sync_reachable g b T \<Longrightarrow> 0 \<le> i \<Longrightarrow> i < running g \<Longrightarrow> sync_step g i T = Moves T' \<Longrightarrow> sync_reachable g b T'"

section \<open>The results, specified\<close>

definition combine :: "'v sync_op \<Rightarrow> 'v \<Rightarrow> 'v \<Rightarrow> 'v" where
  "combine op = (case op of Synchronize \<Rightarrow> (\<lambda>v w. v) | Reduce f \<Rightarrow> f | ReduceTransform f h \<Rightarrow> f)"

definition op_outcome :: "'v sync_op \<Rightarrow> 'v \<Rightarrow> 'v option" where
  "op_outcome op v = (case op of Synchronize \<Rightarrow> None | Reduce f \<Rightarrow> Some v | ReduceTransform f h \<Rightarrow> Some (h v))"

text \<open>
  The results of a sequence of operations, for a way to reduce the values of all threads: every
  thread gets the same.
\<close>

fun results_of :: "(('v \<Rightarrow> 'v \<Rightarrow> 'v) \<Rightarrow> (int \<Rightarrow> 'v) \<Rightarrow> 'v) \<Rightarrow> ('v option list \<Rightarrow> int \<Rightarrow> 'v)
    \<Rightarrow> 'v option list \<Rightarrow> 'v sync_op list \<Rightarrow> 'v option list" where
  "results_of red x rs [] = rs"
| "results_of red x rs (op # ops) = results_of red x (rs @ [op_outcome op (red (combine op) (x rs))]) ops"

text \<open>In index order, and in the order in which the tree reduces.\<close>

definition sequential_results :: "'v sync_task \<Rightarrow> 'v option list" where
  "sequential_results g = results_of (\<lambda>f y. range_fold f y 0 (running g)) (contribution g) [] (operations g)"

definition tree_results :: "'v sync_task \<Rightarrow> 'v option list" where
  "tree_results g = results_of (\<lambda>f y. tree_fold f y (squad_size g) (running g) 0) (contribution g) [] (operations g)"

text \<open>A squad with a proper tree, of which at least one thread executes the task.\<close>

definition sync_task_ok :: "'v sync_task \<Rightarrow> bool" where
  "sync_task_ok g \<longleftrightarrow> tree_exact (squad_size g) \<and> 1 \<le> running g \<and> running g \<le> squad_size g
     \<and> squad_strides (squad_size g) = Some (strides g)"

definition associative :: "'v sync_op \<Rightarrow> bool" where
  "associative op \<longleftrightarrow> (\<forall>u v w. combine op (combine op u v) w = combine op u (combine op v w))"

lemma length_results_of [simp]: "length (results_of red x rs ops) = length rs + length ops"
  by (induction ops arbitrary: rs) auto

lemma results_of_prefix: "take (length rs) (results_of red x rs ops) = rs"
proof (induction ops arbitrary: rs)
  case (Cons op ops)
  let ?v = "op_outcome op (red (combine op) (x rs))"
  have "take (length (rs @ [?v])) (results_of red x (rs @ [?v]) ops) = rs @ [?v]" by (rule Cons)
  then have "take (length rs) (take (length (rs @ [?v])) (results_of red x (rs @ [?v]) ops)) = rs" by simp
  then show ?case by simp
qed simp

lemma results_of_nth:
  "r < length ops \<Longrightarrow> results_of red x rs ops ! (length rs + r)
    = op_outcome (ops ! r) (red (combine (ops ! r)) (x (take (length rs + r) (results_of red x rs ops))))"
proof (induction ops arbitrary: rs r)
  case (Cons op ops)
  let ?v = "op_outcome op (red (combine op) (x rs))"
  show ?case
  proof (cases r)
    case 0
    have "take (length rs + 1) (results_of red x rs (op # ops)) = rs @ [?v]"
      using results_of_prefix [of "rs @ [?v]" red x ops] by simp
    then have "results_of red x rs (op # ops) ! length rs = (rs @ [?v]) ! length rs"
      by (metis lessI nth_take Suc_eq_plus1)
    then show ?thesis using 0 results_of_prefix [of rs red x "op # ops"] by simp
  next
    case (Suc q)
    then show ?thesis using Cons.IH [of q "rs @ [?v]"] Cons.prems by simp
  qed
qed simp

lemma results_of_cong:
  assumes "\<And>op y. op \<in> set ops \<Longrightarrow> red (combine op) y = red' (combine op) y"
  shows "results_of red x rs ops = results_of red' x rs ops"
  using assms by (induction ops arbitrary: rs) auto

text \<open>For associative operations the order of the tree does not matter.\<close>

lemma tree_results_sequential:
  assumes "sync_task_ok g" "\<forall>op\<in>set (operations g). associative op"
  shows "tree_results g = sequential_results g"
  unfolding tree_results_def sequential_results_def
  by (rule results_of_cong, rule tree_fold_root)
    (use assms in \<open>auto simp: sync_task_ok_def associative_def\<close>)

end
