(* ===== verification/Squad_Sync_Invariant.thy ===== *)
theory Squad_Sync_Invariant
  imports Squad_Sync
begin

text \<open>
  The invariant of the synchronization protocol, as a condition on every thread and one on every
  pair of a thread and a subordinate thread, and its preservation by every step. The condition on a
  pair says which of the two threads owns the subordinate thread's synchronizer and what it
  contains.
\<close>

section \<open>What the synchronizers contain\<close>

text \<open>
  In operation \<^verbatim>\<open>r\<close>: the value of thread \<^verbatim>\<open>i\<close> after it has reduced its subordinate threads, its
  synchronizer's data then, and the data after the broadcast has reached the thread.
\<close>

definition round_value :: "'v sync_task \<Rightarrow> nat \<Rightarrow> int \<Rightarrow> 'v" where
  "round_value g r i = tree_fold (combine (operations g ! r)) (contribution g (take r (tree_results g)))
     (squad_size g) (running g) i"

definition reduced :: "'v sync_task \<Rightarrow> nat \<Rightarrow> int \<Rightarrow> 'v synchronizer_data" where
  "reduced g r i = make_synchronizer (operations g ! r) (round_value g r i)"

definition final :: "'v sync_task \<Rightarrow> nat \<Rightarrow> int \<Rightarrow> 'v synchronizer_data" where
  "final g r i =
     (case operations g ! r of
        Synchronize \<Rightarrow> PlainData
      | Reduce f \<Rightarrow> ReduceData (round_value g r 0)
      | ReduceTransform f h \<Rightarrow> TransformData (round_value g r i) (Some (h (round_value g r 0))))"

text \<open>The data after the threads \<^verbatim>\<open>cs\<close> have been collected.\<close>

definition partial_data :: "'v sync_task \<Rightarrow> nat \<Rightarrow> int \<Rightarrow> int list \<Rightarrow> 'v synchronizer_data" where
  "partial_data g r i cs = make_synchronizer (operations g ! r)
     (foldl (combine (operations g ! r)) (contribution g (take r (tree_results g)) i) (map (round_value g r) cs))"

lemma partial_data_all: "partial_data g r i (up_kids (squad_size g) i (running g)) = reduced g r i"
  unfolding partial_data_def reduced_def round_value_def
  by (subst tree_fold.simps [of _ _ _ _ i]) (rule refl)

lemma collect_partial:
  assumes "self = Inr (partial_data g r i cs)"
    and "operations g ! r \<noteq> Synchronize \<Longrightarrow> src = Inr (reduced g r k)"
  shows "synchronizer_collect (operations g ! r) self src = Inr (partial_data g r i (cs @ [k]))"
  using assms
  by (cases "operations g ! r")
    (simp_all add: virtual_calls partial_data_def reduced_def make_synchronizer_def combine_def)

lemma broadcast_final:
  assumes "self = Inr (final g r i)"
    and "operations g ! r \<noteq> Synchronize \<Longrightarrow> dst = Inr (reduced g r k)"
  shows "synchronizer_broadcast (operations g ! r) self dst
    = Inr (if operations g ! r = Synchronize then None else Some (final g r k))"
  using assms
  by (cases "operations g ! r")
    (simp_all add: virtual_calls final_def reduced_def make_synchronizer_def opt_value_def)

lemma reduced_plain: "operations g ! r = Synchronize \<Longrightarrow> reduced g r k = final g r k"
  by (simp add: reduced_def final_def make_synchronizer_def)

lemma root_transform_final:
  "root_transform (operations g ! r) i (Inr (if i = 0 then reduced g r i else final g r i)) = Inr (final g r i)"
  by (cases "operations g ! r")
    (simp_all add: root_transform_def final_def reduced_def make_synchronizer_def)

lemma final_result:
  assumes "r < length (operations g)"
  shows "operation_result (operations g ! r) (Inr (final g r i)) = Inr (tree_results g ! r)"
proof -
  have "tree_results g ! r = op_outcome (operations g ! r) (round_value g r 0)"
    using results_of_nth [OF assms, of _ _ "[]"] by (simp add: tree_results_def round_value_def)
  then show ?thesis
    by (cases "operations g ! r") (simp_all add: operation_result_def final_def op_outcome_def opt_value_def)
qed

section \<open>The invariant\<close>

text \<open>A thread has entered its operation's wait for the broadcast, or has left it behind.\<close>

definition before_wait :: "sync_point \<Rightarrow> bool" where
  "before_wait l \<longleftrightarrow> (case l of Outside \<Rightarrow> True | AwaitCollecting ks \<Rightarrow> True | Collecting ks \<Rightarrow> True
     | Publish \<Rightarrow> True | ResetBroadcasting \<Rightarrow> True | NotifyCollecting \<Rightarrow> True | _ \<Rightarrow> False)"

definition after_wait :: "sync_point \<Rightarrow> bool" where
  "after_wait l \<longleftrightarrow> (case l of Withdraw \<Rightarrow> True | Transform \<Rightarrow> True | Broadcasting ph ks \<Rightarrow> True | _ \<Rightarrow> False)"

lemma wait_simps [simp]:
  "before_wait Outside" "before_wait (AwaitCollecting ks)" "before_wait (Collecting ks)" "before_wait Publish"
  "before_wait ResetBroadcasting" "before_wait NotifyCollecting" "\<not> before_wait AwaitBroadcasting"
  "\<not> before_wait Withdraw" "\<not> before_wait Transform" "\<not> before_wait (Broadcasting ph ks)"
  "\<not> after_wait Outside" "\<not> after_wait (AwaitCollecting ks)" "\<not> after_wait (Collecting ks)" "\<not> after_wait Publish"
  "\<not> after_wait ResetBroadcasting" "\<not> after_wait NotifyCollecting" "\<not> after_wait AwaitBroadcasting"
  "after_wait Withdraw" "after_wait Transform" "after_wait (Broadcasting ph ks)"
  by (simp_all add: before_wait_def after_wait_def)

text \<open>
  What a thread holds of a subordinate thread \<^verbatim>\<open>k\<close>: nothing, its data, which it is going to read or
  has read, the data after writing the result, or the data with the first signal reset.
\<close>

datatype hold = Free | Held | Written | Cleared

fun hold_of :: "sync_point \<Rightarrow> int \<Rightarrow> hold" where
  "hold_of Outside k = Free"
| "hold_of (AwaitCollecting ks) k = (if k \<in> set ks then Free else Held)"
| "hold_of (Collecting ks) k = (if k \<in> set (tl ks) then Free else Held)"
| "hold_of (Broadcasting ph ks) k =
     (if k \<notin> set ks then Free
      else if k = hd ks then (case ph of WriteData \<Rightarrow> Held | ResetCollecting \<Rightarrow> Written | NotifyBroadcasting \<Rightarrow> Cleared)
      else Held)"
| "hold_of l k = Held"

text \<open>The number of operations whose broadcast has reached \<^verbatim>\<open>k\<close>.\<close>

definition delivered :: "'v sync_thread \<Rightarrow> int \<Rightarrow> nat" where
  "delivered t k = length (results t)
     + (case point t of Broadcasting ph ks \<Rightarrow> if k \<in> set ks then 0 else 1 | _ \<Rightarrow> 0)"

definition edge_cond :: "'v sync_task \<Rightarrow> hold \<Rightarrow> nat \<Rightarrow> int \<Rightarrow> 'v sync_thread \<Rightarrow> bool" where
  "edge_cond g h d k t \<longleftrightarrow>
     (let r = length (results t);
          collecting = signalCollecting t; broadcasting = signalBroadcasting t;
          waiting = (point t = AwaitBroadcasting) in
      case h of
        Free \<Rightarrow>
          (d = r \<and> collecting = 0 \<and> before_wait (point t))
        \<or> (d = r \<and> waiting \<and> collecting = 1 \<and> broadcasting = 0 \<and> synchronizer t = Some (reduced g r k))
        \<or> (d = Suc r \<and> collecting = 0 \<and> waiting \<and> broadcasting = 1 \<and> synchronizer t = Some (final g r k))
        \<or> (d = Suc r \<and> collecting = 0 \<and> after_wait (point t))
      | Held \<Rightarrow> d = r \<and> waiting \<and> collecting = 1 \<and> broadcasting = 0 \<and> synchronizer t = Some (reduced g r k)
      | Written \<Rightarrow> d = r \<and> waiting \<and> collecting = 1 \<and> broadcasting = 0 \<and> synchronizer t = Some (final g r k)
      | Cleared \<Rightarrow> d = r \<and> waiting \<and> collecting = 0 \<and> broadcasting = 0 \<and> synchronizer t = Some (final g r k))"

definition node_data :: "'v sync_task \<Rightarrow> int \<Rightarrow> 'v sync_thread \<Rightarrow> bool" where
  "node_data g i t \<longleftrightarrow>
     (let r = length (results t); n = squad_size g; c = running g in
      case point t of
        Outside \<Rightarrow> synchronizer t = None
      | AwaitCollecting ks \<Rightarrow>
          (\<exists>cs. up_kids n i c = cs @ ks \<and> synchronizer t = Some (partial_data g r i cs))
      | Collecting ks \<Rightarrow>
          ks \<noteq> [] \<and> (\<exists>cs. up_kids n i c = cs @ ks \<and> synchronizer t = Some (partial_data g r i cs))
      | Publish \<Rightarrow> 0 < i \<and> synchronizer t = Some (reduced g r i)
      | ResetBroadcasting \<Rightarrow> 0 < i \<and> synchronizer t = Some (reduced g r i)
      | NotifyCollecting \<Rightarrow> 0 < i \<and> synchronizer t = Some (reduced g r i) \<and> signalBroadcasting t = 0
      | AwaitBroadcasting \<Rightarrow> 0 < i
      | Withdraw \<Rightarrow> 0 < i \<and> synchronizer t = Some (final g r i)
      | Transform \<Rightarrow> synchronizer t = Some (if i = 0 then reduced g r i else final g r i)
      | Broadcasting ph ks \<Rightarrow>
          (ph \<noteq> WriteData \<longrightarrow> ks \<noteq> []) \<and> (\<exists>cs. down_kids n i c = cs @ ks) \<and> synchronizer t = Some (final g r i))"

definition node_cond :: "'v sync_task \<Rightarrow> int \<Rightarrow> 'v sync_thread \<Rightarrow> bool" where
  "node_cond g i t \<longleftrightarrow>
     length (results t) \<le> length (operations g)
   \<and> results t = take (length (results t)) (tree_results g)
   \<and> (point t \<noteq> Outside \<longrightarrow> length (results t) < length (operations g))
   \<and> syncData t = (if point t \<in> {ResetBroadcasting, NotifyCollecting, AwaitBroadcasting, Withdraw}
                   then sync_data (current_op g t) i else None)
   \<and> node_data g i t"

definition sync_inv :: "'v sync_task \<Rightarrow> (int \<Rightarrow> 'v sync_thread) \<Rightarrow> bool" where
  "sync_inv g T \<longleftrightarrow> tree_inv (\<lambda>i. down_kids (squad_size g) i (squad_size g)) (squad_size g)
     (\<lambda>i t. i < running g \<longrightarrow> node_cond g i t)
     (\<lambda>p k t. k < running g \<longrightarrow> edge_cond g (hold_of (point p) k) (delivered p k) k t) T"

lemma sync_taskD:
  assumes "sync_task_ok g"
  shows "tree_exact (squad_size g)" "1 \<le> running g" "running g \<le> squad_size g" "1 \<le> squad_size g"
    "squad_strides (squad_size g) = Some (strides g)"
  using assms by (auto simp: sync_task_ok_def)

lemma sync_traversals:
  assumes "sync_task_ok g" "0 \<le> i" "i < running g"
  shows "to_subthreads (strides g) i (running g) = Some (down_kids (squad_size g) i (running g))"
    "from_subthreads (strides g) i (running g) = Some (up_kids (squad_size g) i (running g))"
proof -
  note d = sync_taskD [OF assms(1)]
  have i: "i < squad_size g" using d(3) assms(3) by simp
  show "to_subthreads (strides g) i (running g) = Some (down_kids (squad_size g) i (running g))"
    "from_subthreads (strides g) i (running g) = Some (up_kids (squad_size g) i (running g))"
    using subthreads_eq [OF d(4,5) assms(2) i] by auto
qed

lemma sync_inv_node: 
  assumes "sync_inv g T" "sync_task_ok g" "0 \<le> i" "i < running g"
  shows "node_cond g i (T i)"
  using tree_inv_node [OF assms(1) [unfolded sync_inv_def] assms(3)] assms(4) sync_taskD(3) [OF assms(2)] by simp

lemma sync_inv_edge:
  assumes "sync_inv g T" "sync_task_ok g" "0 \<le> i" "k \<in> set (down_kids (squad_size g) i (running g))"
  shows "edge_cond g (hold_of (point (T i)) k) (delivered (T i) k) k (T k)"
proof -
  have k: "k < running g" "k \<in> set (down_kids (squad_size g) i (squad_size g))" "i < k"
    using assms(4) tree.kid_iff [OF sync_taskD(3) [OF assms(2)]] tree.bounds by auto
  then show ?thesis
    using tree_inv_edge [OF assms(1) [unfolded sync_inv_def] assms(3) _ k(2)] sync_taskD(3) [OF assms(2)] by simp
qed

text \<open>Preservation by a step that changes one thread, or a thread and a subordinate thread.\<close>

lemma sync_inv_one:
  assumes inv: "sync_inv g T" and ok: "sync_task_ok g" and i: "0 \<le> i" "i < running g"
    and node: "node_cond g i t"
    and kids: "\<And>k. k \<in> set (down_kids (squad_size g) i (running g)) \<Longrightarrow>
      edge_cond g (hold_of (point (T i)) k) (delivered (T i) k) k (T k) \<Longrightarrow>
      edge_cond g (hold_of (point t) k) (delivered t k) k (T k)"
    and up: "\<And>h d. edge_cond g h d i (T i) \<Longrightarrow> edge_cond g h d i t"
  shows "sync_inv g (T(i := t))"
  unfolding sync_inv_def
proof (rule tree.tree_inv_update_one [OF inv [unfolded sync_inv_def]])
  show "i < squad_size g" using i sync_taskD(3) [OF ok] by simp
  fix k assume "k \<in> set (down_kids (squad_size g) i (squad_size g))"
    "k < running g \<longrightarrow> edge_cond g (hold_of (point (T i)) k) (delivered (T i) k) k (T k)"
  then show "k < running g \<longrightarrow> edge_cond g (hold_of (point t) k) (delivered t k) k (T k)"
    using kids [of k] tree.kid_iff [OF sync_taskD(3) [OF ok]] by blast
qed (use node i up sync_taskD(1) [OF ok] in auto)

lemma sync_inv_two:
  assumes inv: "sync_inv g T" and ok: "sync_task_ok g" and i: "0 \<le> i" "i < running g"
    and k: "k \<in> set (down_kids (squad_size g) i (running g))"
    and nodes: "node_cond g i t" "node_cond g k u"
    and edge: "edge_cond g (hold_of (point t) k) (delivered t k) k u"
    and kids: "\<And>j. j \<in> set (down_kids (squad_size g) i (running g)) \<Longrightarrow> j \<noteq> k \<Longrightarrow>
      hold_of (point t) j = hold_of (point (T i)) j \<and> delivered t j = delivered (T i) j"
    and up: "\<And>h d. edge_cond g h d i (T i) \<Longrightarrow> edge_cond g h d i t"
    and same: "point u = point (T k)" "results u = results (T k)"
  shows "sync_inv g (T(i := t, k := u))"
  unfolding sync_inv_def
proof (rule tree.tree_inv_update_two [OF inv [unfolded sync_inv_def] _ i(1)])
  show "i < squad_size g" using i sync_taskD(3) [OF ok] by simp
  show "k \<in> set (down_kids (squad_size g) i (squad_size g))"
    using k tree.kid_iff [OF sync_taskD(3) [OF ok]] by blast
  fix j assume "j \<in> set (down_kids (squad_size g) i (squad_size g))" "j \<noteq> k"
    "j < running g \<longrightarrow> edge_cond g (hold_of (point (T i)) j) (delivered (T i) j) j (T j)"
  then show "j < running g \<longrightarrow> edge_cond g (hold_of (point t) j) (delivered t j) j (T j)"
    using kids [of j] tree.kid_iff [OF sync_taskD(3) [OF ok]] by auto
next
  fix j assume "j < running g \<longrightarrow> edge_cond g (hold_of (point (T k)) j) (delivered (T k) j) j (T j)"
  then show "j < running g \<longrightarrow> edge_cond g (hold_of (point u) j) (delivered u j) j (T j)"
    using same by (simp add: delivered_def)
qed (use nodes edge up sync_taskD(1) [OF ok] in auto)

lemma sync_inv_start:
  "sync_inv g (sync_start b)"
  by (simp add: sync_inv_def tree_inv_def sync_start_def node_cond_def node_data_def edge_cond_def delivered_def)

end
