(* ===== verification/Squad_Sync_Steps.thy ===== *)
theory Squad_Sync_Steps
  imports Squad_Sync_Invariant
begin

text \<open>
  Every step of the synchronization protocol succeeds or waits, and preserves the invariant: one
  lemma per point of \<^verbatim>\<open>synchronize_collect()\<close> and \<^verbatim>\<open>synchronize_broadcast()\<close>.
\<close>

text \<open>A step from a state that satisfies the invariant does not fail and leads to one that does.\<close>

definition safe_outcome :: "'v sync_task \<Rightarrow> 'v sync_outcome \<Rightarrow> bool" where
  "safe_outcome g x = (case x of Waits \<Rightarrow> True | Fails e \<Rightarrow> False | Moves T' \<Rightarrow> sync_inv g T')"

lemma safe_outcome_simps [simp]:
  "safe_outcome g Waits" "\<not> safe_outcome g (Fails e)" "safe_outcome g (Moves T') = sync_inv g T'"
  by (simp_all add: safe_outcome_def)

lemma moves_simps [simp]: "moves (Inr x) f = Moves (f x)" "moves (Inl e) f = Fails e"
  by (simp_all add: moves_def)

lemma sync_toggle [simp]: "toggle_value 0 = 1"
  by (simp add: toggle_value_def)

lemmas node_simps = node_cond_def node_data_def current_op_def Let_def

text \<open>A thread's condition as a subordinate thread does not change before its wait.\<close>

lemma edge_before:
  "edge_cond g h d k t \<Longrightarrow> before_wait (point t) \<Longrightarrow> h = Free \<and> d = length (results t) \<and> signalCollecting t = 0"
  by (auto simp: edge_cond_def Let_def before_wait_def after_wait_def split: hold.splits sync_point.splits)

lemma edge_keep_before:
  assumes "edge_cond g h d k t" "before_wait (point t)" "before_wait (point u)" "results u = results t"
    and "signalCollecting u = 0"
  shows "edge_cond g h d k u"
  using edge_before [OF assms(1,2)] assms(3-5) by (simp add: edge_cond_def Let_def)

lemma edge_keep_after:
  assumes "edge_cond g h d k t" "after_wait (point t)" "after_wait (point u)" "results u = results t"
    and "signalCollecting u = signalCollecting t"
  shows "edge_cond g h d k u"
  using assms by (auto simp: edge_cond_def Let_def before_wait_def after_wait_def
      split: hold.splits sync_point.splits)

lemma edge_collecting_0:
  "edge_cond g h d k t \<Longrightarrow> before_wait (point t) \<or> after_wait (point t) \<Longrightarrow> signalCollecting t = 0"
  by (auto simp: edge_cond_def Let_def split: hold.splits)

text \<open>What it means for the threads below that a thread moves without passing any of them.\<close>

lemma same_hold:
  assumes "edge_cond g (hold_of (point s) k) (delivered s k) k (T k)"
    and "hold_of (point t) k = hold_of (point s) k" "delivered t k = delivered s k"
  shows "edge_cond g (hold_of (point t) k) (delivered t k) k (T k)"
  using assms by simp

text \<open>The situation of a step: a thread that executes the task, in a state that satisfies the invariant.\<close>

definition sync_at :: "'v sync_task \<Rightarrow> (int \<Rightarrow> 'v sync_thread) \<Rightarrow> int \<Rightarrow> bool" where
  "sync_at g T i \<longleftrightarrow> sync_inv g T \<and> sync_task_ok g \<and> 0 \<le> i \<and> i < running g"

lemma sync_atD:
  assumes "sync_at g T i"
  shows "sync_inv g T" "sync_task_ok g" "0 \<le> i" "i < running g"
  using assms by (simp_all add: sync_at_def)

lemma node_i: "sync_at g T i \<Longrightarrow> node_cond g i (T i)"
  by (rule sync_inv_node [OF sync_atD])

lemma kid_bounds:
  assumes at: "sync_at g T i" and "k \<in> set (down_kids (squad_size g) i (running g))"
  shows "i < k" "k < running g" "k < squad_size g" "0 \<le> k" "i < squad_size g"
  using tree.bounds [OF assms(2)] sync_taskD(3) [OF sync_atD(2) [OF at]] sync_atD(3,4) [OF at] by auto

lemma up_kid: "k \<in> set (up_kids (squad_size g) i (running g)) \<longleftrightarrow> k \<in> set (down_kids (squad_size g) i (running g))"
  by (simp add: tree.set_up)

lemma distinct_kids:
  assumes at: "sync_at g T i"
  shows "distinct (down_kids (squad_size g) i (running g))" "distinct (up_kids (squad_size g) i (running g))"
  using tree.distinct_dn tree.distinct_upw sync_taskD(1,3) [OF sync_atD(2) [OF at]] sync_atD(3) [OF at] by auto

lemmas edge_i = sync_inv_edge [OF sync_atD(1-3)]

lemma node_kid:
  assumes at: "sync_at g T i" and k: "k \<in> set (down_kids (squad_size g) i (running g))"
  shows "node_cond g k (T k)"
  using sync_inv_node [OF sync_atD(1,2) [OF at], of k] kid_bounds [OF at k] by simp

lemma enter_step:
  assumes at: "sync_at g T i" and "point (T i) = Outside"
  shows "safe_outcome g (enter_operation g i T)"
proof (cases "length (results (T i)) < length (operations g)")
  case True
  let ?ks = "up_kids (squad_size g) i (running g)"
  let ?t = "(T i)\<lparr>synchronizer := Some (make_synchronizer (current_op g (T i)) (contribution g (results (T i)) i)),
    point := AwaitCollecting ?ks\<rparr>"
  have "sync_inv g (T(i := ?t))"
  proof (rule sync_inv_one [OF sync_atD [OF at]])
    have "results (T i) = take (length (results (T i))) (tree_results g)"
      using node_i [OF at] by (simp add: node_cond_def)
    then have "contribution g (results (T i)) i = contribution g (take (length (results (T i))) (tree_results g)) i"
      by metis
    then show "node_cond g i ?t"
      using node_i [OF at] True assms by (simp add: node_simps partial_data_def)
    show "edge_cond g h d i ?t" if "edge_cond g h d i (T i)" for h d
      using edge_keep_before [OF that] edge_before [OF that] assms by simp
  qed (use assms in \<open>simp add: delivered_def up_kid\<close>)
  then show ?thesis using True by (simp add: enter_operation_def sync_traversals [OF sync_atD(2-4) [OF at]])
qed (simp add: enter_operation_def)

lemma collect_wait_step:
  assumes at: "sync_at g T i" and "point (T i) = AwaitCollecting (k # ks)"
  shows "safe_outcome g (collect_wait g i k ks T)"
proof -
  have nd: "\<exists>cs. up_kids (squad_size g) i (running g) = cs @ k # ks"
    using node_i [OF at] assms by (auto simp: node_simps)
  then have k: "k \<in> set (down_kids (squad_size g) i (running g))" using up_kid by (metis in_set_conv_decomp)
  have dist: "k \<notin> set ks" using nd distinct_kids(2) [OF at] by auto
  have "sync_inv g (T(i := (T i)\<lparr>point := Collecting (k # ks)\<rparr>))" if c: "signalCollecting (T k) \<noteq> 0"
  proof (rule sync_inv_one [OF sync_atD [OF at]])
    show "node_cond g i ((T i)\<lparr>point := Collecting (k # ks)\<rparr>)"
      using node_i [OF at] assms by (simp add: node_simps)
    fix j assume j: "edge_cond g (hold_of (point (T i)) j) (delivered (T i) j) j (T j)"
    show "edge_cond g (hold_of (point ((T i)\<lparr>point := Collecting (k # ks)\<rparr>)) j)
        (delivered ((T i)\<lparr>point := Collecting (k # ks)\<rparr>) j) j (T j)"
      using j assms c dist by (cases "j = k") (auto simp: delivered_def edge_cond_def Let_def)
  next
    show "edge_cond g h d i ((T i)\<lparr>point := Collecting (k # ks)\<rparr>)" if "edge_cond g h d i (T i)" for h d
      using edge_keep_before [OF that] edge_before [OF that] assms by simp
  qed
  then show ?thesis using kid_bounds [OF at k] by (simp add: collect_wait_def sync_access_def at_point_def)
qed

lemma collect_read_step:
  assumes at: "sync_at g T i" and "point (T i) = Collecting (k # ks)"
  shows "safe_outcome g (collect_read g i k ks T)"
proof -
  let ?r = "length (results (T i))"
  obtain cs where cs: "up_kids (squad_size g) i (running g) = cs @ k # ks"
      "synchronizer (T i) = Some (partial_data g ?r i cs)"
    using node_i [OF at] assms by (auto simp: node_simps)
  then have k: "k \<in> set (down_kids (squad_size g) i (running g))" using up_kid by (metis in_set_conv_decomp)
  have dist: "k \<notin> set ks" using cs(1) distinct_kids(2) [OF at] by auto
  have e: "point (T k) = AwaitBroadcasting" "length (results (T k)) = ?r"
      "synchronizer (T k) = Some (reduced g ?r k)"
    using edge_i [OF at at at k] assms dist by (auto simp: edge_cond_def Let_def delivered_def)
  have src: "deref T (syncData (T k)) = Inr (reduced g ?r k)" if "operations g ! ?r \<noteq> Synchronize"
    using node_kid [OF at k] e that
    by (cases "operations g ! ?r") (simp_all add: node_simps virtual_calls deref_def)
  have col: "synchronizer_collect (current_op g (T i)) (deref T (Some i)) (deref T (syncData (T k)))
      = Inr (partial_data g ?r i (cs @ [k]))"
    using collect_partial [of "deref T (Some i)" g ?r i cs, OF _ src] cs(2) by (simp add: current_op_def deref_def)
  let ?t = "(T i)\<lparr>synchronizer := Some (partial_data g ?r i (cs @ [k])), point := AwaitCollecting ks\<rparr>"
  have "sync_inv g (T(i := ?t))"
  proof (rule sync_inv_one [OF sync_atD [OF at]])
    show "node_cond g i ?t" using node_i [OF at] assms cs by (auto simp: node_simps)
    show "edge_cond g (hold_of (point ?t) j) (delivered ?t j) j (T j)"
      if "edge_cond g (hold_of (point (T i)) j) (delivered (T i) j) j (T j)" for j
      using that assms by (simp add: delivered_def split: if_splits)
    show "edge_cond g h d i ?t" if "edge_cond g h d i (T i)" for h d
      using edge_keep_before [OF that] edge_before [OF that] assms by simp
  qed
  then show ?thesis
    using kid_bounds [OF at k] col by (simp add: collect_read_def sync_access_def at_point_def fun_upd_upd)
qed

lemma collected_step:
  assumes at: "sync_at g T i" and "point (T i) = AwaitCollecting []"
  shows "sync_inv g (at_point i (if 0 < i then Publish else Transform) T)"
proof -
  let ?t = "(T i)\<lparr>point := if 0 < i then Publish else Transform\<rparr>"
  have r: "synchronizer (T i) = Some (reduced g (length (results (T i))) i)"
    using node_i [OF at] assms partial_data_all [of g "length (results (T i))" i] by (auto simp: node_simps)
  have "sync_inv g (T(i := ?t))"
  proof (cases "0 < i")
    case True
    show ?thesis
    proof (rule sync_inv_one [OF sync_atD [OF at]])
      show "node_cond g i ?t" using node_i [OF at] assms r True by (simp add: node_simps)
      show "edge_cond g h d i ?t" if "edge_cond g h d i (T i)" for h d
        using edge_keep_before [OF that] edge_before [OF that] assms True by simp
    qed (use assms True in \<open>simp add: delivered_def\<close>)
  next
    case False
    then have i0: "i = 0" using sync_atD(3) [OF at] by simp
    show ?thesis
      unfolding sync_inv_def i0
    proof (rule tree.tree_inv_update_root [OF sync_atD(1) [OF at, unfolded sync_inv_def] sync_taskD(1) [OF sync_atD(2) [OF at]]])
      show "0 < running g \<longrightarrow> node_cond g 0 ((T 0)\<lparr>point := if 0 < (0::int) then Publish else Transform\<rparr>)"
        using node_i [OF at] assms r i0 by (simp add: node_simps)
    qed (use assms i0 in \<open>simp add: delivered_def\<close>)
  qed
  then show ?thesis by (simp add: at_point_def)
qed

lemma publish_step:
  assumes at: "sync_at g T i" and "point (T i) = Publish"
  shows "sync_inv g (T(i := (T i)\<lparr>syncData := sync_data (current_op g (T i)) i, point := ResetBroadcasting\<rparr>))"
proof (rule sync_inv_one [OF sync_atD [OF at]])
  let ?t = "(T i)\<lparr>syncData := sync_data (current_op g (T i)) i, point := ResetBroadcasting\<rparr>"
  show "node_cond g i ?t" using node_i [OF at] assms by (simp add: node_simps)
  show "edge_cond g h d i ?t" if "edge_cond g h d i (T i)" for h d
    using edge_keep_before [OF that] edge_before [OF that] assms by simp
qed (use assms in \<open>simp add: delivered_def\<close>)

lemma reset_broadcasting_step:
  assumes at: "sync_at g T i" and "point (T i) = ResetBroadcasting"
  shows "sync_inv g (T(i := (T i)\<lparr>signalBroadcasting := 0, point := NotifyCollecting\<rparr>))"
proof (rule sync_inv_one [OF sync_atD [OF at]])
  let ?t = "(T i)\<lparr>signalBroadcasting := 0, point := NotifyCollecting\<rparr>"
  show "node_cond g i ?t" using node_i [OF at] assms by (simp add: node_simps)
  show "edge_cond g h d i ?t" if "edge_cond g h d i (T i)" for h d
    using edge_keep_before [OF that] edge_before [OF that] assms by simp
qed (use assms in \<open>simp add: delivered_def\<close>)

text \<open>A thread with a superordinate thread satisfies some condition as its subordinate thread.\<close>

lemma superordinate:
  assumes at: "sync_at g T i" and "0 < i"
  obtains h d where "edge_cond g h d i (T i)"
proof -
  have "1 \<le> i" using assms by simp
  then obtain p where "0 \<le> p" "p < i" "i \<in> set (down_kids (squad_size g) p (running g))"
    using tree.parent_exists sync_taskD(1,3) [OF sync_atD(2) [OF at]] sync_atD(4) [OF at] by metis
  then show ?thesis using that sync_inv_edge [OF sync_atD(1,2) [OF at]] by blast
qed

lemma notify_collecting_step:
  assumes at: "sync_at g T i" and "point (T i) = NotifyCollecting"
  shows "signalCollecting (T i) = 0"
    and "sync_inv g (T(i := (T i)\<lparr>signalCollecting := 1, point := AwaitBroadcasting\<rparr>))"
proof -
  let ?t = "(T i)\<lparr>signalCollecting := 1, point := AwaitBroadcasting\<rparr>"
  have pos: "0 < i" using node_i [OF at] assms by (simp add: node_simps)
  then show "signalCollecting (T i) = 0" using superordinate [OF at] edge_before assms wait_simps(6) by metis
  show "sync_inv g (T(i := ?t))"
  proof (rule sync_inv_one [OF sync_atD [OF at]])
    show "node_cond g i ?t" using node_i [OF at] assms by (simp add: node_simps)
    show "edge_cond g h d i ?t" if "edge_cond g h d i (T i)" for h d
      using edge_before [OF that] assms node_i [OF at] by (simp add: edge_cond_def node_simps)
  qed (use assms in \<open>simp add: delivered_def\<close>)
qed

lemma await_broadcasting_step:
  assumes at: "sync_at g T i" and "point (T i) = AwaitBroadcasting" "signalBroadcasting (T i) \<noteq> 0"
  shows "sync_inv g (at_point i Withdraw T)"
  unfolding at_point_def
proof (rule sync_inv_one [OF sync_atD [OF at]])
  let ?t = "(T i)\<lparr>point := Withdraw\<rparr>"
  have pos: "0 < i" using node_i [OF at] assms by (simp add: node_simps)
  then obtain h d where e: "edge_cond g h d i (T i)" using superordinate [OF at] by blast
  show "node_cond g i ?t" using node_i [OF at] assms e
    by (auto simp: node_simps edge_cond_def split: hold.splits)
  show "edge_cond g h d i ?t" if "edge_cond g h d i (T i)" for h d
    using that assms by (auto simp: edge_cond_def Let_def split: hold.splits)
qed (use assms in \<open>simp add: delivered_def\<close>)

lemma withdraw_step:
  assumes at: "sync_at g T i" and "point (T i) = Withdraw"
  shows "sync_inv g (T(i := (T i)\<lparr>syncData := None, point := Transform\<rparr>))"
proof (rule sync_inv_one [OF sync_atD [OF at]])
  let ?t = "(T i)\<lparr>syncData := None, point := Transform\<rparr>"
  show "node_cond g i ?t" using node_i [OF at] assms by (simp add: node_simps)
  show "edge_cond g h d i ?t" if "edge_cond g h d i (T i)" for h d
    by (rule edge_keep_after [OF that]) (simp_all add: assms)
qed (use assms in \<open>simp add: delivered_def\<close>)

lemma transform_step:
  assumes at: "sync_at g T i" and "point (T i) = Transform"
  shows "safe_outcome g (enter_broadcast g i T)"
proof -
  let ?r = "length (results (T i))" and ?ks = "down_kids (squad_size g) i (running g)"
  let ?t = "(T i)\<lparr>synchronizer := Some (final g ?r i), point := Broadcasting WriteData ?ks\<rparr>"
  have "deref T (Some i) = Inr (if i = 0 then reduced g ?r i else final g ?r i)"
    using node_i [OF at] assms by (simp add: node_simps deref_def)
  then have d: "root_transform (current_op g (T i)) i (deref T (Some i)) = Inr (final g ?r i)"
    using root_transform_final [of g ?r i] by (simp only: current_op_def)
  have "sync_inv g (T(i := ?t))"
  proof (rule sync_inv_one [OF sync_atD [OF at]])
    show "node_cond g i ?t" using node_i [OF at] assms by (simp add: node_simps)
    show "edge_cond g h d i ?t" if "edge_cond g h d i (T i)" for h d
      by (rule edge_keep_after [OF that]) (simp_all add: assms)
    show "edge_cond g (hold_of (point ?t) j) (delivered ?t j) j (T j)"
      if "j \<in> set ?ks" "edge_cond g (hold_of (point (T i)) j) (delivered (T i) j) j (T j)" for j
      using that assms by (auto simp: delivered_def)
  qed
  then show ?thesis using d by (simp add: enter_broadcast_def sync_traversals [OF sync_atD(2-4) [OF at]])
qed

lemma leave_step:
  assumes at: "sync_at g T i" and "point (T i) = Broadcasting ph []"
  shows "safe_outcome g (leave_operation g i T)"
proof -
  let ?r = "length (results (T i))"
  let ?t = "(T i)\<lparr>results := results (T i) @ [tree_results g ! ?r], synchronizer := None, point := Outside\<rparr>"
  have r: "?r < length (operations g)" "results (T i) = take ?r (tree_results g)" and
    s: "synchronizer (T i) = Some (final g ?r i)"
    using node_i [OF at] assms by (simp_all add: node_simps)
  have len: "length (tree_results g) = length (operations g)" by (simp add: tree_results_def)
  have res: "operation_result (current_op g (T i)) (deref T (Some i)) = Inr (tree_results g ! ?r)"
    using final_result [OF r(1), of i] s by (simp add: current_op_def deref_def)
  have tk: "take (Suc ?r) (tree_results g) = results (T i) @ [tree_results g ! ?r]"
    using r len by (metis take_Suc_conv_app_nth)
  have "sync_inv g (T(i := ?t))"
  proof (rule sync_inv_one [OF sync_atD [OF at]])
    show "node_cond g i ?t" using node_i [OF at] assms r(1) tk by (simp add: node_simps)
    show "edge_cond g h d i ?t" if "edge_cond g h d i (T i)" for h d
      using that assms by (auto simp: edge_cond_def Let_def split: hold.splits)
  qed (use assms in \<open>simp add: delivered_def\<close>)
  then show ?thesis using res by (simp add: leave_operation_def)
qed

end
