(* ===== verification/Squad_Sync_Broadcast.thy ===== *)
theory Squad_Sync_Broadcast
  imports Squad_Sync_Steps
begin

text \<open>
  The steps of \<^verbatim>\<open>broadcast_to_thread()\<close>, which change a thread and one of its subordinate threads,
  and the invariant of all reachable states.
\<close>

text \<open>What is known while thread \<^verbatim>\<open>i\<close> is in \<^verbatim>\<open>broadcast_to_thread\<close> of thread \<^verbatim>\<open>k\<close>.\<close>

lemma broadcastingD:
  assumes at: "sync_at g T i" and p: "point (T i) = Broadcasting ph (k # ks)"
  shows "k \<in> set (down_kids (squad_size g) i (running g))" "k \<notin> set ks" "k \<noteq> i" "0 \<le> k" "k < squad_size g"
    "synchronizer (T i) = Some (final g (length (results (T i))) i)"
    "length (results (T k)) = length (results (T i))" "point (T k) = AwaitBroadcasting"
    "signalBroadcasting (T k) = 0" "node_cond g k (T k)"
proof -
  obtain cs where cs: "down_kids (squad_size g) i (running g) = cs @ k # ks"
      "synchronizer (T i) = Some (final g (length (results (T i))) i)"
    using node_i [OF at] p by (auto simp: node_simps)
  then show k: "k \<in> set (down_kids (squad_size g) i (running g))" and "k \<notin> set ks"
    and "synchronizer (T i) = Some (final g (length (results (T i))) i)"
    using distinct_kids(1) [OF at] by auto
  show "length (results (T k)) = length (results (T i))" "point (T k) = AwaitBroadcasting"
      "signalBroadcasting (T k) = 0"
    using edge_i [OF at at at k] p by (auto simp: delivered_def edge_cond_def Let_def split: sync_phase.splits)
  show "k \<noteq> i" "0 \<le> k" "k < squad_size g" using kid_bounds [OF at k] by auto
  show "node_cond g k (T k)" by (rule node_kid [OF at k])
qed

text \<open>The two threads that such a step changes.\<close>

lemma sync_inv_broadcast:
  assumes at: "sync_at g T i" and p: "point (T i) = Broadcasting ph (k # ks)"
    and t: "t = (T i)\<lparr>point := Broadcasting ph' ks'\<rparr>" and ks': "ks' = k # ks \<or> ks' = ks \<and> ph' = WriteData"
    and u: "point u = AwaitBroadcasting" "results u = results (T k)" "syncData u = syncData (T k)"
    and edge: "edge_cond g (hold_of (point t) k) (delivered t k) k u"
  shows "sync_inv g (T(k := u, i := t))"
proof -
  note b = broadcastingD [OF at p]
  have "sync_inv g (T(i := t, k := u))"
  proof (rule sync_inv_two [OF sync_atD [OF at] b(1)])
    have "\<exists>cs. down_kids (squad_size g) i (running g) = cs @ ks'"
    proof -
      obtain cs where "down_kids (squad_size g) i (running g) = cs @ k # ks"
        using node_i [OF at] p by (auto simp: node_simps)
      then have "down_kids (squad_size g) i (running g) = cs @ ks' \<or> down_kids (squad_size g) i (running g) = (cs @ [k]) @ ks'"
        using ks' by auto
      then show ?thesis by blast
    qed
    then show "node_cond g i t" using node_i [OF at] p t ks' by (auto simp: node_simps)
    show "node_cond g k u" using b(8,10) u by (simp add: node_simps)
    show "hold_of (point t) j = hold_of (point (T i)) j \<and> delivered t j = delivered (T i) j" if "j \<noteq> k" for j
      using that ks' p b(2) by (auto simp: t delivered_def split: sync_phase.splits)
    show "edge_cond g h d i t" if "edge_cond g h d i (T i)" for h d
      by (rule edge_keep_after [OF that]) (simp_all add: p t)
  qed (use edge b u in auto)
  then show ?thesis using b(3) by (simp add: fun_upd_twist)
qed

lemma broadcast_write_step:
  assumes at: "sync_at g T i" and p: "point (T i) = Broadcasting WriteData (k # ks)"
  shows "safe_outcome g (broadcast_write g i k ks T)"
proof -
  note b = broadcastingD [OF at p]
  let ?r = "length (results (T i))" and ?op = "operations g ! length (results (T i))"
  let ?u = "(T k)\<lparr>synchronizer := Some (final g ?r k)\<rparr>"
  let ?t = "(T i)\<lparr>point := Broadcasting ResetCollecting (k # ks)\<rparr>"
  have e: "signalCollecting (T k) = 1" "synchronizer (T k) = Some (reduced g ?r k)"
    using edge_i [OF at at at b(1)] p by (auto simp: edge_cond_def Let_def delivered_def)
  have ptr: "syncData (T k) = sync_data ?op k" using b(7,8,10) by (simp add: node_simps)
  have dst: "deref T (syncData (T k)) = Inr (reduced g ?r k)" if "?op \<noteq> Synchronize"
    using that e(2) ptr by (cases ?op) (simp_all add: virtual_calls deref_def)
  have br: "synchronizer_broadcast (current_op g (T i)) (deref T (Some i)) (deref T (syncData (T k)))
      = Inr (if ?op = Synchronize then None else Some (final g ?r k))"
    using broadcast_final [of "deref T (Some i)" g ?r i, OF _ dst] b(6) by (simp add: current_op_def deref_def)
  have st: "store (syncData (T k)) (if ?op = Synchronize then None else Some (final g ?r k)) T = T(k := ?u)"
  proof (cases "?op = Synchronize")
    case True
    then have "(T k)\<lparr>synchronizer := Some (final g ?r k)\<rparr> = T k"
      using e(2) reduced_plain [of g ?r k] by simp
    then show ?thesis using True by (simp add: store_def split: option.split)
  next
    case False
    then show ?thesis using ptr by (cases ?op) (simp_all add: virtual_calls store_def)
  qed
  have "sync_inv g (T(k := ?u, i := ?t))"
    by (rule sync_inv_broadcast [OF at p refl]) (use b e in \<open>simp_all add: edge_cond_def delivered_def\<close>)
  then show ?thesis using b(3,4,5) br st by (simp add: broadcast_write_def sync_access_def at_point_def)
qed

lemma broadcast_reset_step:
  assumes at: "sync_at g T i" and p: "point (T i) = Broadcasting ResetCollecting (k # ks)"
  shows "safe_outcome g (broadcast_reset g i k ks T)"
proof -
  note b = broadcastingD [OF at p]
  let ?u = "(T k)\<lparr>signalCollecting := 0\<rparr>"
  let ?t = "(T i)\<lparr>point := Broadcasting NotifyBroadcasting (k # ks)\<rparr>"
  have e: "synchronizer (T k) = Some (final g (length (results (T i))) k)"
    using edge_i [OF at at at b(1)] p by (auto simp: edge_cond_def Let_def delivered_def)
  have "sync_inv g (T(k := ?u, i := ?t))"
    by (rule sync_inv_broadcast [OF at p refl]) (use b e in \<open>simp_all add: edge_cond_def delivered_def\<close>)
  then show ?thesis using b(3,4,5) by (simp add: broadcast_reset_def sync_access_def at_point_def)
qed

lemma broadcast_notify_step:
  assumes at: "sync_at g T i" and p: "point (T i) = Broadcasting NotifyBroadcasting (k # ks)"
  shows "safe_outcome g (broadcast_notify g i k ks T)"
proof -
  note b = broadcastingD [OF at p]
  let ?u = "(T k)\<lparr>signalBroadcasting := 1\<rparr>"
  let ?t = "(T i)\<lparr>point := Broadcasting WriteData ks\<rparr>"
  have e: "signalCollecting (T k) = 0" "synchronizer (T k) = Some (final g (length (results (T i))) k)"
    using edge_i [OF at at at b(1)] p by (auto simp: edge_cond_def Let_def delivered_def)
  have "sync_inv g (T(k := ?u, i := ?t))"
    by (rule sync_inv_broadcast [OF at p refl]) (use b e in \<open>simp_all add: edge_cond_def delivered_def\<close>)
  then show ?thesis using b(3,4,5,9) by (simp add: broadcast_notify_def sync_access_def at_point_def)
qed

section \<open>All reachable states\<close>

lemma sync_step_safe:
  assumes at: "sync_at g T i"
  shows "safe_outcome g (sync_step g i T)"
proof (cases "point (T i)")
  case Outside
  then show ?thesis using enter_step [OF at] by (simp add: sync_step_def)
next
  case (AwaitCollecting ks)
  then show ?thesis using collected_step [OF at] collect_wait_step [OF at]
    by (cases ks) (simp_all add: sync_step_def)
next
  case (Collecting ks)
  then show ?thesis using collect_read_step [OF at] node_i [OF at]
    by (cases ks) (simp_all add: sync_step_def node_simps)
next
  case NotifyCollecting
  then show ?thesis using notify_collecting_step [OF at] by (simp add: sync_step_def)
next
  case Transform
  then show ?thesis using transform_step [OF at] by (simp add: sync_step_def)
next
  case (Broadcasting ph ks)
  show ?thesis
  proof (cases ks)
    case Nil
    then show ?thesis using Broadcasting leave_step [OF at] by (cases ph) (simp_all add: sync_step_def)
  next
    case (Cons k ks')
    then show ?thesis
      using Broadcasting broadcast_write_step [OF at] broadcast_reset_step [OF at] broadcast_notify_step [OF at]
      by (cases ph) (simp_all add: sync_step_def)
  qed
qed (use publish_step [OF at] reset_broadcasting_step [OF at] await_broadcasting_step [OF at] withdraw_step [OF at]
  in \<open>simp_all add: sync_step_def\<close>)

lemma sync_reachable_inv:
  assumes "sync_reachable g b T" "sync_task_ok g"
  shows "sync_inv g T"
  using assms(1)
proof induction
  case start
  show ?case by (rule sync_inv_start)
next
  case (step T i T')
  then have "safe_outcome g (sync_step g i T)" using assms(2) by (intro sync_step_safe) (simp add: sync_at_def)
  then show ?case using step by simp
qed

lemma sync_reachable_at:
  "sync_reachable g b T \<Longrightarrow> sync_task_ok g \<Longrightarrow> 0 \<le> i \<Longrightarrow> i < running g \<Longrightarrow> sync_at g T i"
  using sync_reachable_inv by (auto simp: sync_at_def)

end
