(* ===== verification/Squad_Sync_Properties.thy ===== *)
theory Squad_Sync_Properties
  imports Squad_Sync_Broadcast
begin

text \<open>
  What the synchronization operations promise: they never fault, they are barriers, every thread
  gets the reduction of all threads' values in index order, and they all return.
\<close>

section \<open>Barriers\<close>

text \<open>
  A thread has passed the barrier of operation \<^verbatim>\<open>r\<close> when the broadcast has reached it, and has
  collected in it when it has all its subordinate threads' data.
\<close>

definition passed :: "nat \<Rightarrow> 'v sync_thread \<Rightarrow> bool" where
  "passed r t \<longleftrightarrow> r < length (results t) \<or> length (results t) = r \<and> after_wait (point t)"

definition collected :: "nat \<Rightarrow> 'v sync_thread \<Rightarrow> bool" where
  "collected r t \<longleftrightarrow> r < length (results t)
     \<or> length (results t) = r \<and> (case point t of Outside \<Rightarrow> False | AwaitCollecting ks \<Rightarrow> ks = []
         | Collecting ks \<Rightarrow> False | _ \<Rightarrow> True)"

text \<open>A thread has called operation \<^verbatim>\<open>r\<close>.\<close>

definition entered :: "nat \<Rightarrow> 'v sync_thread \<Rightarrow> bool" where
  "entered r t \<longleftrightarrow> r < length (results t) \<or> length (results t) = r \<and> point t \<noteq> Outside"

lemma collected_entered: "collected r t \<Longrightarrow> entered r t"
  by (auto simp: collected_def entered_def)

lemma passed_up:
  assumes "edge_cond g (hold_of (point p) k) (delivered p k) k t" "passed r t"
  shows "passed r p"
proof -
  have d: "r < delivered p k"
    using assms by (auto simp: passed_def edge_cond_def Let_def before_wait_def after_wait_def
        split: hold.splits sync_point.splits)
  show ?thesis
  proof (cases "r < length (results p)")
    case False
    then have "\<exists>ph ks. point p = Broadcasting ph ks \<and> length (results p) = r" using d
      by (auto simp: delivered_def split: sync_point.splits if_splits)
    then show ?thesis by (auto simp: passed_def)
  qed (simp add: passed_def)
qed

lemma collected_down:
  assumes "edge_cond g (hold_of (point p) k) (delivered p k) k t" "collected r p"
  shows "collected r t"
proof (cases "hold_of (point p) k = Free")
  case True
  then have "r < delivered p k" using assms(2)
    by (auto simp: collected_def delivered_def split: sync_point.splits sync_phase.splits if_splits)
  then show ?thesis using assms(1) True
    by (auto simp: edge_cond_def Let_def collected_def after_wait_def split: sync_point.splits)
next
  case False
  then have "r \<le> length (results t)" "point t = AwaitBroadcasting" using assms
    by (auto simp: edge_cond_def Let_def collected_def delivered_def split: hold.splits sync_point.splits if_splits)
  then show ?thesis by (auto simp: collected_def)
qed

lemma passed_root:
  assumes inv: "sync_inv g T" and ok: "sync_task_ok g" and i: "0 \<le> i" "i < running g" and p: "passed r (T i)"
  shows "passed r (T 0)"
  using i p
proof (induction "nat i" arbitrary: i rule: less_induct)
  case less
  show ?case
  proof (cases "i = 0")
    case False
    then have "1 \<le> i" using less.prems by simp
    then obtain p where p: "0 \<le> p" "p < i" "i \<in> set (down_kids (squad_size g) p (running g))"
      using tree.parent_exists sync_taskD(1,3) [OF ok] less.prems(2) by metis
    have "passed r (T p)" by (rule passed_up [OF sync_inv_edge [OF inv ok p(1,3)] less.prems(3)])
    then show ?thesis using less.hyps [of p] p less.prems by simp
  qed (use less in simp)
qed

lemma passed_all:
  assumes inv: "sync_inv g T" and ok: "sync_task_ok g" and i: "0 \<le> i" "i < running g" and p: "passed r (T i)"
    and j: "0 \<le> j" "j < running g"
  shows "collected r (T j)"
proof (rule tree.tree_induct [OF sync_taskD(1,3) [OF ok] j, of "\<lambda>j. collected r (T j)"])
  show "collected r (T 0)" using passed_root [OF inv ok i p]
    by (auto simp: passed_def collected_def after_wait_def split: sync_point.splits)
  fix q t assume "0 \<le> q" "collected r (T q)" "t \<in> set (down_kids (squad_size g) q (running g))"
  then show "collected r (T t)" using collected_down [OF sync_inv_edge [OF inv ok]] by blast
qed

section \<open>Progress\<close>

text \<open>The steps that a thread has still to make.\<close>

definition steps_per_operation :: "'v sync_task \<Rightarrow> nat" where
  "steps_per_operation g = 5 * nat (running g) + 9"

fun point_steps :: "nat \<Rightarrow> sync_point \<Rightarrow> nat" where
  "point_steps m Outside = 0"
| "point_steps m (AwaitCollecting ks) = 3 * m + 8 + 2 * length ks"
| "point_steps m (Collecting ks) = 3 * m + 7 + 2 * length ks"
| "point_steps m Publish = 3 * m + 7"
| "point_steps m ResetBroadcasting = 3 * m + 6"
| "point_steps m NotifyCollecting = 3 * m + 5"
| "point_steps m AwaitBroadcasting = 3 * m + 4"
| "point_steps m Withdraw = 3 * m + 3"
| "point_steps m Transform = 3 * m + 2"
| "point_steps m (Broadcasting ph ks) = 3 * length ks + 1
     - (case ph of WriteData \<Rightarrow> 0 | ResetCollecting \<Rightarrow> 1 | NotifyBroadcasting \<Rightarrow> 2)"

definition thread_steps :: "'v sync_task \<Rightarrow> 'v sync_thread \<Rightarrow> nat" where
  "thread_steps g t =
     (length (operations g) - length (results t) - (if point t = Outside then 0 else 1)) * steps_per_operation g
     + point_steps (nat (running g)) (point t)"

definition steps_left :: "'v sync_task \<Rightarrow> (int \<Rightarrow> 'v sync_thread) \<Rightarrow> nat" where
  "steps_left g T = (\<Sum>i\<in>{0..<running g}. thread_steps g (T i))"

lemma thread_steps_cong: "point t = point u \<Longrightarrow> results t = results u \<Longrightarrow> thread_steps g t = thread_steps g u"
  by (simp add: thread_steps_def)

lemma length_kids:
  assumes at: "sync_at g T i"
  shows "length (down_kids (squad_size g) i (running g)) \<le> nat (running g)"
    "length (up_kids (squad_size g) i (running g)) \<le> nat (running g)"
proof -
  have "set (down_kids (squad_size g) i (running g)) \<subseteq> {0..<running g}" 
    using kid_bounds [OF at] by auto
  then have "card (set (down_kids (squad_size g) i (running g))) \<le> nat (running g)"
    using card_mono [of "{0..<running g}"] by fastforce
  then show "length (down_kids (squad_size g) i (running g)) \<le> nat (running g)"
    by (simp add: distinct_card [OF distinct_kids(1) [OF at]])
  then show "length (up_kids (squad_size g) i (running g)) \<le> nat (running g)"
    by (metis mset_up_kids size_mset)
qed

text \<open>A step changes the program counter of one thread only, which comes closer to its end.\<close>

lemma step_frame:
  assumes "sync_step g i T = Moves T'" "j \<noteq> i"
  shows "point (T' j) = point (T j) \<and> results (T' j) = results (T j)"
  using assms
  by (auto simp: sync_step_def enter_operation_def collect_wait_def collect_read_def broadcast_write_def
      broadcast_reset_def broadcast_notify_def enter_broadcast_def leave_operation_def sync_access_def
      moves_def at_point_def store_def
      split: sync_point.splits list.splits sync_phase.splits if_splits option.splits sum.splits)

lemma step_progress:
  assumes at: "sync_at g T i" and step: "sync_step g i T = Moves T'"
  shows "thread_steps g (T' i) < thread_steps g (T i)"
proof (cases "point (T i)")
  case Outside
  have len: "length (up_kids (squad_size g) i (running g)) \<le> nat (running g)" by (rule length_kids [OF at])
  have r: "length (results (T i)) < length (operations g)" and
    p: "point (T' i) = AwaitCollecting (up_kids (squad_size g) i (running g))" "results (T' i) = results (T i)"
    using step Outside sync_traversals [OF sync_atD(2-4) [OF at]]
    by (auto simp: sync_step_def enter_operation_def split: if_splits)
  then obtain m where m: "length (operations g) - length (results (T i)) = Suc m"
    by (metis Suc_diff_Suc)
  show ?thesis using len Outside m by (simp add: thread_steps_def p steps_per_operation_def)
next
  case Transform
  have len: "length (down_kids (squad_size g) i (running g)) \<le> nat (running g)" by (rule length_kids [OF at])
  have p: "point (T' i) = Broadcasting WriteData (down_kids (squad_size g) i (running g))"
      "results (T' i) = results (T i)"
    using step Transform sync_traversals [OF sync_atD(2-4) [OF at]]
    by (auto simp: sync_step_def enter_broadcast_def moves_def split: sum.splits)
  show ?thesis using len Transform by (simp add: thread_steps_def p)
next
  case (Broadcasting ph ks)
  have ne: "ph \<noteq> WriteData \<longrightarrow> ks \<noteq> []" and r: "length (results (T i)) < length (operations g)"
    using node_i [OF at] Broadcasting by (simp_all add: node_simps)
  show ?thesis
  proof (cases ks)
    case Nil
    then have "ph = WriteData" using ne by blast
    then have "point (T' i) = Outside" "length (results (T' i)) = Suc (length (results (T i)))"
      using step Broadcasting Nil by (auto simp: sync_step_def leave_operation_def moves_def split: sum.splits)
    then show ?thesis using Broadcasting Nil \<open>ph = WriteData\<close> by (simp add: thread_steps_def)
  next
    case (Cons k ks')
    show ?thesis using step Broadcasting Cons broadcastingD(3) [OF at, of ph k ks']
      by (cases ph) (auto simp: sync_step_def broadcast_write_def broadcast_reset_def broadcast_notify_def
          sync_access_def moves_def at_point_def store_def thread_steps_def
          split: if_splits sum.splits option.splits)
  qed
next
  case (AwaitCollecting ks)
  then show ?thesis using step
    by (auto simp: sync_step_def collect_wait_def sync_access_def at_point_def thread_steps_def
        split: list.splits if_splits)
next
  case (Collecting ks)
  then have "ks \<noteq> []" using node_i [OF at] by (simp add: node_simps)
  then show ?thesis using step Collecting
    by (auto simp: sync_step_def collect_read_def sync_access_def at_point_def moves_def thread_steps_def
        split: list.splits if_splits sum.splits)
qed (use step in \<open>auto simp: sync_step_def at_point_def thread_steps_def split: if_splits\<close>)

lemma steps_left_decreases:
  assumes at: "sync_at g T i" and step: "sync_step g i T = Moves T'"
  shows "steps_left g T' < steps_left g T"
  unfolding steps_left_def
proof (rule sum_strict_mono_ex1)
  show "\<forall>j\<in>{0..<running g}. thread_steps g (T' j) \<le> thread_steps g (T j)"
    using step_frame [OF step] step_progress [OF at step] thread_steps_cong by (metis less_imp_le order_refl)
  show "\<exists>j\<in>{0..<running g}. thread_steps g (T' j) < thread_steps g (T j)"
    using step_progress [OF at step] sync_atD(3,4) [OF at] by auto
qed simp

section \<open>No deadlock\<close>

text \<open>A thread that cannot step waits for a subordinate thread, waits for the broadcast, or is done.\<close>

lemma stuck_cases:
  assumes at: "sync_at g T i" and stuck: "sync_step g i T = Waits"
  obtains (finish) "point (T i) = Outside" "length (results (T i)) = length (operations g)"
  | (collect) k ks where "point (T i) = AwaitCollecting (k # ks)" "signalCollecting (T k) = 0"
      "k \<in> set (down_kids (squad_size g) i (running g))"
  | (broadcast) "point (T i) = AwaitBroadcasting" "signalBroadcasting (T i) = 0"
proof (cases "point (T i)")
  case Outside
  then show ?thesis using stuck node_i [OF at] finish
    by (auto simp: sync_step_def enter_operation_def node_cond_def split: if_splits option.splits)
next
  case (AwaitCollecting ks)
  then obtain k ks' where ks: "ks = k # ks'" using stuck by (cases ks) (auto simp: sync_step_def)
  have "k \<in> set (up_kids (squad_size g) i (running g))"
    using node_i [OF at] AwaitCollecting ks by (auto simp: node_simps)
  then show ?thesis using collect AwaitCollecting ks stuck up_kid
    by (auto simp: sync_step_def collect_wait_def sync_access_def split: if_splits)
qed (use stuck broadcast in \<open>auto simp: sync_step_def collect_read_def broadcast_write_def broadcast_reset_def
    broadcast_notify_def enter_broadcast_def leave_operation_def sync_access_def moves_def
    split: list.splits sync_phase.splits if_splits option.splits sum.splits\<close>)

lemma stuck_no_collect:
  assumes inv: "sync_inv g T" and ok: "sync_task_ok g"
    and stuck: "\<And>i. 0 \<le> i \<Longrightarrow> i < running g \<Longrightarrow> sync_step g i T = Waits"
  shows "0 \<le> i \<Longrightarrow> i < running g \<Longrightarrow> point (T i) \<noteq> AwaitCollecting (k # ks)"
proof (induction "nat (running g - i)" arbitrary: i k ks rule: less_induct)
  case less
  have at: "sync_at g T i" using inv ok less.prems by (simp add: sync_at_def)
  have r: "point (T i) \<noteq> Outside \<longrightarrow> length (results (T i)) < length (operations g)"
    using node_i [OF at] by (simp add: node_cond_def)
  show ?case
  proof
    assume p: "point (T i) = AwaitCollecting (k # ks)"
    then have c: "signalCollecting (T k) = 0" and k: "k \<in> set (down_kids (squad_size g) i (running g))"
      by (auto intro: stuck_cases [OF at stuck [OF less.prems]])
    note kb = kid_bounds [OF at k]
    have atk: "sync_at g T k" using inv ok kb by (simp add: sync_at_def)
    have e: "length (results (T k)) = length (results (T i)) \<and> before_wait (point (T k))
        \<or> signalBroadcasting (T k) = 1 \<or> after_wait (point (T k))"
      using edge_i [OF at at at k] p c by (auto simp: edge_cond_def Let_def delivered_def)
    from atk stuck [OF kb(4,2)] show False
    proof (cases rule: stuck_cases)
      case finish
      then show ?thesis using e r p edge_i [OF at at at k] by (auto simp: edge_cond_def Let_def delivered_def)
    next
      case (collect j js)
      then show ?thesis using less.hyps [of k j js] kb less.prems by auto
    next
      case broadcast
      then show ?thesis using e by simp
    qed
  qed
qed

lemma stuck_done:
  assumes inv: "sync_inv g T" and ok: "sync_task_ok g"
    and stuck: "\<And>i. 0 \<le> i \<Longrightarrow> i < running g \<Longrightarrow> sync_step g i T = Waits"
    and i: "0 \<le> i" "i < running g"
  shows "point (T i) = Outside \<and> length (results (T i)) = length (operations g)"
proof (rule tree.tree_induct [OF sync_taskD(1,3) [OF ok] i,
    of "\<lambda>i. point (T i) = Outside \<and> length (results (T i)) = length (operations g)"])
  have z: "0 \<le> (0::int)" "0 < running g" using sync_taskD(2) [OF ok] by auto
  have at0: "sync_at g T 0" using inv ok z by (simp add: sync_at_def)
  from at0 stuck [OF z] show "point (T 0) = Outside \<and> length (results (T 0)) = length (operations g)"
  proof (cases rule: stuck_cases)
    case (collect k ks)
    then show ?thesis using stuck_no_collect [OF inv ok stuck z] by blast
  next
    case broadcast
    then show ?thesis using node_i [OF at0] by (simp add: node_simps)
  qed simp
next
  fix p t assume p: "0 \<le> p" "p < running g" "t \<in> set (down_kids (squad_size g) p (running g))"
    and pd: "point (T p) = Outside \<and> length (results (T p)) = length (operations g)"
  have atp: "sync_at g T p" using inv ok p by (simp add: sync_at_def)
  note kb = kid_bounds [OF atp p(3)]
  have att: "sync_at g T t" using inv ok kb by (simp add: sync_at_def)
  have r: "point (T t) \<noteq> Outside \<longrightarrow> length (results (T t)) < length (operations g)"
    using node_i [OF att] by (simp add: node_cond_def)
  from att stuck [OF kb(4,2)] show "point (T t) = Outside \<and> length (results (T t)) = length (operations g)"
  proof (cases rule: stuck_cases)
    case (collect k ks)
    then show ?thesis using stuck_no_collect [OF inv ok stuck kb(4,2)] by blast
  next
    case broadcast
    then show ?thesis using r pd edge_i [OF atp atp atp p(3)] by (auto simp: edge_cond_def Let_def delivered_def)
  qed simp
qed

section \<open>Schedules\<close>

text \<open>The state after the threads of a list have made a step each, if all of them could.\<close>

fun sync_exec :: "'v sync_task \<Rightarrow> int list \<Rightarrow> (int \<Rightarrow> 'v sync_thread) \<Rightarrow> (int \<Rightarrow> 'v sync_thread) option" where
  "sync_exec g [] T = Some T"
| "sync_exec g (i # is) T =
     (if 0 \<le> i \<and> i < running g then
        (case sync_step g i T of Moves T' \<Rightarrow> sync_exec g is T' | Waits \<Rightarrow> None | Fails e \<Rightarrow> None)
      else None)"

lemma sync_exec_reachable:
  "sync_exec g is T = Some T' \<Longrightarrow> sync_reachable g b T \<Longrightarrow> sync_reachable g b T'"
proof (induction "is" arbitrary: T)
  case (Cons i "is")
  then show ?case using sync_reachable.step [of g b T i]
    by (auto split: if_splits sync_outcome.splits)
qed simp

lemma sync_exec_length:
  assumes ok: "sync_task_ok g"
  shows "sync_exec g is T = Some T' \<Longrightarrow> sync_reachable g b T \<Longrightarrow> length is + steps_left g T' \<le> steps_left g T"
proof (induction "is" arbitrary: T)
  case (Cons i "is")
  then have i: "0 \<le> i" "i < running g" and ex: "\<exists>S. sync_step g i T = Moves S \<and> sync_exec g is S = Some T'"
    by (auto split: if_splits sync_outcome.splits)
  then obtain S where S: "sync_step g i T = Moves S" "sync_exec g is S = Some T'" by blast
  have "sync_reachable g b S" by (rule sync_reachable.step [OF Cons.prems(2) i S(1)])
  then have "length is + steps_left g T' \<le> steps_left g S" by (rule Cons.IH [OF S(2)])
  then show ?case
    using steps_left_decreases [OF sync_reachable_at [OF Cons.prems(2) ok i] S(1)] by simp
qed simp

lemma steps_left_start:
  assumes "sync_task_ok g"
  shows "steps_left g (sync_start b) = nat (running g) * (length (operations g) * steps_per_operation g)"
  using sync_taskD(2) [OF assms] by (simp add: steps_left_def sync_start_def thread_steps_def)

section \<open>An execution\<close>

text \<open>
  Two of the three threads of a squad concatenate lists, which is not commutative: they reduce,
  synchronize, and reduce with a transformation.
\<close>

definition concat_task :: "int list sync_task" where
  "concat_task = \<lparr>squad_size = 3, strides = [3, 1, 1], running = 2,
     operations = [Reduce (@), Synchronize, ReduceTransform (@) rev],
     contribution = (\<lambda>rs i. [i + 10 * int (length rs)])\<rparr>"

definition concat_schedule :: "int list" where
  "concat_schedule = concat (replicate 3 [0, 1, 1, 1, 1, 1, 0, 0, 0, 0, 0, 0, 0, 0, 1, 1, 1, 1])"

text \<open>The state after the first \<^verbatim>\<open>m\<close> steps.\<close>

definition concat_state :: "nat \<Rightarrow> int \<Rightarrow> int list sync_thread" where
  "concat_state m = the (sync_exec concat_task (take m concat_schedule) (sync_start (\<lambda>_. 0)))"

lemma concat_task_ok: "sync_task_ok concat_task"
proof -
  have "squad_strides 3 = Some [3, 1, 1]" by code_simp
  then show ?thesis by (simp add: sync_task_ok_def concat_task_def tree_exact_small)
qed

lemma concat_task_associative: "\<forall>op\<in>set (operations concat_task). associative op"
  by (simp add: concat_task_def associative_def combine_def)

lemma sync_exec_append:
  "sync_exec g (xs @ ys) T = Option.bind (sync_exec g xs T) (sync_exec g ys)"
  by (induction xs arbitrary: T) (auto split: sync_outcome.splits)

lemma concat_exec:
  "sync_exec concat_task (take m concat_schedule) (sync_start (\<lambda>_. 0)) = Some (concat_state m)"
proof -
  have "sync_exec concat_task concat_schedule (sync_start (\<lambda>_. 0)) \<noteq> None" by code_simp
  then have "sync_exec concat_task (take m concat_schedule @ drop m concat_schedule) (sync_start (\<lambda>_. 0)) \<noteq> None"
    by simp
  then show ?thesis
    unfolding sync_exec_append concat_state_def
    by (cases "sync_exec concat_task (take m concat_schedule) (sync_start (\<lambda>_. 0))") auto
qed

lemma concat_reachable: "sync_reachable concat_task (\<lambda>_. 0) (concat_state m)"
  by (rule sync_exec_reachable [OF concat_exec sync_reachable.start])

lemma concat_running: "running concat_task = 2"
  by (simp add: concat_task_def)

section \<open>Properties\<close>

text \<open>
  While the threads of a task synchronize, no step of any of them violates the assertion of
  \<^verbatim>\<open>set_and_notify()\<close>, follows a null or dangling pointer to a synchronizer, reads an empty
  result or leaves the bounds of the array of threads.
\<close>

theorem sync_never_faults:
  assumes "sync_task_ok g" "sync_reachable g b T" "0 \<le> i" "i < running g"
  shows "sync_step g i T \<noteq> Fails e"
  using sync_step_safe [OF sync_reachable_at [OF assms(2,1,3,4)]] by auto

lemma sync_never_faults_witness:
  "sync_step concat_task 0 (concat_state 11) \<noteq> Fails UndefinedBehaviour"
  by (rule sync_never_faults [OF concat_task_ok concat_reachable]) (simp_all add: concat_running)

text \<open>
  C8: The results that a thread has got so far are those of the specification: every thread gets
  from every operation the reduction of all threads' values in the order of the tree, transformed
  once, under any interleaving and for any operations. If the operations are associative, this is
  the reduction from left to right in index order. The squad is one whose tree is exact, and at
  least one of its threads executes the task (\<^verbatim>\<open>sync_task_ok\<close>).
\<close>

theorem sync_results_in_index_order:
  assumes "sync_task_ok g" "sync_reachable g b T" "0 \<le> i" "i < running g"
  shows "results (T i) = take (length (results (T i))) (tree_results g)
    \<and> ((\<forall>op\<in>set (operations g). associative op) \<longrightarrow>
        results (T i) = take (length (results (T i))) (sequential_results g))"
proof -
  have "results (T i) = take (length (results (T i))) (tree_results g)"
    using node_i [OF sync_reachable_at [OF assms(2,1,3,4)]] by (simp add: node_cond_def)
  then show ?thesis using tree_results_sequential [OF assms(1)] by metis
qed

lemma sync_results_in_index_order_witness:
  "results (concat_state 54 1) = take (length (results (concat_state 54 1))) (sequential_results concat_task)
    \<and> results (concat_state 54 1) = [Some [0, 1], None, Some [21, 20]]"
proof
  show "results (concat_state 54 1) = take (length (results (concat_state 54 1))) (sequential_results concat_task)"
    using sync_results_in_index_order [OF concat_task_ok concat_reachable, of 1 54] concat_task_associative
    by (simp add: concat_running)
  show "results (concat_state 54 1) = [Some [0, 1], None, Some [21, 20]]" by code_simp
qed

text \<open>
  C10: Every operation is a barrier: when any thread has returned from operation \<^verbatim>\<open>r\<close>, every thread
  has called it.
\<close>

theorem sync_is_barrier:
  assumes "sync_task_ok g" "sync_reachable g b T"
    and "0 \<le> i" "i < running g" "r < length (results (T i))" "0 \<le> j" "j < running g"
  shows "entered r (T j)"
proof (rule collected_entered, rule passed_all [OF sync_reachable_inv [OF assms(2,1)] assms(1,3,4) _ assms(6,7)])
  show "passed r (T i)" using assms(5) by (simp add: passed_def)
qed

lemma sync_is_barrier_witness:
  "length (results (concat_state 14 0)) = 1 \<and> entered 0 (concat_state 14 1)"
proof
  show *: "length (results (concat_state 14 0)) = 1" by code_simp
  show "entered 0 (concat_state 14 1)"
    by (rule sync_is_barrier [OF concat_task_ok concat_reachable, of 0]) (simp_all add: concat_running *)
qed

text \<open>
  C9: The operations return, associative or not: no execution has more than a fixed number of steps
  per thread and operation, and when no thread can make a step, every thread has returned from all
  operations with their results (those of index order, if the operations are associative), and has
  left its shared state as the next task needs it. The squad is one whose tree is exact, and at
  least one of its threads executes the task (\<^verbatim>\<open>sync_task_ok\<close>).
\<close>

theorem sync_terminates:
  assumes "sync_task_ok g" "sync_exec g is (sync_start b) = Some T"
  shows "length is \<le> nat (running g) * (length (operations g) * (5 * nat (running g) + 9))
    \<and> ((\<forall>i. 0 \<le> i \<and> i < running g \<longrightarrow> sync_step g i T = Waits) \<longrightarrow>
        (\<forall>i. 0 \<le> i \<and> i < running g \<longrightarrow> point (T i) = Outside \<and> results (T i) = tree_results g
          \<and> ((\<forall>op\<in>set (operations g). associative op) \<longrightarrow> results (T i) = sequential_results g)
          \<and> syncData (T i) = None \<and> (0 < i \<longrightarrow> signalCollecting (T i) = 0)))"
proof
  have reach: "sync_reachable g b T" by (rule sync_exec_reachable [OF assms(2) sync_reachable.start])
  have inv: "sync_inv g T" by (rule sync_reachable_inv [OF reach assms(1)])
  show "length is \<le> nat (running g) * (length (operations g) * (5 * nat (running g) + 9))"
    using sync_exec_length [OF assms(1,2) sync_reachable.start] steps_left_start [OF assms(1), of b]
    by (simp add: steps_per_operation_def)
  show "(\<forall>i. 0 \<le> i \<and> i < running g \<longrightarrow> sync_step g i T = Waits) \<longrightarrow>
      (\<forall>i. 0 \<le> i \<and> i < running g \<longrightarrow> point (T i) = Outside \<and> results (T i) = tree_results g
        \<and> ((\<forall>op\<in>set (operations g). associative op) \<longrightarrow> results (T i) = sequential_results g)
        \<and> syncData (T i) = None \<and> (0 < i \<longrightarrow> signalCollecting (T i) = 0))"
  proof (intro impI allI)
    fix i assume stuck: "\<forall>i. 0 \<le> i \<and> i < running g \<longrightarrow> sync_step g i T = Waits" and "0 \<le> i \<and> i < running g"
    then have i: "0 \<le> i" "i < running g" by auto
    have at: "sync_at g T i" by (rule sync_reachable_at [OF reach assms(1) i])
    have d: "point (T i) = Outside" "length (results (T i)) = length (operations g)"
      using stuck_done [OF inv assms(1) _ i] stuck by auto
    moreover have r: "results (T i) = tree_results g"
      using node_i [OF at] d by (simp add: node_cond_def tree_results_def)
    moreover have "signalCollecting (T i) = 0" if "0 < i"
      using superordinate [OF at that] edge_collecting_0 d(1) wait_simps(1) by metis
    moreover have "syncData (T i) = None" using node_i [OF at] d(1) by (simp add: node_cond_def)
    ultimately show "point (T i) = Outside \<and> results (T i) = tree_results g
        \<and> ((\<forall>op\<in>set (operations g). associative op) \<longrightarrow> results (T i) = sequential_results g)
        \<and> syncData (T i) = None \<and> (0 < i \<longrightarrow> signalCollecting (T i) = 0)"
      using tree_results_sequential [OF assms(1)] by simp
  qed
qed

lemma sync_terminates_witness:
  "length concat_schedule \<le> 2 * (3 * (5 * 2 + 9))
    \<and> results (concat_state 54 0) = sequential_results concat_task \<and> signalCollecting (concat_state 54 1) = 0"
proof -
  have ex: "sync_exec concat_task concat_schedule (sync_start (\<lambda>_. 0)) = Some (concat_state 54)"
  proof -
    have "take 54 concat_schedule = concat_schedule" by code_simp
    then show ?thesis using concat_exec [of 54] by metis
  qed
  have w: "(case sync_step concat_task 0 (concat_state 54) of Waits \<Rightarrow> True | _ \<Rightarrow> False)"
    "(case sync_step concat_task 1 (concat_state 54) of Waits \<Rightarrow> True | _ \<Rightarrow> False)" by code_simp+
  have "sync_step concat_task i (concat_state 54) = Waits" if "0 \<le> i \<and> i < 2" for i
  proof -
    have "i = 0 \<or> i = 1" using that by auto
    then show ?thesis using w by (auto split: sync_outcome.splits)
  qed
  then show ?thesis
    using sync_terminates [OF concat_task_ok ex] concat_task_associative
    by (auto simp: concat_running concat_task_def)
qed

end
