(* ===== verification/Squad_Sync_Types.thy ===== *)
theory Squad_Sync_Types
  imports Squad_Sync_Properties
begin

text \<open>
  The pointers of the synchronization protocol. \<^verbatim>\<open>syncData_\<close> has type \<^verbatim>\<open>void*\<close>, and \<^verbatim>\<open>collect\<close> and
  \<^verbatim>\<open>broadcast\<close> convert it with \<^verbatim>\<open>static_cast\<close> to a pointer to the data of their own synchronizer, which
  is an object on the stack of another thread. These conversions are correct, the objects alive,
  and no two threads access the same data at the same time, although neither \<^verbatim>\<open>syncData_\<close> nor the data
  is atomic.
\<close>

section \<open>Types\<close>

text \<open>The type that the functions of an operation's synchronizer convert the pointer to.\<close>

definition data_typed :: "'v sync_op \<Rightarrow> 'v synchronizer_data \<Rightarrow> bool" where
  "data_typed op d =
     (case (op, d) of
        (Synchronize, PlainData) \<Rightarrow> True
      | (Reduce f, ReduceData v) \<Rightarrow> True
      | (ReduceTransform f h, TransformData v r) \<Rightarrow> True
      | _ \<Rightarrow> False)"

lemma typed_values [simp]:
  "data_typed op (make_synchronizer op v)"
  "data_typed (operations g ! r) (reduced g r i)"
  "data_typed (operations g ! r) (partial_data g r i cs)"
  "data_typed (operations g ! r) (final g r i)"
  by (cases op; simp add: data_typed_def make_synchronizer_def)
    (cases "operations g ! r"; simp add: data_typed_def make_synchronizer_def reduced_def partial_data_def final_def)+

text \<open>Inside an operation a thread has a synchronizer of the operation's type, outside it has none.\<close>

lemma synchronizer_typed:
  assumes at: "sync_at g T i"
  shows "point (T i) = Outside \<Longrightarrow> synchronizer (T i) = None"
    "point (T i) \<noteq> Outside \<Longrightarrow> \<exists>d. synchronizer (T i) = Some d \<and> data_typed (current_op g (T i)) d"
proof -
  show "synchronizer (T i) = None" if "point (T i) = Outside"
    using node_i [OF at] that by (simp add: node_simps)
  show "\<exists>d. synchronizer (T i) = Some d \<and> data_typed (current_op g (T i)) d" if p: "point (T i) \<noteq> Outside"
  proof (cases "point (T i) = AwaitBroadcasting")
    case True
    then have "0 < i" using node_i [OF at] by (simp add: node_simps)
    then obtain h d where "edge_cond g h d i (T i)" using superordinate [OF at] by blast
    then show ?thesis using True by (auto simp: edge_cond_def Let_def current_op_def split: hold.splits)
  next
    case False
    then show ?thesis using node_i [OF at] p
      by (cases "point (T i)") (auto simp: node_simps)
  qed
qed

section \<open>Accesses\<close>

text \<open>The subordinate thread whose \<^verbatim>\<open>syncData_\<close> and synchronizer the next step of a thread accesses.\<close>

definition partner :: "sync_point \<Rightarrow> int option" where
  "partner l = (case l of Collecting (k # ks) \<Rightarrow> Some k | Broadcasting WriteData (k # ks) \<Rightarrow> Some k | _ \<Rightarrow> None)"

text \<open>All threads for which it does: a thread that waits for or sets a signal accesses atomics only.\<close>

definition touches :: "int \<Rightarrow> sync_point \<Rightarrow> int set" where
  "touches i l =
     (case l of
        AwaitCollecting ks \<Rightarrow> {} | ResetBroadcasting \<Rightarrow> {} | NotifyCollecting \<Rightarrow> {} | AwaitBroadcasting \<Rightarrow> {}
      | Broadcasting ResetCollecting (k # ks) \<Rightarrow> {} | Broadcasting NotifyBroadcasting (k # ks) \<Rightarrow> {}
      | _ \<Rightarrow> insert i (set_option (partner l)))"

lemma touches_cases: "j \<in> touches i l \<Longrightarrow> (j = i \<and> l \<noteq> AwaitBroadcasting) \<or> partner l = Some j"
  by (auto simp: touches_def split: sync_point.splits list.splits sync_phase.splits)

text \<open>The subordinate thread waits, in the same operation, with its data published.\<close>

lemma partner_waits:
  assumes at: "sync_at g T i" and k: "partner (point (T i)) = Some k"
  shows "k \<in> set (down_kids (squad_size g) i (running g))" "point (T k) = AwaitBroadcasting"
    "length (results (T k)) = length (results (T i))" "0 \<le> k" "k < running g"
    "syncData (T k) = sync_data (current_op g (T i)) k"
proof -
  have "k \<in> set (down_kids (squad_size g) i (running g)) \<and> hold_of (point (T i)) k = Held
      \<and> delivered (T i) k = length (results (T i))"
  proof (cases "point (T i)")
    case (Collecting ks)
    then obtain ks' where ks: "ks = k # ks'" using k by (cases ks) (auto simp: partner_def)
    then obtain cs where cs: "up_kids (squad_size g) i (running g) = cs @ k # ks'"
      using node_i [OF at] Collecting by (auto simp: node_simps)
    then have "k \<in> set (down_kids (squad_size g) i (running g))" using up_kid by (metis in_set_conv_decomp)
    moreover have "k \<notin> set ks'" using cs distinct_kids(2) [OF at] by simp
    ultimately show ?thesis using Collecting ks by (simp add: delivered_def)
  next
    case (Broadcasting ph ks)
    then obtain ks' where ks: "ks = k # ks'" "ph = WriteData"
      using k by (cases ks; cases ph) (auto simp: partner_def)
    then show ?thesis using Broadcasting broadcastingD(1) [OF at] by (simp add: delivered_def)
  qed (use k in \<open>auto simp: partner_def\<close>)
  then show kid: "k \<in> set (down_kids (squad_size g) i (running g))"
    and wait: "point (T k) = AwaitBroadcasting" "length (results (T k)) = length (results (T i))"
    using edge_i [OF at at at, of k] by (auto simp: edge_cond_def Let_def)
  show "0 \<le> k" "k < running g" using kid_bounds [OF at kid] by auto
  show "syncData (T k) = sync_data (current_op g (T i)) k"
    using node_kid [OF at kid] wait by (simp add: node_simps)
qed

section \<open>Properties\<close>

text \<open>
  C11: The type of the data behind a pointer: inside an operation, a thread's synchronizer has the type
  of the operation; a published pointer is to the publishing thread's own synchronizer, which is
  alive; and when a thread accesses a subordinate thread's data, both are in the same operation, and
  the pointer is null only for an operation that does not use it. So the conversions from \<^verbatim>\<open>void*\<close> are
  to the type that the object has.
\<close>

theorem sync_data_typed:
  assumes "sync_task_ok g" "sync_reachable g b T" "0 \<le> i" "i < running g"
  shows "(case synchronizer (T i) of None \<Rightarrow> point (T i) = Outside | Some d \<Rightarrow> data_typed (current_op g (T i)) d)
    \<and> (syncData (T i) = None \<or> syncData (T i) = Some i \<and> synchronizer (T i) \<noteq> None)
    \<and> (case partner (point (T i)) of
        None \<Rightarrow> True
      | Some k \<Rightarrow> current_op g (T k) = current_op g (T i)
          \<and> (current_op g (T i) = Synchronize
            \<or> (\<exists>d. deref T (syncData (T k)) = Inr d \<and> data_typed (current_op g (T i)) d)))"
proof -
  have at: "sync_at g T i" by (rule sync_reachable_at [OF assms(2,1,3,4)])
  have own: "case synchronizer (T i) of None \<Rightarrow> point (T i) = Outside | Some d \<Rightarrow> data_typed (current_op g (T i)) d"
    using synchronizer_typed [OF at] by (cases "point (T i) = Outside") auto
  have ptr: "syncData (T i) = None \<or> syncData (T i) = Some i \<and> synchronizer (T i) \<noteq> None"
  proof (cases "point (T i) = Outside")
    case True
    then show ?thesis using node_i [OF at] by (simp add: node_simps)
  next
    case False
    then show ?thesis using node_i [OF at] synchronizer_typed(2) [OF at False]
      by (auto simp: node_cond_def virtual_calls split: sync_op.splits)
  qed
  have other: "current_op g (T k) = current_op g (T i)
      \<and> (current_op g (T i) = Synchronize
        \<or> (\<exists>d. deref T (syncData (T k)) = Inr d \<and> data_typed (current_op g (T i)) d))"
    if "partner (point (T i)) = Some k" for k
  proof -
    note k = partner_waits [OF at that]
    have "sync_at g T k" by (rule sync_reachable_at [OF assms(2,1) k(4,5)])
    from synchronizer_typed(2) [OF this]
    obtain d where d: "synchronizer (T k) = Some d" "data_typed (current_op g (T k)) d"
      using k(2) by auto
    then show ?thesis using k(3,6)
      by (cases "current_op g (T i)") (auto simp: current_op_def virtual_calls deref_def)
  qed
  show ?thesis using own ptr other by (auto split: option.splits)
qed

lemma sync_data_typed_witness:
  "partner (point (concat_state 7 0)) = Some 1
    \<and> (\<exists>d. deref (concat_state 7) (syncData (concat_state 7 1)) = Inr d \<and> data_typed (Reduce (@)) d)"
proof -
  have p: "partner (point (concat_state 7 0)) = Some 1" "length (results (concat_state 7 0)) = 0"
    by code_simp+
  then have "current_op concat_task (concat_state 7 0) = Reduce (@)" by (simp add: current_op_def concat_task_def)
  then show ?thesis
    using sync_data_typed [OF concat_task_ok concat_reachable, of 0 7] p by (simp add: concat_running)
qed

text \<open>
  C12: There is no data race on what the synchronization does not keep in atomics: the next steps of two
  threads never access the \<^verbatim>\<open>syncData_\<close> or the synchronizer of the same thread.
\<close>

theorem sync_no_data_race:
  assumes "sync_task_ok g" "sync_reachable g b T"
    and "0 \<le> i" "i < running g" "0 \<le> j" "j < running g" "i \<noteq> j"
  shows "touches i (point (T i)) \<inter> touches j (point (T j)) = {}"
proof (rule equals0I)
  fix k assume k: "k \<in> touches i (point (T i)) \<inter> touches j (point (T j))"
  have at: "sync_at g T i" "sync_at g T j" using sync_reachable_at [OF assms(2,1)] assms(3-6) by auto
  have "partner AwaitBroadcasting = None" by (simp add: partner_def)
  then have waits: "partner (point (T i)) = Some k \<Longrightarrow> point (T k) = AwaitBroadcasting \<and> k \<noteq> i"
    "partner (point (T j)) = Some k \<Longrightarrow> point (T k) = AwaitBroadcasting \<and> k \<noteq> j"
    using partner_waits(2) [OF at(1), of k] partner_waits(2) [OF at(2), of k] by auto
  have "k = i \<and> point (T i) \<noteq> AwaitBroadcasting \<or> partner (point (T i)) = Some k"
    "k = j \<and> point (T j) \<noteq> AwaitBroadcasting \<or> partner (point (T j)) = Some k"
    using k touches_cases by blast+
  then have "k \<noteq> i" "k \<noteq> j"
    using waits assms(7) by metis+
  then have "partner (point (T i)) = Some k" "partner (point (T j)) = Some k"
    using k touches_cases by blast+
  then have "k \<in> set (down_kids (squad_size g) i (running g))" "k \<in> set (down_kids (squad_size g) j (running g))"
    using partner_waits(1) at by blast+
  then show False
    using tree.parent_unique [OF sync_taskD(1,3) [OF assms(1)]] assms(3-7) by blast
qed

lemma sync_no_data_race_witness:
  "touches 0 (point (concat_state 7 0)) = {0, 1} \<and> touches 0 (point (concat_state 7 0)) \<inter> touches 1 (point (concat_state 7 1)) = {}"
proof
  show "touches 0 (point (concat_state 7 0)) = {0, 1}" by code_simp
  show "touches 0 (point (concat_state 7 0)) \<inter> touches 1 (point (concat_state 7 1)) = {}"
    by (rule sync_no_data_race [OF concat_task_ok concat_reachable]) (simp_all add: concat_running)
qed

end
