(* ===== verification/Squad_Program.thy ===== *)
theory Squad_Program
  imports Squad_Liveness Squad_Sync_Properties
begin

text \<open>
  Programs that run tasks on a squad whose threads synchronize: the composition of the protocol of
  \<^verbatim>\<open>thread_squad_impl::run\<close> and \<^verbatim>\<open>run_thread\<close> (\<^verbatim>\<open>Squad_Protocol\<close>) with the operations of the task
  contexts (\<^verbatim>\<open>Squad_Sync\<close>). A worker that calls the action of its task (\<^verbatim>\<open>task_run\<close>) makes the steps
  of the context's operations, and goes on with the protocol when the action has returned. Every
  step of the composed system is a step of the protocol or leaves the protocol's state alone, so what
  \<^verbatim>\<open>Squad_Liveness\<close> shows carries over; what has to be shown is that the two parts do not wait for
  each other.
\<close>

section \<open>State and steps\<close>

text \<open>
  What the action of a task does with its context. The operations of a call are given by the
  number of the call.
\<close>

record 'v context_program =
  context_operations :: "'v sync_op list"
  context_contribution :: "'v option list \<Rightarrow> int \<Rightarrow> 'v"

text \<open>
  The squad, the members of \<^verbatim>\<open>thread_data\<close> that synchronization uses with the local state of the
  actions, and a ghost: what the operations of the completed calls have returned to each thread.
\<close>

record 'v program_state =
  squad_part :: "'v squad"
  contexts :: "int \<Rightarrow> 'v sync_thread"
  returned :: "(int \<Rightarrow> 'v option list) list"

definition program_start :: "'v squad \<Rightarrow> 'v program_state" where
  "program_start s = \<lparr>squad_part = s, contexts = sync_start (\<lambda>_. 0), returned = []\<rparr>"

text \<open>
  A task context refers to the squad and knows the number of running threads. A \<^verbatim>\<open>thread_squad_nop\<close>
  task has no action.
\<close>

definition context_task :: "'v squad \<Rightarrow> 'v squad_task \<Rightarrow> 'v context_program \<Rightarrow> 'v sync_task" where
  "context_task s tk p =
     \<lparr>squad_size = numThreads s, strides = numSubthreads s, running = concurrency (params tk),
      operations = (case task_op tk of NopTask \<Rightarrow> [] | _ \<Rightarrow> context_operations p),
      contribution = context_contribution p\<rparr>"

text \<open>The task of the current call.\<close>

definition current_task :: "(nat \<Rightarrow> 'v context_program) \<Rightarrow> 'v squad \<Rightarrow> 'v squad_task \<Rightarrow> 'v sync_task" where
  "current_task p s tk = context_task s tk (p (length (finished s)))"

text \<open>A worker is inside the action of its task until the last operation has returned.\<close>

definition inside_action :: "(nat \<Rightarrow> 'v context_program) \<Rightarrow> int \<Rightarrow> 'v program_state \<Rightarrow> 'v sync_task option" where
  "inside_action p i S =
     (case task (squad_part S) of
        None \<Rightarrow> None
      | Some tk \<Rightarrow>
          if pc (thrd (squad_part S) i) = Run \<and> i < concurrency (params tk)
            \<and> length (results (contexts S i)) < length (operations (current_task p (squad_part S) tk))
          then Some (current_task p (squad_part S) tk) else None)"

datatype 'v program_outcome = Stays | Breaks failure | Continues "'v program_state"

definition squad_outcome :: "'v step \<Rightarrow> ('v squad \<Rightarrow> 'v program_state) \<Rightarrow> 'v program_outcome" where
  "squad_outcome x f = (case x of Blocked \<Rightarrow> Stays | Fault e \<Rightarrow> Breaks e | Next s \<Rightarrow> Continues (f s))"

definition program_worker_step :: "(nat \<Rightarrow> 'v context_program) \<Rightarrow> int \<Rightarrow> 'v program_state \<Rightarrow> 'v program_outcome" where
  "program_worker_step p i S =
     (case inside_action p i S of
        Some g \<Rightarrow> (case sync_step g i (contexts S) of
            Waits \<Rightarrow> Stays | Fails e \<Rightarrow> Breaks e | Moves T \<Rightarrow> Continues (S\<lparr>contexts := T\<rparr>))
      | None \<Rightarrow> squad_outcome (worker_step i (squad_part S)) (\<lambda>s. S\<lparr>squad_part := s\<rparr>))"

text \<open>When a call has completed, the contexts of its task are gone.\<close>

definition complete_call :: "'v program_state \<Rightarrow> 'v squad \<Rightarrow> 'v program_state" where
  "complete_call S s =
     (if length (finished s) = length (finished (squad_part S)) then S\<lparr>squad_part := s\<rparr>
      else \<lparr>squad_part = s, contexts = (\<lambda>i. (contexts S i)\<lparr>results := []\<rparr>),
            returned = returned S @ [\<lambda>i. results (contexts S i)]\<rparr>)"

definition program_main_step :: "'v program_state \<Rightarrow> 'v program_outcome" where
  "program_main_step S = squad_outcome (main_step (squad_part S)) (complete_call S)"

inductive program_step :: "(nat \<Rightarrow> 'v context_program) \<Rightarrow> 'v program_state \<Rightarrow> 'v program_state \<Rightarrow> bool" for p where
  main: "program_main_step S = Continues S' \<Longrightarrow> program_step p S S'"
| worker: "0 \<le> i \<Longrightarrow> i < numThreads (squad_part S) \<Longrightarrow> program_worker_step p i S = Continues S' \<Longrightarrow> program_step p S S'"

inductive program_reachable :: "int \<Rightarrow> 'v squad_task list \<Rightarrow> (nat \<Rightarrow> 'v context_program) \<Rightarrow> 'v program_state \<Rightarrow> bool"
  for n calls p where
  start: "construct_squad n calls = Some s \<Longrightarrow> program_reachable n calls p (program_start s)"
| step: "program_reachable n calls p S \<Longrightarrow> program_step p S S' \<Longrightarrow> program_reachable n calls p S'"

section \<open>The squad of a program\<close>

lemma squad_outcome_simps [simp]:
  "squad_outcome x f = Continues S' \<longleftrightarrow> (\<exists>s. x = Next s \<and> S' = f s)"
  "squad_outcome x f = Breaks e \<longleftrightarrow> x = Fault e"
  "squad_outcome x f = Stays \<longleftrightarrow> x = Blocked"
  by (auto simp: squad_outcome_def split: step.splits)

lemma complete_call_squad [simp]: "squad_part (complete_call S s) = s"
  by (simp add: complete_call_def)

lemma complete_call_same [simp]:
  "length (finished s) = length (finished (squad_part S)) \<Longrightarrow> contexts (complete_call S s) = contexts S"
  "length (finished s) = length (finished (squad_part S)) \<Longrightarrow> returned (complete_call S s) = returned S"
  by (simp_all add: complete_call_def)

lemma inside_actionD:
  assumes "inside_action p i S = Some g"
  obtains tk where "task (squad_part S) = Some tk" "g = current_task p (squad_part S) tk"
    "pc (thrd (squad_part S) i) = Run" "i < running g" "length (results (contexts S i)) < length (operations g)"
  using assms that by (auto simp: inside_action_def current_task_def context_task_def split: option.splits if_splits)

text \<open>The two kinds of steps of a worker.\<close>

lemma program_worker_cases:
  assumes "program_worker_step p i S = Continues S'"
  obtains (action) g T where "inside_action p i S = Some g" "sync_step g i (contexts S) = Moves T" "S' = S\<lparr>contexts := T\<rparr>"
  | (protocol) s where "inside_action p i S = None" "worker_step i (squad_part S) = Next s" "S' = S\<lparr>squad_part := s\<rparr>"
  using assms by (auto simp: program_worker_step_def split: option.splits sync_outcome.splits)

lemma program_step_squad:
  assumes "program_step p S S'"
  shows "squad_part S' = squad_part S \<or> squad_step (squad_part S) (squad_part S')"
  using assms
proof cases
  case main
  then show ?thesis by (auto simp: program_main_step_def intro: squad_step.main)
next
  case (worker i)
  from worker(3) show ?thesis
    by (cases rule: program_worker_cases) (use worker in \<open>auto intro: squad_step.worker\<close>)
qed

lemma program_squad_reachable: "program_reachable n calls p S \<Longrightarrow> reachable n calls (squad_part S)"
proof (induction rule: program_reachable.induct)
  case (start s)
  then show ?case by (simp add: program_start_def reachable.start)
next
  case (step S S')
  then show ?case using program_step_squad reachable.step by metis
qed

lemma program_squad_ok:
  assumes "program_reachable n calls p S" "tree_exact n" "1 \<le> n" "valid_calls n calls"
  shows "squad_ok n calls (squad_part S)"
  by (rule reachable_squad_ok [OF program_squad_reachable [OF assms(1)] assms(2-4)])

end
