(* ===== verification/Squad_Program_Invariant.thy ===== *)
theory Squad_Program_Invariant
  imports Squad_Program
begin

text \<open>
  The invariant of programs whose tasks synchronize. While a task is being processed, the contexts are
  in a reachable state of \<^verbatim>\<open>Squad_Sync\<close>, and a thread that has executed the task has returned from all
  its operations. Between two calls the contexts are as a new task needs them, whatever the
  broadcasting signals have been left at.
\<close>

section \<open>What an operation leaves alone\<close>

lemma step_locality:
  assumes at: "sync_at g T i" and step: "sync_step g i T = Moves T'" and j: "j \<noteq> i" "j \<le> 0 \<or> running g \<le> j"
  shows "T' j = T j"
proof (cases "\<exists>ph k ks. point (T i) = Broadcasting ph (k # ks)")
  case True
  then obtain ph k ks where p: "point (T i) = Broadcasting ph (k # ks)" by blast
  have k: "0 < k" "k < running g"
    using kid_bounds [OF at broadcastingD(1) [OF at p]] sync_atD(3) [OF at] by auto
  have ptr: "syncData (T k) = sync_data (current_op g (T k)) k"
    using broadcastingD(8,10) [OF at p] by (simp add: node_simps)
  have "j \<noteq> k" using k j(2) by auto
  then show ?thesis using step p j ptr
    by (cases ph; cases "current_op g (T k)")
      (auto simp: sync_step_def broadcast_write_def broadcast_reset_def broadcast_notify_def sync_access_def
        moves_def at_point_def store_def virtual_calls split: if_splits sum.splits option.splits)
next
  case False
  then show ?thesis using step j(1)
    by (auto simp: sync_step_def enter_operation_def collect_wait_def collect_read_def enter_broadcast_def
        leave_operation_def sync_access_def moves_def at_point_def
        split: sync_point.splits list.splits sync_phase.splits if_splits option.splits sum.splits)
qed

lemma root_not_collecting:
  assumes at: "sync_at g T i" and step: "sync_step g i T = Moves T'" and z: "signalCollecting (T 0) = 0"
  shows "signalCollecting (T' 0) = 0"
proof (cases "i = 0")
  case True
  have n: "point (T 0) \<noteq> NotifyCollecting" using node_i [OF at] True by (auto simp: node_simps)
  show ?thesis
  proof (cases "\<exists>ph k ks. point (T i) = Broadcasting ph (k # ks)")
    case b: True
    then obtain ph k ks where p: "point (T i) = Broadcasting ph (k # ks)" by blast
    have "k \<noteq> 0" using broadcastingD(3) [OF at p] True by simp
    then show ?thesis using step p True z
      by (cases ph) (auto simp: sync_step_def broadcast_write_def broadcast_reset_def broadcast_notify_def
          sync_access_def moves_def at_point_def store_def split: if_splits sum.splits option.splits)
  next
    case False
    then show ?thesis using step True z n
      by (auto simp: sync_step_def enter_operation_def collect_wait_def collect_read_def enter_broadcast_def
          leave_operation_def sync_access_def moves_def at_point_def
          split: sync_point.splits list.splits sync_phase.splits if_splits option.splits sum.splits)
  qed
qed (use step_locality [OF at step, of 0] z in auto)

lemma sync_reachable_frame:
  assumes "sync_reachable g b T" "sync_task_ok g"
  shows "signalCollecting (T 0) = 0 \<and> (\<forall>j. j < 0 \<or> running g \<le> j \<longrightarrow> T j = sync_start b j)"
  using assms(1)
proof induction
  case start
  show ?case by (simp add: sync_start_def)
next
  case (step T i T')
  have at: "sync_at g T i" by (rule sync_reachable_at [OF step.hyps(1) assms(2) step.hyps(2,3)])
  have "T' j = sync_start b j" if "j < 0 \<or> running g \<le> j" for j
    using step.IH step_locality [OF at step.hyps(4), of j] that step.hyps(2,3) by auto
  then show ?case using root_not_collecting [OF at step.hyps(4)] step.IH by blast
qed

text \<open>When all threads have returned, the shared state is as a new task needs it.\<close>

lemma contexts_clean:
  assumes reach: "sync_reachable g b T" and ok: "sync_task_ok g"
    and all: "\<And>i. 0 \<le> i \<Longrightarrow> i < running g \<Longrightarrow> length (results (T i)) = length (operations g)"
  shows "(\<lambda>i. (T i)\<lparr>results := []\<rparr>) = sync_start (\<lambda>i. signalBroadcasting (T i))"
proof
  fix i
  note fr = sync_reachable_frame [OF reach ok]
  show "(T i)\<lparr>results := []\<rparr> = sync_start (\<lambda>i. signalBroadcasting (T i)) i"
  proof (cases "0 \<le> i \<and> i < running g")
    case True
    then have at: "sync_at g T i" using sync_reachable_at [OF reach ok] by simp
    have p: "point (T i) = Outside" using node_i [OF at] all True by (auto simp: node_cond_def)
    moreover have "signalCollecting (T i) = 0"
    proof (cases "i = 0")
      case False
      then show ?thesis using superordinate [OF at] True edge_collecting_0 p wait_simps(1)
        by (metis order_le_less)
    qed (use fr in simp)
    ultimately show ?thesis using node_i [OF at] by (simp add: sync_start_def node_simps)
  next
    case False
    then have "T i = sync_start b i" using fr by auto
    then show ?thesis by (simp add: sync_start_def)
  qed
qed

text \<open>A thread that has returned from all its operations makes no step any more.\<close>

lemma returned_waits:
  assumes at: "sync_at g T i" and len: "length (results (T i)) = length (operations g)"
  shows "sync_step g i T = Waits"
proof -
  have "point (T i) = Outside" using node_i [OF at] len by (auto simp: node_cond_def)
  then show ?thesis using len by (simp add: sync_step_def enter_operation_def)
qed

section \<open>The invariant\<close>

definition contexts_ok :: "(nat \<Rightarrow> 'v context_program) \<Rightarrow> 'v program_state \<Rightarrow> bool" where
  "contexts_ok p S \<longleftrightarrow>
     (case task (squad_part S) of
        None \<Rightarrow> (\<exists>b. contexts S = sync_start b)
      | Some tk \<Rightarrow>
          let g = current_task p (squad_part S) tk in
          if running g = 0 then \<exists>b. contexts S = sync_start b
          else (\<exists>b. sync_reachable g b (contexts S))
            \<and> (\<forall>i\<in>set (executed (squad_part S)). 0 \<le> i \<and> i < running g \<longrightarrow>
                length (results (contexts S i)) = length (operations g)))"

text \<open>What the operations of the completed calls have returned.\<close>

definition returned_ok :: "(nat \<Rightarrow> 'v context_program) \<Rightarrow> 'v program_state \<Rightarrow> bool" where
  "returned_ok p S \<longleftrightarrow>
     length (returned S) = length (finished (squad_part S))
   \<and> (\<forall>j<length (returned S). \<forall>i.
        let g = context_task (squad_part S) (fst (finished (squad_part S) ! j)) (p j) in
          0 \<le> i \<and> i < running g \<longrightarrow> (returned S ! j) i = tree_results g)"

lemma current_task_simps [simp]:
  "running (current_task p s tk) = concurrency (params tk)" "squad_size (current_task p s tk) = numThreads s"
  "strides (current_task p s tk) = numSubthreads s"
  by (simp_all add: current_task_def context_task_def)

lemma current_task_ok:
  assumes "control_ok n s" "task s = Some tk" "concurrency (params tk) \<noteq> 0"
  shows "sync_task_ok (current_task p s tk)"
  using control_okD [OF assms(1)] assms(2,3) by (auto simp: sync_task_ok_def call_ok_def valid_task_def)

text \<open>The protocol's state that the contexts depend on.\<close>

lemma current_task_cong:
  "numThreads s' = numThreads s \<Longrightarrow> numSubthreads s' = numSubthreads s \<Longrightarrow>
    length (finished s') = length (finished s) \<Longrightarrow> current_task p s' tk = current_task p s tk"
  by (simp add: current_task_def context_task_def)

lemma contexts_ok_cong:
  assumes "contexts_ok p S" "contexts S' = contexts S" "task (squad_part S') = task (squad_part S)"
    and "set (executed (squad_part S')) = set (executed (squad_part S))"
      "numThreads (squad_part S') = numThreads (squad_part S)"
      "numSubthreads (squad_part S') = numSubthreads (squad_part S)"
      "length (finished (squad_part S')) = length (finished (squad_part S))"
  shows "contexts_ok p S'"
  using assms current_task_cong [OF assms(5-7), of p]
  by (auto simp: contexts_ok_def Let_def split: option.splits if_splits)

text \<open>A step of an operation.\<close>

lemma action_step_ok:
  assumes ok: "contexts_ok p S" and ctl: "control_ok n (squad_part S)" and i: "0 \<le> i"
    and act: "inside_action p i S = Some g" and step: "sync_step g i (contexts S) = Moves T"
  shows "contexts_ok p (S\<lparr>contexts := T\<rparr>)"
proof -
  obtain tk where tk: "task (squad_part S) = Some tk" "g = current_task p (squad_part S) tk" "i < running g"
    using act by (rule inside_actionD)
  then have c: "running g \<noteq> 0" using i by simp
  obtain b where b: "sync_reachable g b (contexts S)"
    and ex: "\<And>i. i \<in> set (executed (squad_part S)) \<Longrightarrow> 0 \<le> i \<Longrightarrow> i < running g \<Longrightarrow>
      length (results (contexts S i)) = length (operations g)"
    using ok tk c by (auto simp: contexts_ok_def Let_def)
  have g: "sync_task_ok g" using current_task_ok [OF ctl tk(1)] tk(2) c by simp
  have "length (results (T j)) = length (operations g)"
    if "j \<in> set (executed (squad_part S))" "0 \<le> j" "j < running g" for j
  proof (cases "j = i")
    case True
    then show ?thesis using returned_waits [OF sync_reachable_at [OF b g that(2,3)] ex [OF that]] step by simp
  next
    case False
    then show ?thesis using step_frame [OF step False] ex [OF that] by simp
  qed
  moreover have "sync_reachable g b T" by (rule sync_reachable.step [OF b i tk(3) step])
  ultimately show ?thesis using tk c by (auto simp: contexts_ok_def Let_def)
qed

text \<open>A step of the protocol outside of actions: it may be the return from one.\<close>

lemma worker_executed:
  assumes "worker_step i s = Next s'"
  shows "executed s' = executed s
    \<or> executed s' = executed s @ [i] \<and> pc (thrd s i) = Run \<and> (\<exists>tk. task s = Some tk \<and> i < concurrency (params tk))"
  using assms
  by (auto simp: worker_step_def step_defs step_Next_simps Let_def
      split: worker_pc.splits list.splits phase.splits option.splits sum.splits if_splits)

lemma protocol_step_ok:
  assumes ok: "contexts_ok p S" and ctl: "control_ok n (squad_part S)" and i: "0 \<le> i"
    and out: "inside_action p i S = None" and step: "worker_step i (squad_part S) = Next s"
  shows "contexts_ok p (S\<lparr>squad_part := s\<rparr>)"
proof -
  note fr = worker_step_frame [OF step]
  have g: "current_task p s tk = current_task p (squad_part S) tk" for tk
    by (rule current_task_cong) (use fr in auto)
  from worker_executed [OF step] show ?thesis
  proof
    assume "executed s = executed (squad_part S)"
    then show ?thesis by (intro contexts_ok_cong [OF ok]) (use fr in auto)
  next
    assume ex: "executed s = executed (squad_part S) @ [i] \<and> pc (thrd (squad_part S) i) = Run
      \<and> (\<exists>tk. task (squad_part S) = Some tk \<and> i < concurrency (params tk))"
    then obtain tk where tk: "task (squad_part S) = Some tk" "i < concurrency (params tk)" by blast
    let ?g = "current_task p (squad_part S) tk"
    have c: "concurrency (params tk) \<noteq> 0" using tk i by simp
    obtain b where b: "sync_reachable ?g b (contexts S)"
      using ok tk c by (auto simp: contexts_ok_def Let_def)
    have "length (results (contexts S i)) \<le> length (operations ?g)"
      using node_i [OF sync_reachable_at [OF b current_task_ok [OF ctl tk(1) c] i]] tk(2) by (simp add: node_cond_def)
    then have "length (results (contexts S i)) = length (operations ?g)"
      using out tk ex by (auto simp: inside_action_def split: if_splits)
    then show ?thesis using ok tk c ex fr by (auto simp: contexts_ok_def Let_def g)
  qed
qed

section \<open>Steps of the main thread\<close>

lemma main_step_tree: "main_step s = Next s' \<Longrightarrow> numThreads s' = numThreads s \<and> numSubthreads s' = numSubthreads s"
  by (auto simp: main_step_def begin_call_def step_defs step_Next_simps
      split: main_pc.splits list.splits option.splits if_splits)

text \<open>What a step of the main thread does to the task and to the log of completed calls.\<close>

lemma main_step_kinds:
  assumes ctl: "control_ok n s" and step: "main_step s = Next s'"
  obtains (quiet) "task s' = task s" "executed s' = executed s" "finished s' = finished s"
  | (begin_task) tk where "task s = None" "task s' = Some tk" "executed s' = []" "finished s' = finished s"
  | (no_work) tk where "task s = None" "task s' = None" "finished s' = finished s @ [(tk, [], [])]"
      "concurrency (params tk) = 0"
  | (release) tk where "task s = Some tk" "main s = MRelease" "task s' = None"
      "finished s' = finished s @ [(tk, executed s, data s)]"
proof (cases "task s")
  case None
  have "main s = MReady" using control_okD(6) [OF ctl None] step by (auto simp: idle_ok_def main_step_def)
  then obtain tk tks where b: "begin_call tk tks s = Next s'"
    using step by (auto simp: main_step_def split: list.splits)
  show ?thesis
  proof (cases "have_work s tk")
    case True
    then show ?thesis using b None begin_task by (auto simp: begin_call_def step_Next_simps)
  next
    case False
    then have "concurrency (params tk) = 0" by (simp add: have_work_def)
    then show ?thesis using False b None no_work by (auto simp: begin_call_def step_Next_simps)
  qed
next
  case (Some tk)
  show ?thesis
  proof (cases "main s = MRelease")
    case True
    then show ?thesis using step Some release by (auto simp: main_step_def)
  next
    case False
    then show ?thesis using step Some control_okD(7) [OF ctl Some] quiet
      by (auto simp: main_step_def step_defs step_Next_simps call_ok_def split: main_pc.splits if_splits)
  qed
qed

lemma reset_start [simp]: "(\<lambda>i. (sync_start b i)\<lparr>results := []\<rparr>) = sync_start b"
  by (simp add: sync_start_def)

lemma complete_call_grows:
  assumes "length (finished s) = Suc (length (finished (squad_part S)))"
  shows "contexts (complete_call S s) = (\<lambda>i. (contexts S i)\<lparr>results := []\<rparr>)"
    "returned (complete_call S s) = returned S @ [\<lambda>i. results (contexts S i)]"
  using assms by (simp_all add: complete_call_def)

lemma returned_ok_cong:
  assumes "returned_ok p S" "returned S' = returned S" "finished (squad_part S') = finished (squad_part S)"
    "numThreads (squad_part S') = numThreads (squad_part S)" "numSubthreads (squad_part S') = numSubthreads (squad_part S)"
  shows "returned_ok p S'"
  using assms by (simp add: returned_ok_def context_task_def Let_def)

lemma returned_ok_append:
  assumes ok: "returned_ok p S" and "numThreads s = numThreads (squad_part S)"
    "numSubthreads s = numSubthreads (squad_part S)"
    and fin: "finished s = finished (squad_part S) @ [out]"
    and new: "\<And>i. 0 \<le> i \<Longrightarrow> i < running (current_task p s' (fst out)) \<Longrightarrow>
      results (contexts S i) = tree_results (current_task p s' (fst out))"
    and s': "s' = squad_part S"
  shows "returned_ok p (complete_call S s)"
proof -
  have g: "context_task s tk q = context_task (squad_part S) tk q" for tk and q :: "'a context_program"
    using assms(2,3) by (simp add: context_task_def)
  have len: "length (returned S) = length (finished (squad_part S))" using ok by (simp add: returned_ok_def)
  show ?thesis
    using ok new complete_call_grows(2) [of s S] fin
    by (auto simp: returned_ok_def g nth_append len less_Suc_eq current_task_def Let_def s')
qed

lemma executed_returned:
  assumes ok: "contexts_ok p S" and ctl: "control_ok n (squad_part S)" and dat: "task_data_ok n (squad_part S)"
    and tk: "task (squad_part S) = Some tk" and rel: "main (squad_part S) = MRelease"
    and g: "g = current_task p (squad_part S) tk" and c: "running g \<noteq> 0"
  obtains b where "sync_reachable g b (contexts S)" "sync_task_ok g"
    "\<And>i. 0 \<le> i \<Longrightarrow> i < running g \<Longrightarrow> length (results (contexts S i)) = length (operations g)"
proof -
  have "mset (executed (squad_part S)) = mset_set {0..<running g}"
    using release_outcome [OF ctl dat tk rel] by (simp add: outcome_ok_def Let_def g)
  then have "set (executed (squad_part S)) = {0..<running g}"
    by (metis finite_atLeastLessThan_int finite_set_mset_mset_set set_mset_mset)
  moreover have "sync_task_ok g" using current_task_ok [OF ctl tk] c by (simp add: g)
  ultimately show thesis using ok tk c that by (auto simp: contexts_ok_def Let_def g)
qed

lemma main_step_ok:
  assumes ok: "contexts_ok p S" "returned_ok p S" and ctl: "control_ok n (squad_part S)"
    and dat: "task_data_ok n (squad_part S)" and step: "main_step (squad_part S) = Next s"
  shows "contexts_ok p (complete_call S s) \<and> returned_ok p (complete_call S s)"
  using ctl step
proof (cases rule: main_step_kinds)
  case quiet
  have fr: "numThreads s = numThreads (squad_part S)" "numSubthreads s = numSubthreads (squad_part S)"
    using main_step_tree [OF step] by auto
  show ?thesis using contexts_ok_cong [OF ok(1)] returned_ok_cong [OF ok(2)] quiet fr by simp
next
  case (begin_task tk)
  have fr: "numThreads s = numThreads (squad_part S)" "numSubthreads s = numSubthreads (squad_part S)"
    using main_step_tree [OF step] by auto
  obtain b where "contexts S = sync_start b" using ok(1) begin_task by (auto simp: contexts_ok_def)
  then have "contexts_ok p (complete_call S s)"
    using begin_task sync_reachable.start by (auto simp: contexts_ok_def Let_def)
  then show ?thesis using returned_ok_cong [OF ok(2)] begin_task fr by simp
next
  case (no_work tk)
  have fr: "numThreads s = numThreads (squad_part S)" "numSubthreads s = numSubthreads (squad_part S)"
    using main_step_tree [OF step] by auto
  obtain b where "contexts S = sync_start b" using ok(1) no_work by (auto simp: contexts_ok_def)
  then have "contexts_ok p (complete_call S s)"
    using no_work complete_call_grows(1) [of s S] by (auto simp: contexts_ok_def)
  moreover have "returned_ok p (complete_call S s)"
    by (rule returned_ok_append [OF ok(2) fr no_work(3) _ refl]) (simp add: no_work)
  ultimately show ?thesis by blast
next
  case (release tk)
  have fr: "numThreads s = numThreads (squad_part S)" "numSubthreads s = numSubthreads (squad_part S)"
    using main_step_tree [OF step] by auto
  let ?g = "current_task p (squad_part S) tk"
  have grow: "contexts (complete_call S s) = (\<lambda>i. (contexts S i)\<lparr>results := []\<rparr>)"
    using complete_call_grows(1) [of s S] release by simp
  have clean: "\<exists>b. (\<lambda>i. (contexts S i)\<lparr>results := []\<rparr>) = sync_start b"
    and res: "\<And>i. 0 \<le> i \<Longrightarrow> i < running ?g \<Longrightarrow> results (contexts S i) = tree_results ?g"
  proof -
    show "\<exists>b. (\<lambda>i. (contexts S i)\<lparr>results := []\<rparr>) = sync_start b"
    proof (cases "running ?g = 0")
      case True
      then show ?thesis using ok(1) release by (auto simp: contexts_ok_def)
    next
      case False
      from ok(1) ctl dat release(1,2) refl False show ?thesis
        by (rule executed_returned) (use contexts_clean in blast)
    qed
    fix i assume i: "0 \<le> i" "i < running ?g"
    then have c: "running ?g \<noteq> 0" by simp
    from ok(1) ctl dat release(1,2) refl c show "results (contexts S i) = tree_results ?g"
    proof (rule executed_returned)
      fix b assume b: "sync_reachable ?g b (contexts S)" "sync_task_ok ?g"
        and len: "\<And>i. 0 \<le> i \<Longrightarrow> i < running ?g \<Longrightarrow> length (results (contexts S i)) = length (operations ?g)"
      show ?thesis using node_i [OF sync_reachable_at [OF b i]] len [OF i]
        by (simp add: node_cond_def tree_results_def)
    qed
  qed
  have "contexts_ok p (complete_call S s)" using clean release grow by (simp add: contexts_ok_def)
  moreover have "returned_ok p (complete_call S s)"
    by (rule returned_ok_append [OF ok(2) fr release(4) _ refl]) (use res in simp)
  ultimately show ?thesis by blast
qed

section \<open>All reachable states\<close>

lemma program_reachable_ok:
  assumes "program_reachable n calls p S" "tree_exact n" "1 \<le> n" "valid_calls n calls"
  shows "squad_ok n calls (squad_part S) \<and> contexts_ok p S \<and> returned_ok p S"
  using assms(1)
proof induction
  case (start s)
  have "squad_ok n calls s" by (rule reachable_squad_ok [OF reachable.start [OF start] assms(2-4)])
  then show ?case using start
    by (auto simp: program_start_def contexts_ok_def returned_ok_def construct_squad_def)
next
  case (step S S')
  have sq: "squad_ok n calls (squad_part S)" and ctl: "control_ok n (squad_part S)"
    and dat: "task_data_ok n (squad_part S)" and ok: "contexts_ok p S" "returned_ok p S"
    using step.IH by (auto simp: squad_ok_def)
  have sq': "squad_ok n calls (squad_part S')"
    by (rule program_squad_ok [OF program_reachable.step [OF step.hyps] assms(2-4)])
  from step.hyps(2) have "contexts_ok p S' \<and> returned_ok p S'"
  proof cases
    case main
    then show ?thesis using main_step_ok [OF ok ctl dat] by (auto simp: program_main_step_def)
  next
    case (worker i)
    from worker(3) show ?thesis
    proof (cases rule: program_worker_cases)
      case (action g T)
      then show ?thesis using action_step_ok [OF ok(1) ctl worker(1)] returned_ok_cong [OF ok(2)] by simp
    next
      case (protocol s)
      then show ?thesis
        using protocol_step_ok [OF ok(1) ctl worker(1)] returned_ok_cong [OF ok(2)] worker_step_frame [OF protocol(2)]
        by simp
    qed
  qed
  with sq' show ?case by blast
qed

end
