(* ===== verification/Squad_Program_Properties.thy ===== *)
theory Squad_Program_Properties
  imports Squad_Program_Invariant Squad_Properties
begin

text \<open>
  Programs whose tasks synchronize never fault, never get stuck and end, and every operation of
  every call has returned the reduction of its threads' values. The heart of it is that the two
  protocols do not wait for each other: a thread that waits in an operation does so inside the action
  of its task, and all threads of the task get there, because every thread passes the task on to its
  subordinate threads before it executes it.
\<close>

section \<open>No step fails\<close>

lemma program_main_no_fault:
  assumes "squad_ok n calls (squad_part S)"
  shows "program_main_step S \<noteq> Breaks e"
  using assms main_no_fault by (auto simp: program_main_step_def squad_ok_def)

lemma program_worker_no_fault:
  assumes sq: "squad_ok n calls (squad_part S)" and ok: "contexts_ok p S" and i: "0 \<le> i" "i < n"
  shows "program_worker_step p i S \<noteq> Breaks e"
proof (cases "inside_action p i S")
  case None
  have ctl: "control_ok n (squad_part S)" and dat: "task_data_ok n (squad_part S)" using sq by (auto simp: squad_ok_def)
  have "worker_step i (squad_part S) \<noteq> Fault e"
    using idle_no_fault [OF ctl i] call_no_fault [OF ctl dat i] by (cases "task (squad_part S)") blast+
  then show ?thesis using None by (simp add: program_worker_step_def)
next
  case (Some g)
  then obtain tk where tk: "task (squad_part S) = Some tk" "g = current_task p (squad_part S) tk" "i < running g"
    by (rule inside_actionD)
  then have c: "concurrency (params tk) \<noteq> 0" using i by simp
  have ctl: "control_ok n (squad_part S)" using sq by (simp add: squad_ok_def)
  have g: "sync_task_ok g" using current_task_ok [OF ctl tk(1) c] tk(2) by simp
  obtain b where "sync_reachable g b (contexts S)" using ok tk c by (auto simp: contexts_ok_def Let_def)
  then have "safe_outcome g (sync_step g i (contexts S))"
    by (intro sync_step_safe sync_reachable_at) (use g i tk in auto)
  then show ?thesis using Some by (auto simp: program_worker_step_def split: sync_outcome.splits)
qed

section \<open>The protocols do not wait for each other\<close>

text \<open>
  When the main thread waits and every worker waits or is about to execute the task, no thread of the
  task is on its way there: it is about to execute the task or has executed it.
\<close>

lemma all_reach_run:
  assumes ctl: "control_ok n s" and tk: "task s = Some tk" and mb: "main_step s = Blocked"
    and wb: "\<And>i. 0 \<le> i \<Longrightarrow> i < n \<Longrightarrow> worker_step i s = Blocked \<or> pc (thrd s i) = Run"
    and i: "0 \<le> i" "i < concurrency (params tk)"
  shows "pc (thrd s i) = Run \<or> ran (thrd s i)"
proof -
  note d = control_okD [OF ctl]
  have call: "call_ok n tk s" by (rule d(7) [OF tk])
  let ?m = "round_size n (first s) tk" and ?jn = "join_requested (params tk)"
  have rs: "round_state n ?m (first s) ?jn (main s) (thrd s)" using call by (simp add: call_ok_def)
  note r = round_stateD [OF rs]
  have c: "concurrency (params tk) \<le> ?m" "?m \<le> n"
    using call r(2) by (auto simp: call_ok_def valid_task_def round_size_def)
  have here: "pc (thrd s j) = Run \<or> ran (thrd s j)"
    if j: "0 \<le> j" "j < n" and act: "stage (thrd s j) \<noteq> Before" "pc (thrd s j) \<noteq> Unforked" for j
  proof (cases "stage (thrd s j)")
    case Active
    then show ?thesis using wb [OF j] blockedD [of j s] r(7) [OF j] act(2)
      by (auto simp: ran_def worker_simps split: if_splits)
  qed (use act in \<open>auto simp: ran_def\<close>)
  have "stage (thrd s 0) \<noteq> Before \<and> pc (thrd s 0) \<noteq> Unforked"
    using mb r(6) r(7) [of 0] tk call d(2,3)
    by (auto simp: main_step_def step_defs access_ok root_ok_def call_ok_def worker_simps
        split: main_pc.splits if_splits stage.splits)
  then have "stage (thrd s i) \<noteq> Before \<and> pc (thrd s i) \<noteq> Unforked"
  proof (rule tree.tree_induct [OF d(1) c(2) i(1), rotated])
    show "i < ?m" using i(2) c(1) by simp
    fix q t assume q: "0 \<le> q" "q < ?m" "stage (thrd s q) \<noteq> Before \<and> pc (thrd s q) \<noteq> Unforked"
      "t \<in> set (down_kids n q ?m)"
    then have t: "t \<in> set (down_kids n q n)" "t < ?m" using kids_m(1) [OF rs] by auto
    have "q < n" using q c(2) by simp
    then have "edge_ok ?m (thrd s q) t (thrd s t)" "pc (thrd s q) = Run \<or> ran (thrd s q)"
      "worker_ok n ?m (first s) ?jn q (thrd s q)"
      using r(8) [OF q(1) _ t(1)] here [OF q(1)] r(7) [OF q(1)] q(3) by auto
    then show "stage (thrd s t) \<noteq> Before \<and> pc (thrd s t) \<noteq> Unforked"
      using t(2) q(3) by (auto simp: edge_ok_def stage_edge_def unnotified_def unforked_def ran_def worker_simps
          split: stage.splits worker_pc.splits if_splits)
  qed
  then show ?thesis using here i c by simp
qed

lemma executed_if_ran:
  assumes "task_data_ok n s" "task s = Some tk" "0 \<le> i" "i < n" "i < concurrency (params tk)" "ran (thrd s i)"
  shows "i \<in> set (executed s)"
proof -
  have "count_list (executed s) i = 1"
    using assms by (auto simp: task_data_ok_def executed_ok_def Let_def)
  then show ?thesis by (metis count_list_0_iff zero_neq_one)
qed

lemma no_worker_inside:
  assumes sq: "squad_ok n calls (squad_part S)" and ok: "contexts_ok p S"
    and mb: "program_main_step S = Stays"
    and wb: "\<And>i. 0 \<le> i \<Longrightarrow> i < n \<Longrightarrow> program_worker_step p i S = Stays"
    and i: "0 \<le> i"
  shows "inside_action p i S = None"
proof (rule ccontr)
  assume "inside_action p i S \<noteq> None"
  then obtain g where "inside_action p i S = Some g" by blast
  then obtain tk where tk: "task (squad_part S) = Some tk" "g = current_task p (squad_part S) tk"
    and ig: "i < running g" "length (results (contexts S i)) < length (operations g)"
    by (rule inside_actionD)
  have ctl: "control_ok n (squad_part S)" and dat: "task_data_ok n (squad_part S)" using sq by (auto simp: squad_ok_def)
  have c: "concurrency (params tk) \<noteq> 0" using ig i tk(2) by simp
  have g: "sync_task_ok g" using current_task_ok [OF ctl tk(1) c] tk(2) by simp
  have cn: "running g \<le> n" using sync_taskD(3) [OF g] tk(2) control_okD(3) [OF ctl] by simp
  obtain b where b: "sync_reachable g b (contexts S)"
    and ex: "\<And>j. j \<in> set (executed (squad_part S)) \<Longrightarrow> 0 \<le> j \<Longrightarrow> j < running g \<Longrightarrow>
      length (results (contexts S j)) = length (operations g)"
    using ok tk c by (auto simp: contexts_ok_def Let_def)
  have blocked: "worker_step j (squad_part S) = Blocked \<or> pc (thrd (squad_part S) j) = Run" if "0 \<le> j" "j < n" for j
    using wb [OF that] by (auto simp: program_worker_step_def inside_action_def split: option.splits if_splits)
  have stuck: "sync_step g j (contexts S) = Waits" if j: "0 \<le> j" "j < running g" for j
  proof -
    have at: "sync_at g (contexts S) j" by (rule sync_reachable_at [OF b g j])
    have "pc (thrd (squad_part S) j) = Run \<or> ran (thrd (squad_part S) j)"
      by (rule all_reach_run [OF ctl tk(1) _ blocked j(1)]) (use mb j(2) tk(2) in \<open>auto simp: program_main_step_def\<close>)
    then consider (fin) "length (results (contexts S j)) = length (operations g)"
      | (inside) "pc (thrd (squad_part S) j) = Run" "length (results (contexts S j)) < length (operations g)"
      using executed_if_ran [OF dat tk(1) j(1)] ex [OF _ j] j(2) cn tk(2) node_i [OF at]
      by (fastforce simp: node_cond_def)
    then show ?thesis
    proof cases
      case fin
      then show ?thesis by (rule returned_waits [OF at])
    next
      case inside
      then have "inside_action p j S = Some g" using tk j by (simp add: inside_action_def)
      then show ?thesis using wb [OF j(1)] j(2) cn
        by (auto simp: program_worker_step_def split: sync_outcome.splits)
    qed
  qed
  then show False using stuck_done [OF sync_reachable_inv [OF b g] g stuck i ig(1)] ig(2) by simp
qed

lemma program_progress:
  assumes sq: "squad_ok n calls (squad_part S)" and ok: "contexts_ok p S" and nf: "\<not> finished_all (squad_part S)"
  shows "\<exists>S'. program_step p S S'"
proof (rule ccontr)
  assume stuck: "\<nexists>S'. program_step p S S'"
  have num: "numThreads (squad_part S) = n" using sq control_okD(3) by (auto simp: squad_ok_def)
  have mb: "program_main_step S = Stays"
    using stuck program_main_no_fault [OF sq] program_step.main by (cases "program_main_step S") blast+
  have wb: "program_worker_step p i S = Stays" if "0 \<le> i" "i < n" for i
    using stuck program_worker_no_fault [OF sq ok that] program_step.worker that num
    by (cases "program_worker_step p i S") blast+
  have out: "inside_action p i S = None" if "0 \<le> i" for i
    by (rule no_worker_inside [OF sq ok mb wb that])
  obtain s where "squad_step (squad_part S) s" using progress [OF sq nf] by blast
  then show False
  proof cases
    case main
    then show ?thesis using mb by (simp add: program_main_step_def)
  next
    case (worker i)
    then show ?thesis using wb [of i] out [of i] num by (simp add: program_worker_step_def)
  qed
qed

section \<open>Every execution ends\<close>

text \<open>A bound on the number of steps that the contexts of a call make.\<close>

definition call_steps :: "'v squad_task \<Rightarrow> 'v context_program \<Rightarrow> nat" where
  "call_steps tk q = (case task_op tk of NopTask \<Rightarrow> 0
     | _ \<Rightarrow> nat (concurrency (params tk)) * (length (context_operations q) * (5 * nat (concurrency (params tk)) + 9)))"

text \<open>The number of the call that the main thread makes next.\<close>

definition next_call :: "'v squad \<Rightarrow> nat" where
  "next_call s = length (finished s) + (case task s of None \<Rightarrow> 0 | Some tk \<Rightarrow> 1)"

definition context_steps_left :: "(nat \<Rightarrow> 'v context_program) \<Rightarrow> 'v program_state \<Rightarrow> nat" where
  "context_steps_left p S =
     (case task (squad_part S) of
        None \<Rightarrow> 0
      | Some tk \<Rightarrow> Squad_Sync_Properties.steps_left (current_task p (squad_part S) tk) (contexts S))"

definition program_measure :: "int \<Rightarrow> 'v squad_task list \<Rightarrow> (nat \<Rightarrow> 'v context_program) \<Rightarrow> 'v program_state \<Rightarrow> nat" where
  "program_measure n calls p S =
     squad_measure n (squad_part S) + context_steps_left p S
   + (\<Sum>j\<in>{next_call (squad_part S)..<length calls}. call_steps (calls ! j) (p j))"

lemma current_task_start:
  "Squad_Sync_Properties.steps_left (current_task p s tk) (sync_start b) = call_steps tk (p (length (finished s)))"
  by (cases "task_op tk")
    (simp_all add: Squad_Sync_Properties.steps_left_def sync_start_def thread_steps_def call_steps_def current_task_def
      context_task_def steps_per_operation_def)

lemma program_main_less:
  assumes sq: "squad_ok n calls (squad_part S)" and ok: "contexts_ok p S"
    and sq': "squad_ok n calls s" and step: "main_step (squad_part S) = Next s"
  shows "program_measure n calls p (complete_call S s) < program_measure n calls p S"
proof -
  let ?s = "squad_part S" and ?f = "\<lambda>j. call_steps (calls ! j) (p j)"
  have ctl: "control_ok n ?s" and log: "calls_ok calls s" using sq sq' by (auto simp: squad_ok_def)
  have less: "squad_measure n s < squad_measure n ?s" by (rule main_step_less [OF ctl step])
  have fr: "numThreads s = numThreads ?s" "numSubthreads s = numSubthreads ?s" using main_step_tree [OF step] by auto
  have drop: "(\<Sum>j\<in>{Suc k..<length calls}. ?f j) \<le> (\<Sum>j\<in>{k..<length calls}. ?f j)" for k
    by (rule sum_mono2) auto
  from ctl step show ?thesis
  proof (cases rule: main_step_kinds)
    case quiet
    then have "next_call s = next_call ?s" by (simp add: next_call_def)
    moreover have "context_steps_left p (complete_call S s) = context_steps_left p S"
      using quiet current_task_cong [OF fr, of p] by (simp add: context_steps_left_def split: option.splits)
    ultimately show ?thesis using less by (simp add: program_measure_def)
  next
    case (begin_task tk)
    let ?k = "length (finished ?s)"
    have k: "next_call ?s = ?k" "next_call s = Suc ?k" "?k < length calls" "calls ! ?k = tk"
      using begin_task log by (auto simp: next_call_def calls_ok_def nth_append)
    obtain b where "contexts S = sync_start b" using ok begin_task by (auto simp: contexts_ok_def)
    then have "context_steps_left p (complete_call S s) = ?f ?k" "context_steps_left p S = 0"
      using begin_task k(4) by (simp_all add: context_steps_left_def current_task_start)
    then show ?thesis using less k sum.atLeast_Suc_lessThan [OF k(3), of ?f] by (simp add: program_measure_def)
  next
    case (no_work tk)
    then show ?thesis using less drop [of "length (finished ?s)"]
      by (simp add: program_measure_def next_call_def context_steps_left_def)
  next
    case (release tk)
    then show ?thesis using less by (simp add: program_measure_def next_call_def context_steps_left_def)
  qed
qed

lemma program_step_less:
  assumes sq: "squad_ok n calls (squad_part S)" and ok: "contexts_ok p S"
    and sq': "squad_ok n calls (squad_part S')" and step: "program_step p S S'"
  shows "program_measure n calls p S' < program_measure n calls p S"
  using step
proof cases
  case main
  then show ?thesis using program_main_less [OF sq ok] sq' by (auto simp: program_main_step_def)
next
  case (worker i)
  have ctl: "control_ok n (squad_part S)" using sq by (simp add: squad_ok_def)
  from worker(3) show ?thesis
  proof (cases rule: program_worker_cases)
    case (action g T)
    from action(1) obtain tk where tk: "task (squad_part S) = Some tk" "g = current_task p (squad_part S) tk" "i < running g"
      by (rule inside_actionD)
    then have c: "concurrency (params tk) \<noteq> 0" using worker(1) by simp
    have g: "sync_task_ok g" using current_task_ok [OF ctl tk(1) c] tk(2) by simp
    obtain b where b: "sync_reachable g b (contexts S)" using ok tk c by (auto simp: contexts_ok_def Let_def)
    have "Squad_Sync_Properties.steps_left g T < Squad_Sync_Properties.steps_left g (contexts S)"
      by (rule steps_left_decreases [OF sync_reachable_at [OF b g worker(1) tk(3)] action(2)])
    then show ?thesis using action(3) tk by (simp add: program_measure_def context_steps_left_def)
  next
    case (protocol s)
    note fr = worker_step_frame [OF protocol(2)]
    have "squad_measure n s < squad_measure n (squad_part S)"
      by (rule squad_step_less [OF sq squad_step.worker [OF worker(1,2) protocol(2)]])
    moreover have "context_steps_left p S' = context_steps_left p S" "next_call s = next_call (squad_part S)"
      using fr protocol(3) current_task_cong [of s "squad_part S" p]
      by (auto simp: context_steps_left_def next_call_def split: option.splits)
    ultimately show ?thesis using protocol(3) by (simp add: program_measure_def)
  qed
qed

lemma program_steps_bounded:
  assumes "construct_squad n calls = Some s0" "tree_exact n" "1 \<le> n" "valid_calls n calls"
    and "(program_step p ^^ k) (program_start s0) S"
  shows "program_reachable n calls p S"
    "program_measure n calls p S + k \<le> program_measure n calls p (program_start s0)"
proof -
  have "program_reachable n calls p S \<and> program_measure n calls p S + k \<le> program_measure n calls p (program_start s0)"
    using assms(5)
  proof (induction k arbitrary: S)
    case 0
    then show ?case using program_reachable.start [OF assms(1)] by simp
  next
    case (Suc k)
    then obtain R where R: "(program_step p ^^ k) (program_start s0) R" "program_step p R S" by auto
    then have r: "program_reachable n calls p R" "program_reachable n calls p S"
      and m: "program_measure n calls p R + k \<le> program_measure n calls p (program_start s0)"
      using Suc.IH program_reachable.step by blast+
    have "program_measure n calls p S < program_measure n calls p R"
      using program_step_less [OF _ _ _ R(2)] program_reachable_ok [OF r(1) assms(2-4)]
        program_reachable_ok [OF r(2) assms(2-4)] by blast
    with m r(2) show ?case by simp
  qed
  then show "program_reachable n calls p S"
    "program_measure n calls p S + k \<le> program_measure n calls p (program_start s0)" by auto
qed

lemma program_measure_start:
  assumes "construct_squad n calls = Some s0"
  shows "program_measure n calls p (program_start s0)
    = length calls * call_cost (nat n) + nat n * (7 * nat n + 14) + (\<Sum>j<length calls. call_steps (calls ! j) (p j))"
  using assms
  by (auto simp: construct_squad_def program_measure_def program_start_def squad_measure_def main_steps_left_def
      Squad_Liveness.steps_left_def initial_thread_def context_steps_left_def next_call_def lessThan_atLeast0)

text \<open>What the completed calls have returned, in terms of the program.\<close>

lemma reachable_tree:
  assumes "reachable n calls s"
  shows "construct_squad n calls = Some s0 \<Longrightarrow> numThreads s = numThreads s0 \<and> numSubthreads s = numSubthreads s0"
  using assms
proof induction
  case (step s s')
  from step.hyps(2) show ?case
  proof cases
    case main
    then show ?thesis using step main_step_tree by metis
  next
    case (worker i)
    then show ?thesis using step worker_step_frame by metis
  qed
qed simp

lemma returned_results:
  assumes s0: "construct_squad n calls = Some s0" and n: "tree_exact n" "1 \<le> n" and calls: "valid_calls n calls"
    and reach: "program_reachable n calls p S" and j: "j < length (returned S)"
    and i: "0 \<le> i" "i < concurrency (params (calls ! j))"
  shows "(returned S ! j) i = tree_results (context_task s0 (calls ! j) (p j))"
    "\<forall>op\<in>set (context_operations (p j)). associative op
      \<Longrightarrow> (returned S ! j) i = sequential_results (context_task s0 (calls ! j) (p j))"
proof -
  let ?s = "squad_part S" and ?g = "context_task s0 (calls ! j) (p j)"
  have ok: "squad_ok n calls ?s" "returned_ok p S" using program_reachable_ok [OF reach n calls] by auto
  then have log: "calls_ok calls ?s" by (simp add: squad_ok_def)
  have tr: "numThreads ?s = numThreads s0" "numSubthreads ?s = numSubthreads s0"
    using reachable_tree [OF program_squad_reachable [OF reach] s0] by auto
  have jf: "j < length (finished ?s)" using ok(2) j by (simp add: returned_ok_def)
  then have tk: "fst (finished ?s ! j) = calls ! j"
    using log by (auto simp: calls_ok_def nth_append split: prod.splits)
  have "context_task ?s (fst (finished ?s ! j)) (p j) = ?g" using tr tk by (simp add: context_task_def)
  then show tree: "(returned S ! j) i = tree_results ?g"
    using ok(2) j i by (auto simp: returned_ok_def Let_def context_task_def)
  assume assoc: "\<forall>op\<in>set (context_operations (p j)). associative op"
  have "tree_results ?g = sequential_results ?g"
  proof (rule tree_results_sequential)
    have jl: "j < length calls" using jf log by (auto simp: calls_ok_def)
    have "valid_task n (calls ! j)"
      using calls jl by (induction calls arbitrary: j) (auto simp: nth_Cons split: nat.splits)
    moreover have "squad_strides n = Some (numSubthreads s0)" "numThreads s0 = n"
      using s0 by (auto simp: construct_squad_def)
    ultimately show "sync_task_ok ?g"
      using n i by (simp add: sync_task_ok_def context_task_def valid_task_def)
    show "\<forall>op\<in>set (operations ?g). associative op"
      using assoc by (auto simp: context_task_def split: task_op.splits)
  qed
  with tree show "(returned S ! j) i = sequential_results ?g" by simp
qed

section \<open>An execution\<close>

text \<open>The main thread goes first, then the worker with the smallest index that can make a step.\<close>

fun first_program_step :: "(nat \<Rightarrow> 'v context_program) \<Rightarrow> int list \<Rightarrow> 'v program_state \<Rightarrow> 'v program_state option" where
  "first_program_step p [] S = None"
| "first_program_step p (i # is) S =
     (case program_worker_step p i S of Continues S' \<Rightarrow> Some S' | _ \<Rightarrow> first_program_step p is S)"

definition next_program_step :: "(nat \<Rightarrow> 'v context_program) \<Rightarrow> 'v program_state \<Rightarrow> 'v program_state option" where
  "next_program_step p S =
     (case program_main_step S of Continues S' \<Rightarrow> Some S'
      | _ \<Rightarrow> first_program_step p [0..numThreads (squad_part S) - 1] S)"

fun program_run :: "nat \<Rightarrow> (nat \<Rightarrow> 'v context_program) \<Rightarrow> 'v program_state \<Rightarrow> 'v program_state" where
  "program_run 0 p S = S"
| "program_run (Suc k) p S = (case next_program_step p S of None \<Rightarrow> S | Some S' \<Rightarrow> program_run k p S')"

lemma first_program_step_step:
  "first_program_step p is S = Some S' \<Longrightarrow> set is \<subseteq> {0..<numThreads (squad_part S)} \<Longrightarrow> program_step p S S'"
  by (induction "is") (auto split: program_outcome.splits intro: program_step.worker)

lemma next_program_step_step:
  assumes "next_program_step p S = Some S'"
  shows "program_step p S S'"
proof -
  have "set [0..numThreads (squad_part S) - 1] \<subseteq> {0..<numThreads (squad_part S)}" by auto
  note worker = first_program_step_step [OF _ this]
  show ?thesis using assms worker
    by (auto simp: next_program_step_def split: program_outcome.splits intro: program_step.main)
qed

lemma program_run_steps: "\<exists>j. (program_step p ^^ j) S (program_run k p S)"
proof (induction k arbitrary: S)
  case 0
  have "(program_step p ^^ 0) S (program_run 0 p S)" by simp
  then show ?case by blast
next
  case (Suc k)
  show ?case
  proof (cases "next_program_step p S")
    case None
    then have "(program_step p ^^ 0) S (program_run (Suc k) p S)" by simp
    then show ?thesis by blast
  next
    case (Some S')
    obtain j where "(program_step p ^^ j) S' (program_run k p S')" using Suc.IH by blast
    then have "(program_step p ^^ Suc j) S (program_run k p S')"
      using next_program_step_step [OF Some] by (metis relpowp_Suc_I2)
    then show ?thesis using Some by (auto simp del: relpowp.simps)
  qed
qed

text \<open>
  On a squad of two threads, both exchange lists twice in the transformation of a transform-reduce
  task; then the squad is joined.
\<close>

definition talk_calls :: "int list squad_task list" where
  "talk_calls =
     [\<lparr>params = \<lparr>concurrency = 2, join_requested = False\<rparr>, task_op = TransformReduceTask (\<lambda>i m. [i, m]) (@)\<rparr>,
      \<lparr>params = \<lparr>concurrency = 0, join_requested = True\<rparr>, task_op = NopTask\<rparr>]"

definition talk :: "nat \<Rightarrow> int list context_program" where
  "talk j = \<lparr>context_operations = [Reduce (@), ReduceTransform (@) rev],
     context_contribution = (\<lambda>rs i. [i + 10 * int (length rs)])\<rparr>"

definition talk_start :: "int list squad" where
  "talk_start = the (construct_squad 2 talk_calls)"

definition talk_state :: "nat \<Rightarrow> int list program_state" where
  "talk_state k = program_run k talk (program_start talk_start)"

lemma talk_start: "construct_squad 2 talk_calls = Some talk_start"
  using construct_Some [of 2 talk_calls] by (auto simp: talk_start_def)

lemma talk_ok: "tree_exact 2" "valid_calls 2 talk_calls"
    "\<forall>j<length talk_calls. \<forall>op\<in>set (context_operations (talk j)). associative op"
  by (simp_all add: tree_exact_small talk_calls_def valid_task_def talk_def associative_def combine_def)

lemma talk_reachable: "program_reachable 2 talk_calls talk (talk_state k)"
proof -
  obtain j where "(program_step talk ^^ j) (program_start talk_start) (talk_state k)"
    using program_run_steps unfolding talk_state_def by blast
  then show ?thesis by (rule program_steps_bounded(1) [OF talk_start talk_ok(1) _ talk_ok(2), rotated]) simp
qed

lemma talk_stuck: "\<nexists>S'. program_step talk (talk_state 100) S'"
proof
  have blocked: "(case program_main_step (talk_state 100) of Stays \<Rightarrow> True | _ \<Rightarrow> False)"
    "list_all (\<lambda>i. case program_worker_step talk i (talk_state 100) of Stays \<Rightarrow> True | _ \<Rightarrow> False) [0, 1]"
    "numThreads (squad_part (talk_state 100)) = 2"
    by code_simp+
  assume "\<exists>S'. program_step talk (talk_state 100) S'"
  then obtain S' where "program_step talk (talk_state 100) S'" ..
  then show False
  proof cases
    case main
    then show ?thesis using blocked(1) by simp
  next
    case (worker i)
    then have "i = 0 \<or> i = 1" using blocked(3) by linarith
    then show ?thesis using blocked(2) worker(3) by auto
  qed
qed

lemma talk_returned: "map (\<lambda>f. map f [0, 1]) (returned (talk_state 100))
  = [replicate 2 [Some [0, 1], Some [11, 10]], [[], []]]"
  by code_simp

section \<open>Properties\<close>

text \<open>
  C7: When tasks synchronize their threads, no thread fails either: in any interleaving of the
  protocol of a squad whose thread tree is exact (among them all of 1 to 64 threads) with the
  operations of the tasks' contexts, no assertion is violated, no access is out of range, and no
  pointer to another thread's synchronizer is invalid or of the wrong type.
\<close>

theorem program_never_faults:
  assumes "program_reachable n calls p S" "tree_exact n" "1 \<le> n" "valid_calls n calls"
  shows "program_main_step S \<noteq> Breaks e \<and> (0 \<le> i \<and> i < n \<longrightarrow> program_worker_step p i S \<noteq> Breaks e)"
  using program_reachable_ok [OF assms] program_main_no_fault program_worker_no_fault by blast

lemma program_never_faults_witness:
  "program_main_step (talk_state 40) \<noteq> Breaks ContractViolation
    \<and> program_worker_step talk 1 (talk_state 40) \<noteq> Breaks UndefinedBehaviour"
  using program_never_faults [OF talk_reachable talk_ok(1) _ talk_ok(2), of 40 ContractViolation 1]
    program_never_faults [OF talk_reachable talk_ok(1) _ talk_ok(2), of 40 UndefinedBehaviour 1] by simp

text \<open>
  C6: The squad and the operations of the contexts never wait for each other: for a squad whose
  thread tree is exact (among them all of 1 to 64 threads), every execution of a program whose
  tasks synchronize ends after a bounded number of steps, and when no thread can make a step, all
  calls have returned, and every operation of every call has returned to every thread of its task
  the reduction of all threads' values in the order of the tree. For every call whose operations
  are associative, this is the reduction from left to right in index order.
\<close>

theorem program_completes:
  assumes "construct_squad n calls = Some s0" "tree_exact n" "1 \<le> n" "valid_calls n calls"
    and "(program_step p ^^ k) (program_start s0) S"
  shows "k \<le> length calls * call_cost (nat n) + nat n * (7 * nat n + 14)
        + (\<Sum>j<length calls. call_steps (calls ! j) (p j))
    \<and> ((\<nexists>S'. program_step p S S') \<longrightarrow>
        finished_all (squad_part S) \<and> length (returned S) = length calls
      \<and> (\<forall>j<length calls. \<forall>i. 0 \<le> i \<and> i < concurrency (params (calls ! j)) \<longrightarrow>
          (returned S ! j) i = tree_results (context_task s0 (calls ! j) (p j))
        \<and> ((\<forall>op\<in>set (context_operations (p j)). associative op) \<longrightarrow>
            (returned S ! j) i = sequential_results (context_task s0 (calls ! j) (p j)))))"
proof -
  note st = program_steps_bounded [OF assms]
  have ok: "squad_ok n calls (squad_part S)" "contexts_ok p S" "returned_ok p S"
    using program_reachable_ok [OF st(1) assms(2-4)] by auto
  have fin: "finished_all (squad_part S) \<and> length (returned S) = length calls" if "\<nexists>S'. program_step p S S'"
  proof -
    have fin: "finished_all (squad_part S)" using program_progress [OF ok(1,2)] that by blast
    moreover have "control_ok n (squad_part S)" "calls_ok calls (squad_part S)" using ok(1) by (auto simp: squad_ok_def)
    ultimately show ?thesis using ok(3)
      by (cases "task (squad_part S)") (auto simp: finished_all_def calls_ok_def control_ok_def call_ok_def returned_ok_def)
  qed
  then show ?thesis
    using st(2) program_measure_start [OF assms(1), of p] returned_results [OF assms(1-4) st(1)] by auto
qed

lemma program_completes_witness:
  "\<exists>k. (program_step talk ^^ k) (program_start talk_start) (talk_state 100)
    \<and> k \<le> 2 * call_cost 2 + 2 * (7 * 2 + 14) + 76
    \<and> finished_all (squad_part (talk_state 100))
    \<and> (returned (talk_state 100) ! 0) 1 = sequential_results (context_task talk_start (talk_calls ! 0) (talk 0))"
proof -
  obtain k where k: "(program_step talk ^^ k) (program_start talk_start) (talk_state 100)"
    using program_run_steps unfolding talk_state_def by blast
  have len: "length talk_calls = 2" "concurrency (params (talk_calls ! 0)) = 2" by (simp_all add: talk_calls_def)
  have cost: "(\<Sum>j<length talk_calls. call_steps (talk_calls ! j) (talk j)) = 76" by code_simp
  note c = program_completes [OF talk_start talk_ok(1) _ talk_ok(2) k, unfolded len(1) cost]
  have assoc: "\<forall>op\<in>set (context_operations (talk 0)). associative op"
    using talk_ok(3) len(1) by (metis zero_less_numeral)
  note d = c [THEN conjunct2, rule_format, OF _ talk_stuck, THEN conjunct2, THEN conjunct2, rule_format, THEN conjunct2, rule_format]
  have "finished_all (squad_part (talk_state 100))
    \<and> (returned (talk_state 100) ! 0) 1 = sequential_results (context_task talk_start (talk_calls ! 0) (talk 0))"
    using c [THEN conjunct2, rule_format, OF _ talk_stuck] d [of 0 1] assoc len(2) by simp
  moreover have "k \<le> 2 * call_cost 2 + 2 * (7 * 2 + 14) + 76" using c cost len(1) by simp
  ultimately show ?thesis using k by blast
qed

end
