(* ===== verification/Squad_Wait.thy ===== *)
theory Squad_Wait
  imports Prelude
begin

text \<open>
  Waiting for an atomic variable to change (\<^verbatim>\<open>wait_equal_exponential_backoff\<close>, \<^verbatim>\<open>wait_equal_smt\<close>
  and \<^verbatim>\<open>wait\<close> of \<^verbatim>\<open>src/src/thread_squad.cpp\<close>). The other threads are the sequence of values that
  successive loads of the variable see. The state counts the loads, and for the record
  the pauses, the yields and the iterations of the busy loop.
\<close>

type_synonym 'a observed = "nat \<Rightarrow> 'a"

record wait_state =
  loads :: nat
  pauses :: nat
  yields :: nat
  busy :: nat
  backoff :: nat   \<comment> \<open>the local variable \<^verbatim>\<open>n\<close> of the back-off loop\<close>

section \<open>Loops with an early return\<close>

text \<open>
  A piece of code either returns \<^verbatim>\<open>true\<close> from the function or goes on. \<^verbatim>\<open>for_until\<close> is a loop
  over \<^verbatim>\<open>m\<close> values of the loop variable from \<^verbatim>\<open>i\<close> on.
\<close>

type_synonym code = "wait_state \<Rightarrow> bool \<times> wait_state"

definition and_then :: "code \<Rightarrow> code \<Rightarrow> code" where
  "and_then f g s = (case f s of (True, s') \<Rightarrow> (True, s') | (False, s') \<Rightarrow> g s')"

fun for_until :: "(nat \<Rightarrow> code) \<Rightarrow> nat \<Rightarrow> nat \<Rightarrow> code" where
  "for_until body i 0 s = (False, s)"
| "for_until body i (Suc m) s = and_then (body i) (for_until body (Suc i) m) s"

definition effect :: "(wait_state \<Rightarrow> wait_state) \<Rightarrow> code" where
  "effect f s = (False, f s)"

text \<open>\<^verbatim>\<open>if (a.load(...) != oldValue) return true;\<close>\<close>

definition return_if_changed :: "'a observed \<Rightarrow> 'a \<Rightarrow> code" where
  "return_if_changed a oldValue s = (a (loads s) \<noteq> oldValue, s\<lparr>loads := Suc (loads s)\<rparr>)"

section \<open>The wait functions\<close>

definition spinCount :: nat where "spinCount = 6"
definition spinRep :: nat where "spinRep = 1"
definition pauseCountExp :: nat where "pauseCountExp = 9"
definition smtPauseCountExp :: nat where "smtPauseCountExp = 9"
definition yieldCountExp :: nat where "yieldCountExp = 0"

definition yield_loop :: "'a observed \<Rightarrow> 'a \<Rightarrow> code" where
  "yield_loop a oldValue =
     for_until (\<lambda>i. and_then (return_if_changed a oldValue) (effect (\<lambda>s. s\<lparr>yields := yields s + 1\<rparr>)))
       0 (2 ^ yieldCountExp)"

definition spin_round :: "'a observed \<Rightarrow> 'a \<Rightarrow> code" where
  "spin_round a oldValue =
     and_then (effect (\<lambda>s. s\<lparr>backoff := 1\<rparr>))
       (for_until (\<lambda>j.
          and_then
            (for_until (\<lambda>r. and_then (effect (\<lambda>s. s\<lparr>busy := busy s + backoff s\<rparr>)) (return_if_changed a oldValue)) 0 spinRep)
            (effect (\<lambda>s. s\<lparr>backoff := backoff s * 2\<rparr>)))
         0 spinCount)"

definition wait_equal_exponential_backoff :: "'a observed \<Rightarrow> 'a \<Rightarrow> code" where
  "wait_equal_exponential_backoff a oldValue =
     and_then (return_if_changed a oldValue)
    (and_then
       (for_until (\<lambda>i.
          and_then (spin_round a oldValue)
         (and_then (return_if_changed a oldValue)
            (effect (\<lambda>s. s\<lparr>pauses := pauses s + 1\<rparr>))))
         0 (2 ^ pauseCountExp))
       (yield_loop a oldValue))"

definition wait_equal_smt :: "'a observed \<Rightarrow> 'a \<Rightarrow> code" where
  "wait_equal_smt a oldValue =
     and_then (return_if_changed a oldValue)
    (and_then
       (for_until (\<lambda>i.
          and_then (return_if_changed a oldValue) (effect (\<lambda>s. s\<lparr>pauses := pauses s + 1\<rparr>)))
         0 (2 ^ smtPauseCountExp))
       (yield_loop a oldValue))"

datatype wait_mode = WaitMode | SpinWait | SmtSpinWait

text \<open>
  \<^verbatim>\<open>std::atomic<T>::wait(old)\<close>: load the value and block while it is the old one. It may not
  return, which is the result \<^verbatim>\<open>None\<close>.
\<close>

partial_function (option) atomic_wait :: "'a observed \<Rightarrow> 'a \<Rightarrow> wait_state \<Rightarrow> wait_state option" where
  "atomic_wait a oldValue s =
     (let (changed, s') = return_if_changed a oldValue s in
      if changed then Some s' else atomic_wait a oldValue s')"

text \<open>The spin waits are evaluated by the short-circuit operators of the condition.\<close>

definition spin :: "'a observed \<Rightarrow> 'a \<Rightarrow> wait_mode \<Rightarrow> code" where
  "spin a oldValue waitMode s =
     (case waitMode of
        WaitMode \<Rightarrow> (False, s)
      | SpinWait \<Rightarrow> wait_equal_exponential_backoff a oldValue s
      | SmtSpinWait \<Rightarrow> wait_equal_smt a oldValue s)"

definition wait :: "'a observed \<Rightarrow> 'a \<Rightarrow> wait_mode \<Rightarrow> wait_state \<Rightarrow> wait_state option" where
  "wait a oldValue waitMode s =
     (let (changed, s') = spin a oldValue waitMode s in
      if changed then Some (s'\<lparr>loads := Suc (loads s')\<rparr>)
      else atomic_wait a oldValue s')"

section \<open>Lemmas\<close>

text \<open>
  \<^verbatim>\<open>polls a old c f\<close>: the code \<^verbatim>\<open>f\<close> looks at every value in turn, returns \<^verbatim>\<open>true\<close> right after it
  has seen another value than the old one, and goes on after exactly \<^verbatim>\<open>c\<close> loads otherwise.
\<close>

definition polls :: "'a observed \<Rightarrow> 'a \<Rightarrow> nat \<Rightarrow> code \<Rightarrow> bool" where
  "polls a old c f \<longleftrightarrow> (\<forall>s. let (changed, s') = f s in
     if changed then loads s < loads s' \<and> loads s' \<le> loads s + c
       \<and> (\<forall>k. loads s \<le> k \<and> Suc k < loads s' \<longrightarrow> a k = old) \<and> a (loads s' - 1) \<noteq> old
     else loads s' = loads s + c \<and> (\<forall>k. loads s \<le> k \<and> k < loads s' \<longrightarrow> a k = old))"

named_theorems polls_intro \<open>composition of polling code\<close>

lemma polls_return [polls_intro]: "polls a old 1 (return_if_changed a old)"
  by (auto simp: polls_def return_if_changed_def less_Suc_eq)

lemma polls_effect [polls_intro]: "(\<And>s. loads (f s) = loads s) \<Longrightarrow> polls a old 0 (effect f)"
  by (auto simp: polls_def effect_def)

lemma polls_and_then [polls_intro]:
  assumes f: "polls a old c f" and g: "polls a old d g"
  shows "polls a old (c + d) (and_then f g)"
  unfolding polls_def
proof
  fix s
  obtain b1 s1 where s1: "f s = (b1, s1)" by fastforce
  obtain b2 s2 where s2: "g s1 = (b2, s2)" by fastforce
  have 1: "if b1 then loads s < loads s1 \<and> loads s1 \<le> loads s + c
       \<and> (\<forall>k. loads s \<le> k \<and> Suc k < loads s1 \<longrightarrow> a k = old) \<and> a (loads s1 - 1) \<noteq> old
     else loads s1 = loads s + c \<and> (\<forall>k. loads s \<le> k \<and> k < loads s1 \<longrightarrow> a k = old)"
    using f [unfolded polls_def, rule_format, of s] by (simp add: s1)
  have 2: "if b2 then loads s1 < loads s2 \<and> loads s2 \<le> loads s1 + d
       \<and> (\<forall>k. loads s1 \<le> k \<and> Suc k < loads s2 \<longrightarrow> a k = old) \<and> a (loads s2 - 1) \<noteq> old
     else loads s2 = loads s1 + d \<and> (\<forall>k. loads s1 \<le> k \<and> k < loads s2 \<longrightarrow> a k = old)"
    using g [unfolded polls_def, rule_format, of s1] by (simp add: s2)
  show "let (changed, s') = and_then f g s in
     if changed then loads s < loads s' \<and> loads s' \<le> loads s + (c + d)
       \<and> (\<forall>k. loads s \<le> k \<and> Suc k < loads s' \<longrightarrow> a k = old) \<and> a (loads s' - 1) \<noteq> old
     else loads s' = loads s + (c + d) \<and> (\<forall>k. loads s \<le> k \<and> k < loads s' \<longrightarrow> a k = old)"
  proof (cases b1)
    case True
    then show ?thesis using 1 by (simp add: and_then_def s1)
  next
    case b1: False
    have old: "a k = old" if "loads s \<le> k" "b2 \<longrightarrow> Suc k < loads s2" "\<not> b2 \<longrightarrow> k < loads s2" for k
      using 1 2 b1 that by (cases "k < loads s1"; cases b2) auto
    show ?thesis using 1 2 b1 old by (cases b2) (simp_all add: and_then_def s1 s2)
  qed
qed

lemma polls_for:
  assumes "\<And>i. polls a old c (body i)"
  shows "polls a old (m * c) (for_until body i m)"
proof (induction m arbitrary: i)
  case 0
  show ?case by (auto simp: polls_def)
next
  case (Suc m)
  have "for_until body i (Suc m) = and_then (body i) (for_until body (Suc i) m)" by (rule ext) simp
  then show ?case using polls_and_then [OF assms Suc.IH] by simp
qed

lemma polls_yield_loop: "polls a old 1 (yield_loop a old)"
  using polls_for [OF polls_and_then [OF polls_return polls_effect], of _ a old "2 ^ yieldCountExp" 0]
  by (simp add: yield_loop_def yieldCountExp_def)

lemma polls_spin_round: "polls a old 6 (spin_round a old)"
proof -
  let ?inner = "for_until (\<lambda>r. and_then (effect (\<lambda>s. s\<lparr>busy := busy s + backoff s\<rparr>)) (return_if_changed a old)) 0 spinRep"
  have "polls a old (1 * (0 + 1)) ?inner"
    unfolding spinRep_def by (intro polls_for polls_intro) simp
  then have "polls a old (6 * (1 * (0 + 1) + 0))
      (for_until (\<lambda>j. and_then ?inner (effect (\<lambda>s. s\<lparr>backoff := backoff s * 2\<rparr>))) 0 spinCount)"
    unfolding spinCount_def by (intro polls_for polls_and_then polls_effect) simp_all
  then have "polls a old (0 + 6 * (1 * (0 + 1) + 0)) (spin_round a old)"
    unfolding spin_round_def by (intro polls_and_then polls_effect) simp_all
  then show ?thesis by simp
qed

lemma polls_exponential_backoff: "polls a old 3586 (wait_equal_exponential_backoff a old)"
proof -
  have "polls a old (2 ^ pauseCountExp * (6 + (1 + 0)))
      (for_until (\<lambda>i. and_then (spin_round a old)
         (and_then (return_if_changed a old) (effect (\<lambda>s. s\<lparr>pauses := pauses s + 1\<rparr>)))) 0 (2 ^ pauseCountExp))"
    by (intro polls_for polls_and_then polls_spin_round polls_return polls_effect) simp
  then have "polls a old (1 + (2 ^ pauseCountExp * (6 + (1 + 0)) + 1)) (wait_equal_exponential_backoff a old)"
    unfolding wait_equal_exponential_backoff_def by (intro polls_and_then polls_return polls_yield_loop)
  then show ?thesis by (simp add: pauseCountExp_def)
qed

lemma polls_smt: "polls a old 514 (wait_equal_smt a old)"
proof -
  have "polls a old (2 ^ smtPauseCountExp * (1 + 0))
      (for_until (\<lambda>i. and_then (return_if_changed a old) (effect (\<lambda>s. s\<lparr>pauses := pauses s + 1\<rparr>))) 0 (2 ^ smtPauseCountExp))"
    by (intro polls_for polls_and_then polls_return polls_effect) simp
  then have "polls a old (1 + (2 ^ smtPauseCountExp * (1 + 0) + 1)) (wait_equal_smt a old)"
    unfolding wait_equal_smt_def by (intro polls_and_then polls_return polls_yield_loop)
  then show ?thesis by (simp add: smtPauseCountExp_def)
qed

text \<open>How many loads a spin wait makes at most before it hands over to the operating system.\<close>

definition spin_bound :: "wait_mode \<Rightarrow> nat" where
  "spin_bound m = (case m of WaitMode \<Rightarrow> 0 | SpinWait \<Rightarrow> 3586 | SmtSpinWait \<Rightarrow> 514)"

lemma polls_spin: "polls a old (spin_bound m) (spin a old m)"
proof (cases m)
  case WaitMode
  then show ?thesis by (auto simp: polls_def spin_def spin_bound_def)
next
  case SpinWait
  then have "spin a old m = wait_equal_exponential_backoff a old" by (intro ext) (simp add: spin_def)
  then show ?thesis using polls_exponential_backoff SpinWait by (simp add: spin_bound_def)
next
  case SmtSpinWait
  then have "spin a old m = wait_equal_smt a old" by (intro ext) (simp add: spin_def)
  then show ?thesis using polls_smt SmtSpinWait by (simp add: spin_bound_def)
qed

lemma atomic_wait_returns:
  assumes "loads s \<le> n" "a n \<noteq> old" "\<And>k. loads s \<le> k \<Longrightarrow> k < n \<Longrightarrow> a k = old"
  shows "\<exists>s'. atomic_wait a old s = Some s' \<and> loads s' = Suc n"
  using assms
proof (induction "n - loads s" arbitrary: s)
  case 0
  then show ?case by (subst atomic_wait.simps) (simp add: return_if_changed_def)
next
  case (Suc d)
  let ?s = "s\<lparr>loads := Suc (loads s)\<rparr>"
  have "\<exists>s'. atomic_wait a old ?s = Some s' \<and> loads s' = Suc n"
    using Suc.hyps Suc.prems by (intro Suc.hyps(1)) auto
  moreover have "a (loads s) = old" using Suc.hyps(2) Suc.prems(3) by simp
  ultimately show ?case by (subst atomic_wait.simps) (simp add: return_if_changed_def)
qed

lemma atomic_wait_Some:
  "atomic_wait a old s = Some s' \<Longrightarrow> \<exists>n\<ge>loads s. a n \<noteq> old"
proof -
  let ?P = "\<lambda>a old s s' :: wait_state. \<exists>n\<ge>loads s. a n \<noteq> old"
  have step: "?P a old s s'"
    if f: "\<And>a old s s'. f a old s = Some s' \<Longrightarrow> ?P a old s s'"
      and eq: "(let (changed, t) = return_if_changed a old s in if changed then Some t else f a old t) = Some s'"
    for f and a :: "'a observed" and old s s'
  proof (cases "a (loads s) = old")
    case True
    then have "f a old (s\<lparr>loads := Suc (loads s)\<rparr>) = Some s'" using eq by (simp add: return_if_changed_def)
    from f [OF this] show ?thesis by (auto dest: Suc_leD)
  next
    case False
    then show ?thesis by (intro exI [of _ "loads s"]) simp
  qed
  show "atomic_wait a old s = Some s' \<Longrightarrow> ?P a old s s'"
    by (rule atomic_wait.raw_induct [of ?P, OF step])
qed

lemma wait_from_first:
  assumes "loads s \<le> n" "a n \<noteq> old" "\<And>k. loads s \<le> k \<Longrightarrow> k < n \<Longrightarrow> a k = old"
  shows "\<exists>s'. wait a old m s = Some s'
    \<and> loads s' = (if n < loads s + spin_bound m then n + 2 else n + 1)"
proof -
  obtain b s1 where s1: "spin a old m s = (b, s1)" by fastforce
  have p: "if b then loads s < loads s1 \<and> loads s1 \<le> loads s + spin_bound m
       \<and> (\<forall>k. loads s \<le> k \<and> Suc k < loads s1 \<longrightarrow> a k = old) \<and> a (loads s1 - 1) \<noteq> old
     else loads s1 = loads s + spin_bound m \<and> (\<forall>k. loads s \<le> k \<and> k < loads s1 \<longrightarrow> a k = old)"
    using polls_spin [of a old m, unfolded polls_def, rule_format, of s] by (simp add: s1)
  show ?thesis
  proof (cases b)
    case True
    then have "loads s \<le> loads s1 - 1" "a (loads s1 - 1) \<noteq> old" using p by auto
    then have "\<not> loads s1 - 1 < n" using assms(3) by blast
    moreover have "\<not> Suc n < loads s1" using True p assms(1,2) by auto
    moreover have "loads s < loads s1" using True p by simp
    ultimately have "loads s1 = Suc n" by linarith
    then show ?thesis using True p by (simp add: wait_def s1)
  next
    case False
    then have "loads s1 \<le> n" using p assms(1,2) by (meson not_le)
    then obtain s' where "atomic_wait a old s1 = Some s'" "loads s' = Suc n"
      using atomic_wait_returns [of s1 n a old] assms(2,3) False p by auto
    then show ?thesis using False p \<open>loads s1 \<le> n\<close> by (auto simp: wait_def s1)
  qed
qed

section \<open>Properties\<close>

text \<open>
  C36: The waiting functions miss no change: the first value that differs from the old one ends
  the wait, while spinning (then with one more load, which acquires) if it comes within the
  first \<^verbatim>\<open>spin_bound\<close> loads, otherwise in the wait of the atomic itself.
\<close>

theorem wait_returns_on_first_change:
  assumes "loads s \<le> n" "a n \<noteq> old" "\<And>k. loads s \<le> k \<Longrightarrow> k < n \<Longrightarrow> a k = old"
  shows "\<exists>s'. wait a old m s = Some s'
    \<and> loads s' = (if n < loads s + spin_bound m then n + 2 else n + 1)"
  using wait_from_first [of s n a old m] assms by blast

lemma wait_returns_on_first_change_witness:
  "\<exists>s'. wait (\<lambda>k. if k < 5000 then 0 else 1 :: int) 0 SpinWait \<lparr>loads = 3, pauses = 0, yields = 0, busy = 0, backoff = 0\<rparr> = Some s'
    \<and> loads s' = 5001"
proof -
  let ?s = "\<lparr>loads = 3, pauses = 0, yields = 0, busy = 0, backoff = 0\<rparr>"
  have "\<exists>s'. wait (\<lambda>k. if k < 5000 then 0 else 1 :: int) 0 SpinWait ?s = Some s'
    \<and> loads s' = (if 5000 < loads ?s + spin_bound SpinWait then 5000 + 2 else 5000 + 1)"
    by (rule wait_returns_on_first_change) simp_all
  then show ?thesis by (simp add: spin_bound_def)
qed

text \<open>
  There is no spurious return, in any mode: \<^verbatim>\<open>wait\<close> returns if and only if some load sees
  another value than the old one, and never returns otherwise.
\<close>

theorem wait_returns_iff_changed:
  "(\<exists>s'. wait a old m s = Some s') \<longleftrightarrow> (\<exists>n. loads s \<le> n \<and> a n \<noteq> old)"
proof
  assume "\<exists>n. loads s \<le> n \<and> a n \<noteq> old"
  define n where "n = (LEAST n. loads s \<le> n \<and> a n \<noteq> old)"
  have n: "loads s \<le> n \<and> a n \<noteq> old"
    unfolding n_def by (rule LeastI_ex) fact
  have "a k = old" if "loads s \<le> k" "k < n" for k using not_less_Least [OF that(2) [unfolded n_def]] that(1) by auto
  then obtain s' where "wait a old m s = Some s'" using wait_from_first [of s n a old m] n by blast
  then show "\<exists>s'. wait a old m s = Some s'" ..
next
  assume "\<exists>s'. wait a old m s = Some s'"
  then obtain s' where w: "wait a old m s = Some s'" ..
  obtain b s1 where s1: "spin a old m s = (b, s1)" by fastforce
  have p: "if b then loads s < loads s1 \<and> a (loads s1 - 1) \<noteq> old else loads s1 = loads s + spin_bound m"
    using polls_spin [of a old m, unfolded polls_def, rule_format, of s] by (simp add: s1 split: if_splits)
  show "\<exists>n. loads s \<le> n \<and> a n \<noteq> old"
  proof (cases b)
    case True
    then have "loads s \<le> loads s1 - 1 \<and> a (loads s1 - 1) \<noteq> old" using p by auto
    then show ?thesis by blast
  next
    case False
    then have "atomic_wait a old s1 = Some s'" using w by (simp add: wait_def s1)
    then show ?thesis using atomic_wait_Some False p by (metis le_add1 le_trans)
  qed
qed

end
