(* ===== verification/Squad_Frontend.thy ===== *)
theory Squad_Frontend
  imports Squad_Properties Squad_Wait
begin

text \<open>
  The class \<^verbatim>\<open>thread_squad\<close> (\<^verbatim>\<open>include/patton/thread_squad.hpp\<close> and the end of
  \<^verbatim>\<open>src/thread_squad.cpp\<close>): the parameters of a squad, their checks and defaults, the pinning
  of threads, and the calls that a program makes, which become tasks of the protocol. The number
  of hardware threads that \<^verbatim>\<open>std::thread::hardware_concurrency()\<close> reports is a parameter.
\<close>

section \<open>Parameters and construction\<close>

record squad_params =
  num_threads :: int
  pin_to_hardware_threads :: bool
  spin_wait :: bool
  max_num_hardware_threads :: int
  hardware_thread_mappings :: "int list"

definition check_params :: "squad_params \<Rightarrow> squad_params res" where
  "check_params p =
     (if \<not> num_threads p \<ge> 0 then Inl ContractViolation
      else if \<not> max_num_hardware_threads p \<ge> 0 then Inl ContractViolation
      else if \<not> (num_threads p = 0 \<or> max_num_hardware_threads p \<le> num_threads p) then Inl ContractViolation
      else if \<not> (hardware_thread_mappings p = []
          \<or> (max_num_hardware_threads p \<le> int (length (hardware_thread_mappings p))
             \<and> num_threads p \<le> int (length (hardware_thread_mappings p)))) then Inl ContractViolation
      else Inr p)"

text \<open>\<^verbatim>\<open>gsl::narrow_failfast\<close> to an \<^verbatim>\<open>int\<close> and to a \<^verbatim>\<open>std::size_t\<close>.\<close>

definition narrow_int :: "nat \<Rightarrow> int res" where
  "narrow_int x = (if x < 2 ^ 31 then Inr (int x) else Inl ContractViolation)"

definition narrow_size :: "int \<Rightarrow> nat res" where
  "narrow_size x = (if 0 \<le> x then Inr (nat x) else Inl ContractViolation)"

text \<open>\<^verbatim>\<open>thread_squad::create\<close>, up to the construction of the implementation.\<close>

definition create :: "nat \<Rightarrow> squad_params \<Rightarrow> squad_params res" where
  "create hardware_concurrency p =
     res_bind (narrow_int hardware_concurrency) (\<lambda>hardwareConcurrency.
       let p1 = (if num_threads p = 0 then p\<lparr>num_threads := hardwareConcurrency\<rparr> else p) in
       res_bind
         (if max_num_hardware_threads p1 = 0 then
            res_bind (if hardware_thread_mappings p1 \<noteq> []
                      then narrow_int (length (hardware_thread_mappings p1)) else Inr hardwareConcurrency)
              (\<lambda>m. Inr (p1\<lparr>max_num_hardware_threads := m\<rparr>))
          else Inr p1)
         (\<lambda>p2. Inr (p2\<lparr>max_num_hardware_threads := min (max_num_hardware_threads p2) hardwareConcurrency\<rparr>)))"

definition get_hardware_thread_id :: "int \<Rightarrow> int \<Rightarrow> int list \<Rightarrow> nat res" where
  "get_hardware_thread_id threadIdx maxNumHardwareThreads hardwareThreadMappings =
     (if \<not> threadIdx \<ge> 0 then Inl ContractViolation
      else if \<not> maxNumHardwareThreads > 0 then Inl ContractViolation
      else if \<not> (hardwareThreadMappings = [] \<or> maxNumHardwareThreads \<le> int (length hardwareThreadMappings))
        then Inl ContractViolation
      else
        let subidx = threadIdx mod maxNumHardwareThreads in
        if hardwareThreadMappings \<noteq> [] then
          if nat subidx < length hardwareThreadMappings then narrow_size (hardwareThreadMappings ! nat subidx)
          else Inl UndefinedBehaviour
        else narrow_size subidx)"

text \<open>The pinning loop of the constructor of \<^verbatim>\<open>thread_squad_impl\<close>: the core affinity of every thread.\<close>

fun pin_threads :: "squad_params \<Rightarrow> int list \<Rightarrow> nat list res" where
  "pin_threads p [] = Inr []"
| "pin_threads p (i # is) =
     res_bind (get_hardware_thread_id i (max_num_hardware_threads p) (hardware_thread_mappings p)) (\<lambda>coreAffinity.
     res_bind (pin_threads p is) (\<lambda>rest. Inr (coreAffinity # rest)))"

record 'v squad_object =
  impl :: "'v squad"
  waitMode :: wait_mode
  smtWaitMode :: wait_mode
  affinities :: "nat list"   \<comment> \<open>empty if the threads are not pinned\<close>

text \<open>The constructor of \<^verbatim>\<open>thread_squad\<close> with the program's calls that follow.\<close>

definition construct_impl :: "squad_params \<Rightarrow> 'v squad_task list \<Rightarrow> 'v squad_object res" where
  "construct_impl p calls =
     res_bind (narrow_size (num_threads p)) (\<lambda>_.
     res_bind (if pin_to_hardware_threads p then pin_threads p [0..num_threads p - 1] else Inr []) (\<lambda>cores.
     case construct_squad (num_threads p) calls of
       None \<Rightarrow> Inl UndefinedBehaviour
     | Some s \<Rightarrow> Inr \<lparr>impl = s,
         waitMode = (if spin_wait p then SpinWait else WaitMode),
         smtWaitMode = (if spin_wait p then SmtSpinWait else WaitMode),
         affinities = cores\<rparr>))"

definition new_thread_squad :: "nat \<Rightarrow> squad_params \<Rightarrow> 'v squad_task list \<Rightarrow> 'v squad_object res" where
  "new_thread_squad hardware_concurrency p calls =
     res_bind (check_params p) (\<lambda>p. res_bind (create hardware_concurrency p) (\<lambda>p. construct_impl p calls))"

section \<open>Calls\<close>

text \<open>The check of \<^verbatim>\<open>concurrency\<close> and its default, which all calls share.\<close>

definition actual_concurrency :: "int \<Rightarrow> int \<Rightarrow> int res" where
  "actual_concurrency n c =
     (if \<not> (c \<ge> - 1 \<and> c \<le> n) then Inl ContractViolation
      else Inr (if c = - 1 then n else c))"

text \<open>
  A call is made on an lvalue (\<^verbatim>\<open>False\<close>), or on an rvalue (\<^verbatim>\<open>True\<close>), which ends the squad. The
  task that it hands to \<^verbatim>\<open>do_run\<close>, if any:
\<close>

definition run :: "int \<Rightarrow> bool \<Rightarrow> int \<Rightarrow> 'v squad_task res" where
  "run n rvalue c =
     res_bind (actual_concurrency n c) (\<lambda>c.
     Inr \<lparr>params = \<lparr>concurrency = c, join_requested = rvalue\<rparr>, task_op = ActionTask\<rparr>)"

definition transform_reduce ::
  "int \<Rightarrow> bool \<Rightarrow> (int \<Rightarrow> int \<Rightarrow> 'v) \<Rightarrow> ('v \<Rightarrow> 'v \<Rightarrow> 'v) \<Rightarrow> int \<Rightarrow> 'v squad_task option res" where
  "transform_reduce n rvalue transformFunc reduceOp c =
     res_bind (actual_concurrency n c) (\<lambda>c.
     if c \<noteq> 0 then
       Inr (Some \<lparr>params = \<lparr>concurrency = c, join_requested = rvalue\<rparr>,
                  task_op = TransformReduceTask transformFunc reduceOp\<rparr>)
     else Inr None)"

definition transform_reduce_first ::
  "int \<Rightarrow> bool \<Rightarrow> (int \<Rightarrow> int \<Rightarrow> 'v) \<Rightarrow> ('v \<Rightarrow> 'v \<Rightarrow> 'v) \<Rightarrow> int \<Rightarrow> 'v squad_task res" where
  "transform_reduce_first n rvalue transformFunc reduceOp c =
     (if \<not> (c = - 1 \<or> (c \<ge> 1 \<and> c \<le> n)) then Inl ContractViolation
      else
        let c = (if c = - 1 then n else c) in
        Inr \<lparr>params = \<lparr>concurrency = c, join_requested = rvalue\<rparr>,
             task_op = TransformReduceTask transformFunc reduceOp\<rparr>)"

text \<open>What the calls return, from the data of the completed task.\<close>

definition first_value :: "'v reduce_data \<Rightarrow> 'v res" where
  "first_value d = res_bind (data_get d 0) (\<lambda>v. case v of None \<Rightarrow> Inl BadOptionalAccess | Some x \<Rightarrow> Inr x)"

definition transform_reduce_result :: "'v \<Rightarrow> ('v \<Rightarrow> 'v \<Rightarrow> 'v) \<Rightarrow> 'v reduce_data option \<Rightarrow> 'v res" where
  "transform_reduce_result initial reduceOp d =
     (case d of
        None \<Rightarrow> Inr initial
      | Some d \<Rightarrow> res_bind (first_value d) (\<lambda>x. Inr (reduceOp initial x)))"

text \<open>
  A program: the calls it makes on a squad. The destructor of a squad that no rvalue call has
  ended runs a task without work that requests the join. A call on a squad that an rvalue call
  has ended violates the contract of its handle.
\<close>

datatype 'v api_call =
    Run bool int
  | TransformReduce bool "int \<Rightarrow> int \<Rightarrow> 'v" "'v \<Rightarrow> 'v \<Rightarrow> 'v" int
  | TransformReduceFirst bool "int \<Rightarrow> int \<Rightarrow> 'v" "'v \<Rightarrow> 'v \<Rightarrow> 'v" int

definition call_task :: "int \<Rightarrow> 'v api_call \<Rightarrow> 'v squad_task option res" where
  "call_task n call =
     (case call of
        Run rvalue c \<Rightarrow> res_bind (run n rvalue c) (\<lambda>tk. Inr (Some tk))
      | TransformReduce rvalue f g c \<Rightarrow> transform_reduce n rvalue f g c
      | TransformReduceFirst rvalue f g c \<Rightarrow> res_bind (transform_reduce_first n rvalue f g c) (\<lambda>tk. Inr (Some tk)))"

definition deleter_task :: "'v squad_task" where
  "deleter_task = \<lparr>params = \<lparr>concurrency = 0, join_requested = True\<rparr>, task_op = NopTask\<rparr>"

fun squad_calls :: "int \<Rightarrow> 'v api_call list \<Rightarrow> 'v squad_task list res" where
  "squad_calls n [] = Inr [deleter_task]"
| "squad_calls n (call # rest) =
     res_bind (call_task n call) (\<lambda>t.
       case t of
         None \<Rightarrow> squad_calls n rest
       | Some tk \<Rightarrow>
           if join_requested (params tk) then (if rest = [] then Inr [tk] else Inl ContractViolation)
           else res_bind (squad_calls n rest) (\<lambda>tks. Inr (tk # tks)))"

section \<open>Lemmas\<close>

lemma call_task_valid: "1 \<le> n \<Longrightarrow> call_task n call = Inr (Some tk) \<Longrightarrow> valid_task n tk"
  by (auto simp: call_task_def run_def transform_reduce_def transform_reduce_first_def actual_concurrency_def
      valid_task_def Let_def split: api_call.splits if_splits)

lemma squad_calls_valid: "1 \<le> n \<Longrightarrow> squad_calls n prog = Inr calls \<Longrightarrow> valid_calls n calls"
proof (induction prog arbitrary: calls)
  case Nil
  then show ?case by (auto simp: deleter_task_def valid_task_def)
next
  case (Cons call rest)
  then show ?case
    by (auto simp: res_bind_Inr_iff call_task_valid split: option.splits if_splits)
qed


text \<open>The calls of a program end with the one that joins the threads.\<close>

lemma squad_calls_last:
  "squad_calls n prog = Inr calls \<Longrightarrow> \<exists>tks tk. calls = tks @ [tk] \<and> join_requested (params tk)"
proof (induction prog arbitrary: calls)
  case Nil
  then show ?case by (auto simp: deleter_task_def)
next
  case (Cons call rest)
  then obtain t where t: "call_task n call = Inr t" by (auto simp: res_bind_Inr_iff)
  show ?case
  proof (cases t)
    case None
    then show ?thesis using Cons t by simp
  next
    case (Some tk)
    show ?thesis
    proof (cases "join_requested (params tk)")
      case True
      then show ?thesis using Cons.prems t Some by (auto split: if_splits)
    next
      case False
      then obtain tks where "squad_calls n rest = Inr tks" "calls = tk # tks"
        using Cons.prems t Some by (auto simp: res_bind_Inr_iff)
      then show ?thesis using Cons.IH [of tks] by (metis append_Cons)
    qed
  qed
qed

text \<open>As long as the squad lives, no completed call has requested the join.\<close>

lemma unfreed_no_join:
  assumes "reachable n calls s"
  shows "main s \<noteq> MFreed \<longrightarrow> (\<forall>(tk, ex, d) \<in> set (finished s). \<not> join_requested (params tk))"
  using assms
proof induction
  case (start s)
  then show ?case by (auto simp: construct_squad_def)
next
  case (step s s')
  from step.hyps(2) show ?case
  proof cases
    case main
    then show ?thesis using step.IH
      by (auto simp: main_step_def begin_call_def after_call_def step_defs step_Next_simps
          split: main_pc.splits list.splits option.splits if_splits)
  next
    case (worker i)
    then show ?thesis using step.IH worker_step_frame [OF worker(3)] by simp
  qed
qed

lemma foldl_assoc:
  assumes "\<And>x y z. g (g x y) z = g x (g y z)"
  shows "g a (foldl g b xs) = foldl g (g a b) xs"
  using assms by (induction xs arbitrary: b) simp_all

lemma pin_threads_eq:
  assumes "\<And>i. i \<in> set is \<Longrightarrow>
    get_hardware_thread_id i (max_num_hardware_threads p) (hardware_thread_mappings p) = Inr (f i)"
  shows "pin_threads p is = Inr (map f is)"
  using assms by (induction "is") simp_all

lemma no_squad_without_threads: "construct_squad 0 calls = None"
proof -
  have "squad_strides 0 = None" by code_simp
  then show ?thesis by (simp add: construct_squad_def)
qed

section \<open>Properties\<close>

text \<open>
  C14: A \<^verbatim>\<open>transform_reduce\<close> call, on an lvalue or an rvalue of a squad whose thread tree is exact and
  with any concurrency that the check admits, returns the initial value combined with the reduction
  of the threads' results in the order of the tree, in every interleaving; without threads it returns
  the initial value. For an associative reduction this is the left-to-right reduction of the initial
  value and the results in index order; for another one it need not be: with a subtraction and two
  threads it is the initial value minus the difference of the results.
\<close>

theorem transform_reduce_returns:
  assumes "reachable n calls s" "tree_exact n" "1 \<le> n" "squad_calls n prog = Inr calls"
    and "transform_reduce n rvalue f g c = Inr t"
    and "case t of None \<Rightarrow> d = None | Some tk \<Rightarrow> (\<exists>ex d'. d = Some d' \<and> (tk, ex, d') \<in> set (finished s))"
    and "k = (if c = - 1 then n else c)"
  shows "transform_reduce_result initial g d
      = Inr (if k = 0 then initial else g initial (tree_fold g (\<lambda>i. f i k) n k 0))
    \<and> ((\<forall>x y z. g (g x y) z = g x (g y z)) \<longrightarrow>
        transform_reduce_result initial g d = Inr (foldl g initial (map (\<lambda>i. f i k) [0..k - 1])))"
proof (cases t)
  case None
  then show ?thesis using assms(3,5-7)
    by (auto simp: transform_reduce_def transform_reduce_result_def actual_concurrency_def res_bind_Inr_iff split: if_splits)
next
  case (Some tk)
  then have tk: "tk = \<lparr>params = \<lparr>concurrency = k, join_requested = rvalue\<rparr>, task_op = TransformReduceTask f g\<rparr>" "1 \<le> k"
    using assms(3,5,7) by (auto simp: transform_reduce_def actual_concurrency_def res_bind_Inr_iff split: if_splits)
  obtain ex d' where d: "d = Some d'" "(tk, ex, d') \<in> set (finished s)" using assms(6) Some by auto
  have op: "task_op tk = TransformReduceTask f g" "k = concurrency (params tk)" "0 < k" using tk by simp_all
  note calls = squad_calls_valid [OF assms(3,4)]
  have "transform_reduce_result initial g d = Inr (foldl g initial (map (\<lambda>i. f i k) [0..k - 1]))"
    if "\<forall>x y z. g (g x y) z = g x (g y z)"
  proof -
    have "data_get d' 0 = Inr (Some (foldl g (f 0 k) (map (\<lambda>i. f i k) [1..k - 1])))"
      by (rule finished_reduction [OF assms(1-3) calls d(2) op]) (use that in blast)
    moreover have "[0..k - 1] = 0 # [1..k - 1]" using tk(2) by (simp add: upto_rec1)
    ultimately show ?thesis
      using foldl_assoc [of g] that by (simp add: d(1) transform_reduce_result_def first_value_def)
  qed
  moreover have "transform_reduce_result initial g d = Inr (g initial (tree_fold g (\<lambda>i. f i k) n k 0))"
    using finished_tree_reduction(1) [OF assms(1-3) calls d(2) op]
    by (simp add: d(1) transform_reduce_result_def first_value_def)
  ultimately show ?thesis using tk(2) by simp
qed

lemma demo_program_calls:
  "squad_calls 3 (TransformReduce False (\<lambda>i m. 10 * i + m) (+) 2 # [TransformReduce False (\<lambda>i m. 10 * i + m) (+) (- 1)]) = Inr demo_calls"
  by (simp add: call_task_def transform_reduce_def actual_concurrency_def demo_calls_def demo_reduce_def
      demo_join_def deleter_task_def)

lemma transform_reduce_returns_witness:
  "\<exists>ex d. (demo_reduce 3, ex, d) \<in> set (finished (demo 150))
    \<and> transform_reduce_result 100 (+) (Some d) = Inr (100 + 3 + 13 + 23)"
proof -
  obtain ex d where out: "(demo_reduce 3, ex, d) \<in> set (finished (demo 150))" using demo_second by blast
  have "transform_reduce_result 100 (+) (Some d)
      = Inr (if (3::int) = 0 then 100 else 100 + tree_fold (+) (\<lambda>i. 10 * i + 3) 3 3 0)
    \<and> ((\<forall>x y z. x + y + z = x + (y + z :: int)) \<longrightarrow>
        transform_reduce_result 100 (+) (Some d) = Inr (foldl (+) 100 (map (\<lambda>i. 10 * i + 3) [0..3 - 1])))"
    by (rule transform_reduce_returns [OF demo_ok(1,2) _ demo_program_calls, where c = "- 1" and rvalue = False
          and t = "Some (demo_reduce 3)"])
      (use out in \<open>auto simp: transform_reduce_def actual_concurrency_def demo_reduce_def\<close>)
  then have "transform_reduce_result 100 (+) (Some d) = Inr (foldl (+) 100 (map (\<lambda>i. 10 * i + 3) [0..3 - 1]))"
    by (blast intro: add.assoc)
  moreover have "[0..3 - 1] = [0, 1, 2 :: int]" by code_simp
  ultimately show ?thesis using out by auto
qed

text \<open>
  C13: Every program that uses a squad whose thread tree is exact (among them all squads of 1 to 64
  threads) through its interface ends with the squad destroyed and its threads joined: when no thread
  can make another step, all calls have returned, the squad object is gone, and every thread has
  exited or was never started.
\<close>

theorem program_joins_all_threads:
  assumes "reachable n calls s" "tree_exact n" "1 \<le> n" "squad_calls n prog = Inr calls"
    and "\<nexists>s'. squad_step s s'" "0 \<le> i" "i < n"
  shows "main s = MFreed \<and> length (finished s) = length calls \<and> pc (thrd s i) \<in> {Unforked, Exited}"
proof -
  have sq: "squad_ok n calls s"
    by (rule reachable_squad_ok [OF assms(1-3) squad_calls_valid [OF assms(3,4)]])
  then have ctl: "control_ok n s" and log: "calls_ok calls s" by (auto simp: squad_ok_def)
  have fin: "finished_all s" using progress [OF sq] assms(5) by blast
  then have none: "task s = None" using ctl
    by (cases "task s") (auto simp: finished_all_def control_ok_def call_ok_def)
  then have calls: "calls = map (\<lambda>(tk, _). tk) (finished s)" using log fin by (simp add: calls_ok_def finished_all_def)
  obtain tks tk where last: "calls = tks @ [tk]" "join_requested (params tk)" using squad_calls_last [OF assms(4)] by blast
  then have "tk \<in> set (map (\<lambda>(tk, _). tk) (finished s))" using calls by simp
  then obtain out where "(tk, out) \<in> set (finished s)" by auto
  then have "main s = MFreed" using unfreed_no_join [OF assms(1)] last(2) by (cases out) fastforce
  moreover have "idle_ok n s" using ctl none by (simp add: control_ok_def)
  ultimately show ?thesis using calls assms(6,7)
    by (auto simp: idle_ok_def all_fresh_def all_exited_def initial_thread_def)
qed


lemma program_joins_all_threads_witness:
  "main (demo 150) = MFreed \<and> length (finished (demo 150)) = length demo_calls
    \<and> pc (thrd (demo 150) 2) \<in> {Unforked, Exited}"
  by (rule program_joins_all_threads [OF demo_ok(1,2) _ demo_program_calls demo_stuck]) simp_all

lemma pinned_squad:
  assumes "check_params p = Inr p'" "pin_to_hardware_threads p" "0 < hc" "hc < 2 ^ 31"
    and "length (hardware_thread_mappings p) < 2 ^ 31" "\<forall>m \<in> set (hardware_thread_mappings p). 0 \<le> m"
    and "n = (if num_threads p = 0 then int hc else num_threads p)"
    and "k = min (int hc) (if max_num_hardware_threads p \<noteq> 0 then max_num_hardware_threads p
                     else if hardware_thread_mappings p \<noteq> [] then int (length (hardware_thread_mappings p)) else int hc)"
  shows "\<exists>obj. new_thread_squad hc p calls = Inr obj \<and> construct_squad n calls = Some (impl obj)
    \<and> 1 \<le> k \<and> k \<le> int hc
    \<and> affinities obj = map (\<lambda>i. nat (if hardware_thread_mappings p \<noteq> [] then hardware_thread_mappings p ! nat (i mod k) else i mod k))
        [0..n - 1]"
proof -
  let ?maps = "hardware_thread_mappings p"
  let ?f = "\<lambda>i. nat (if ?maps \<noteq> [] then ?maps ! nat (i mod k) else i mod k)"
  have chk: "p' = p" "0 \<le> num_threads p" "0 \<le> max_num_hardware_threads p"
    "?maps = [] \<or> max_num_hardware_threads p \<le> int (length ?maps)"
    using assms(1) by (auto simp: check_params_def split: if_splits)
  have n: "1 \<le> n" using assms(3,7) chk(2) by auto
  have k: "1 \<le> k" "k \<le> int hc" "?maps = [] \<or> k \<le> int (length ?maps)"
    using assms(3,8) chk by (auto simp: Suc_le_eq)
  define p2 where "p2 = p\<lparr>num_threads := n, max_num_hardware_threads := k\<rparr>"
  have create: "create hc p = Inr p2"
    using assms(3-5,7,8) by (auto simp: create_def narrow_int_def Let_def p2_def min.commute)
  have hw: "get_hardware_thread_id i k ?maps = Inr (?f i)" if "0 \<le> i" for i
  proof -
    have b: "0 \<le> i mod k" "i mod k < k" using k(1) by simp_all
    have "0 \<le> ?maps ! nat (i mod k)" "nat (i mod k) < length ?maps" if "?maps \<noteq> []"
    proof -
      show "nat (i mod k) < length ?maps" using that b k(3) by linarith
      then show "0 \<le> ?maps ! nat (i mod k)" using assms(6) nth_mem by blast
    qed
    then show ?thesis using that b k by (auto simp: get_hardware_thread_id_def Let_def narrow_size_def)
  qed
  have "pin_threads p2 [0..n - 1] = Inr (map ?f [0..n - 1])"
    by (rule pin_threads_eq) (simp add: p2_def hw)
  moreover obtain s where "construct_squad n calls = Some s" using construct_Some [OF n] by blast
  ultimately show ?thesis using assms(1,2) chk(1) create k n
    by (simp add: new_thread_squad_def construct_impl_def p2_def narrow_size_def)
qed

text \<open>
  C37: On a machine that reports a number of hardware threads that is neither 0 nor above the range
  of \<^verbatim>\<open>int\<close>, every set of parameters that asks for pinning, passes the check and has no negative
  number in its mapping (nor more entries than an \<^verbatim>\<open>int\<close> can count) yields a squad without violating a
  contract. The affinity recorded for thread \<^verbatim>\<open>i\<close>, with which it will be started, is the hardware
  thread that the mapping has for it, or \<^verbatim>\<open>i\<close>, both modulo the number of hardware threads to use,
  which is at most the number there are.
\<close>

theorem pinned_squad_constructed:
  assumes "check_params p = Inr p'" "pin_to_hardware_threads p" "0 < hc" "hc < 2 ^ 31"
    and "length (hardware_thread_mappings p) < 2 ^ 31" "\<forall>m \<in> set (hardware_thread_mappings p). 0 \<le> m"
    and "n = (if num_threads p = 0 then int hc else num_threads p)"
    and "k = min (int hc) (if max_num_hardware_threads p \<noteq> 0 then max_num_hardware_threads p
                     else if hardware_thread_mappings p \<noteq> [] then int (length (hardware_thread_mappings p)) else int hc)"
  shows "\<exists>obj. new_thread_squad hc p calls = Inr obj \<and> construct_squad n calls = Some (impl obj)
    \<and> 1 \<le> k \<and> k \<le> int hc
    \<and> affinities obj = map (\<lambda>i. nat (if hardware_thread_mappings p \<noteq> [] then hardware_thread_mappings p ! nat (i mod k) else i mod k))
        [0..n - 1]"
  by (rule pinned_squad [OF assms])

lemma pinned_squad_constructed_witness:
  "\<exists>obj. new_thread_squad 4
      \<lparr>num_threads = 3, pin_to_hardware_threads = True, spin_wait = False, max_num_hardware_threads = 2,
       hardware_thread_mappings = [5, 3, 1]\<rparr> demo_calls = Inr obj \<and> affinities obj = [5, 3, 5]"
proof -
  let ?p = "\<lparr>num_threads = 3, pin_to_hardware_threads = True, spin_wait = False, max_num_hardware_threads = 2,
       hardware_thread_mappings = [5, 3, 1]\<rparr>"
  have "\<exists>obj. new_thread_squad 4 ?p demo_calls = Inr obj \<and> construct_squad 3 demo_calls = Some (impl obj)
    \<and> (1 :: int) \<le> 2 \<and> 2 \<le> int 4
    \<and> affinities obj = map (\<lambda>i. nat (if hardware_thread_mappings ?p \<noteq> [] then hardware_thread_mappings ?p ! nat (i mod 2) else i mod 2))
        [0..3 - 1]"
    by (rule pinned_squad_constructed [of ?p ?p 4 3 2]) (simp_all add: check_params_def)
  moreover have "map (\<lambda>i. nat (if hardware_thread_mappings ?p \<noteq> [] then hardware_thread_mappings ?p ! nat (i mod 2) else i mod 2))
      [0..3 - 1] = [5, 3, 5]"
    by code_simp
  ultimately show ?thesis by metis
qed

text \<open>
  Where the number of hardware threads is not known (\<^verbatim>\<open>hardware_concurrency()\<close> may return 0), a
  squad with the default number of threads is a squad without threads, and its construction
  accesses the first element of an empty buffer.
\<close>

theorem unknown_hardware_faults:
  assumes "check_params p = Inr p'" "num_threads p = 0" "length (hardware_thread_mappings p) < 2 ^ 31"
  shows "new_thread_squad 0 p calls = Inl UndefinedBehaviour"
proof -
  have "p' = p" using assms(1) by (auto simp: check_params_def split: if_splits)
  then show ?thesis using assms
    by (auto simp: new_thread_squad_def create_def narrow_int_def Let_def construct_impl_def narrow_size_def
        no_squad_without_threads)
qed

lemma unknown_hardware_faults_witness:
  "new_thread_squad 0
      \<lparr>num_threads = 0, pin_to_hardware_threads = False, spin_wait = False, max_num_hardware_threads = 0,
       hardware_thread_mappings = []\<rparr> demo_calls = Inl UndefinedBehaviour"
  by (rule unknown_hardware_faults) (simp_all add: check_params_def)

end
