(* ===== verification/Text_Scan.thy ===== *)
theory Text_Scan
  imports Prelude
begin

text \<open>
  Reading text the way the library reads the files under \<^verbatim>\<open>/proc\<close> (\<^verbatim>\<open>src/src/new.cpp\<close>,
  \<^verbatim>\<open>src/src/cpuinfo.cpp\<close>): \<^verbatim>\<open>std::getline\<close> and the conversions of \<^verbatim>\<open>std::sscanf\<close> that it uses, and
  decimal numbers as the kernel prints them.
\<close>

text \<open>The functions are \<^verbatim>\<open>noexcept\<close>: an exception that leaves them ends the program.\<close>

definition noexcept :: "'a res \<Rightarrow> 'a res" where
  "noexcept r = (case r of Inl RuntimeError \<Rightarrow> Inl Terminated | _ \<Rightarrow> r)"

section \<open>Characters and lines\<close>

definition is_space :: "char \<Rightarrow> bool" where
  "is_space c \<longleftrightarrow> c \<in> {CHR 0x20, CHR 0x09, CHR 0x0A, CHR 0x0B, CHR 0x0C, CHR 0x0D}"

definition is_digit :: "char \<Rightarrow> bool" where
  "is_digit c \<longleftrightarrow> 48 \<le> (of_char c :: nat) \<and> (of_char c :: nat) \<le> 57"

text \<open>
  The lines that repeated calls of \<^verbatim>\<open>std::getline\<close> read: a line ends with a line feed or with the end
  of the text, which does not start another line.
\<close>

fun getlines :: "string \<Rightarrow> string list" where
  "getlines [] = []"
| "getlines (c # cs) =
     (if c = CHR 0x0A then [] # getlines cs
      else case getlines cs of
          [] \<Rightarrow> [[c]]
        | l # ls \<Rightarrow> if cs \<noteq> [] \<and> hd cs = CHR 0x0A then [c] # ls else (c # l) # ls)"

text \<open>\<^verbatim>\<open>std::string::c_str()\<close> as a C string: it ends at the first null character.\<close>

definition c_str :: "string \<Rightarrow> string" where
  "c_str s = takeWhile (\<lambda>c. c \<noteq> CHR 0x00) s"

section \<open>Conversions\<close>

text \<open>
  The literal part of a format: white space matches any amount of white space, any other
  character itself. The result is what remains of the input.
\<close>

fun scan_text :: "string \<Rightarrow> string \<Rightarrow> string option" where
  "scan_text [] s = Some s"
| "scan_text (c # cs) s =
     (if is_space c then scan_text cs (dropWhile is_space s)
      else case s of [] \<Rightarrow> None | d # ds \<Rightarrow> if d = c then scan_text cs ds else None)"

definition digits_value :: "string \<Rightarrow> int" where
  "digits_value ds = foldl (\<lambda>a c. 10 * a + (int (of_char c) - 48)) 0 ds"

text \<open>
  \<^verbatim>\<open>%d\<close> and \<^verbatim>\<open>%ld\<close> for a signed type of \<^verbatim>\<open>w\<close> bits: nothing if there is no number; a number that does
  not fit is undefined behaviour.
\<close>

definition scan_signed :: "nat \<Rightarrow> string \<Rightarrow> (int \<times> string) option res" where
  "scan_signed w s =
     (let s1 = dropWhile is_space s;
          neg = (s1 \<noteq> [] \<and> hd s1 = CHR ''-'');
          s2 = (if s1 \<noteq> [] \<and> hd s1 \<in> {CHR ''-'', CHR ''+''} then tl s1 else s1);
          ds = takeWhile is_digit s2;
          v = (if neg then - digits_value ds else digits_value ds) in
      if ds = [] then Inr None
      else if - (2 ^ (w - 1)) \<le> v \<and> v < 2 ^ (w - 1) then Inr (Some (v, dropWhile is_digit s2))
      else Inl UndefinedBehaviour)"

text \<open>\<^verbatim>\<open>%16s\<close>: at most 16 characters that are not white space.\<close>

definition scan_word :: "nat \<Rightarrow> string \<Rightarrow> string option" where
  "scan_word m s =
     (let ds = take m (takeWhile (\<lambda>c. \<not> is_space c) (dropWhile is_space s)) in
      if ds = [] then None else Some ds)"

text \<open>\<^verbatim>\<open>std::sscanf(s, "<fmt>%d", &id)\<close>: the value if the result is 1.\<close>

definition sscanf_int :: "string \<Rightarrow> string \<Rightarrow> int option res" where
  "sscanf_int fmt s =
     (case scan_text fmt (c_str s) of
        None \<Rightarrow> Inr None
      | Some t \<Rightarrow> res_bind (scan_signed 32 t) (\<lambda>x. Inr (map_option fst x)))"

text \<open>\<^verbatim>\<open>std::sscanf(s, "<fmt>%ld %16s", &x, unit)\<close>: both values if the result is 2.\<close>

definition sscanf_long_word :: "string \<Rightarrow> string \<Rightarrow> (int \<times> string) option res" where
  "sscanf_long_word fmt s =
     (case scan_text fmt (c_str s) of
        None \<Rightarrow> Inr None
      | Some t \<Rightarrow> res_bind (scan_signed 64 t) (\<lambda>x.
          case x of
            None \<Rightarrow> Inr None
          | Some (v, u) \<Rightarrow> Inr (map_option (\<lambda>d. (v, d)) (scan_word 16 u))))"

section \<open>Printed numbers\<close>

fun print_nat :: "nat \<Rightarrow> string" where
  "print_nat n = (if n < 10 then [char_of (48 + n)] else print_nat (n div 10) @ [char_of (48 + n mod 10)])"

declare print_nat.simps [simp del]

lemma digit_char:
  assumes "d < 10"
  shows "of_char (char_of (48 + d) :: char) = (48 + d :: nat)" "is_digit (char_of (48 + d))"
  using assms by (simp_all add: is_digit_def)

lemma print_nat_digits: "\<forall>c\<in>set (print_nat n). is_digit c"
proof (induction n rule: print_nat.induct)
  case (1 n)
  then show ?case using digit_char(2) [of n] digit_char(2) [of "n mod 10"]
    by (subst print_nat.simps) auto
qed

lemma print_nat_nonempty [simp]: "print_nat n \<noteq> []"
  by (subst print_nat.simps) simp

lemma digits_value_append: "digits_value (ds @ [c]) = 10 * digits_value ds + (int (of_char c) - 48)"
  by (simp add: digits_value_def)

lemma digits_value_print_nat: "digits_value (print_nat n) = int n"
proof (induction n rule: print_nat.induct)
  case (1 n)
  show ?case
  proof (cases "n < 10")
    case True
    then show ?thesis by (subst print_nat.simps) (simp add: digits_value_def digit_char(1))
  next
    case False
    have "int n = 10 * int (n div 10) + int (n mod 10)" by (simp add: zdiv_int zmod_int)
    then show ?thesis using False 1
      by (subst print_nat.simps) (simp add: digits_value_append digit_char(1))
  qed
qed

lemma is_digit_not_space: "is_digit c \<Longrightarrow> \<not> is_space c"
  by (auto simp: is_digit_def is_space_def)

lemma is_digit_not_sign: "is_digit c \<Longrightarrow> c \<noteq> CHR ''-'' \<and> c \<noteq> CHR ''+'' \<and> c \<noteq> CHR 0x00 \<and> c \<noteq> CHR 0x0A"
  by (auto simp: is_digit_def)

lemma print_nat_first:
  obtains c cs where "print_nat n = c # cs" "is_digit c"
  using print_nat_digits [of n] by (cases "print_nat n") auto

lemma scan_signed_print_nat:
  assumes "int n < 2 ^ (w - 1)" "rest = [] \<or> \<not> is_digit (hd rest)"
  shows "scan_signed w (print_nat n @ rest) = Inr (Some (int n, rest))"
proof -
  obtain c cs where c: "print_nat n = c # cs" "is_digit c" by (rule print_nat_first)
  have sp: "dropWhile is_space (print_nat n @ rest) = print_nat n @ rest"
    using c by (simp add: is_digit_not_space)
  have tw: "takeWhile is_digit (print_nat n @ rest) = print_nat n"
      "dropWhile is_digit (print_nat n @ rest) = rest"
    using print_nat_digits [of n] assms(2) by (cases rest; simp add: takeWhile_append dropWhile_append)+
  have lo: "- (2 ^ (w - 1)) \<le> int n" by (smt (verit) zero_le_power of_nat_0_le_iff)
  have h: "hd (print_nat n @ rest) \<noteq> CHR ''-''" "hd (print_nat n @ rest) \<noteq> CHR ''+''"
    using c is_digit_not_sign [OF c(2)] by auto
  show ?thesis
    using h lo assms(1) by (simp add: scan_signed_def Let_def sp tw digits_value_print_nat)
qed

section \<open>Lines\<close>

definition line_text :: "string \<Rightarrow> bool" where
  "line_text s \<longleftrightarrow> (\<forall>c\<in>set s. c \<noteq> CHR 0x0A \<and> c \<noteq> CHR 0x00)"

lemma c_str_line: "line_text s \<Longrightarrow> c_str s = s"
  by (simp add: line_text_def c_str_def takeWhile_eq_all_conv)

lemma line_text_append [simp]: "line_text (s @ t) \<longleftrightarrow> line_text s \<and> line_text t"
  by (auto simp: line_text_def)

lemma line_text_print_nat [simp]: "line_text (print_nat n)"
  using print_nat_digits [of n] is_digit_not_sign by (auto simp: line_text_def)

text \<open>Reading back the lines of a text.\<close>

definition unlines :: "string list \<Rightarrow> string" where
  "unlines ls = concat (map (\<lambda>l. l @ [CHR 0x0A]) ls)"

lemma getlines_line: "line_text l \<Longrightarrow> getlines (l @ CHR 0x0A # s) = l # getlines s"
proof (induction l)
  case (Cons c l)
  then have ih: "getlines (l @ CHR 0x0A # s) = l # getlines s" and c: "c \<noteq> CHR 0x0A"
    by (simp_all add: line_text_def)
  show ?case
  proof (cases l)
    case Nil
    then show ?thesis using c ih by simp
  next
    case (Cons d l')
    then have "d \<noteq> CHR 0x0A" using \<open>line_text (c # l)\<close> by (simp add: line_text_def)
    then show ?thesis using c ih Cons by simp
  qed
qed simp

lemma getlines_unlines: "\<forall>l\<in>set ls. line_text l \<Longrightarrow> getlines (unlines ls) = ls"
  by (induction ls) (simp_all add: unlines_def getlines_line)

end
