(* ===== verification/Os_Errors.thy ===== *)
theory Os_Errors
  imports Prelude
begin

text \<open>
  Raising the errors of the operating system (\<^verbatim>\<open>src/src/errors.cpp\<close>,
  \<^verbatim>\<open>src/include/patton/detail/errors.hpp\<close>), and the end of the program when an exception leaves a
  function that may not throw. The error codes that the system keeps (\<^verbatim>\<open>errno\<close>, \<^verbatim>\<open>GetLastError()\<close>)
  are arguments.
\<close>

section \<open>Error codes\<close>

definition posix_raise :: "int \<Rightarrow> 'a res" where
  "posix_raise errorCode = Inl (SystemError errorCode)"

definition posix_raise_last_error :: "int \<Rightarrow> 'a res" where
  "posix_raise_last_error errno = posix_raise errno"

definition posix_check :: "int \<Rightarrow> unit res" where
  "posix_check errorCode = (if errorCode \<noteq> 0 then posix_raise errorCode else Inr ())"

definition posix_assert :: "int \<Rightarrow> bool \<Rightarrow> unit res" where
  "posix_assert errno success = (if \<not> success then posix_raise_last_error errno else Inr ())"

definition win32_raise :: "32 word \<Rightarrow> 'a res" where
  "win32_raise errorCode = Inl (SystemError (sint errorCode))"

definition win32_raise_last_error :: "32 word \<Rightarrow> 'a res" where
  "win32_raise_last_error lastError = win32_raise lastError"

definition win32_assert :: "32 word \<Rightarrow> bool \<Rightarrow> unit res" where
  "win32_assert lastError success = (if \<not> success then win32_raise_last_error lastError else Inr ())"

lemma posix_errors [simp]:
  "posix_raise e = Inl (SystemError e)"
  "posix_check 0 = Inr ()" "e \<noteq> 0 \<Longrightarrow> posix_check e = Inl (SystemError e)"
  "posix_assert e True = Inr ()" "posix_assert e False = Inl (SystemError e)"
  by (simp_all add: posix_raise_def posix_check_def posix_assert_def posix_raise_last_error_def)

lemma win32_errors [simp]:
  "win32_assert c True = Inr ()" "win32_assert c False = Inl (SystemError (sint c))"
  by (simp_all add: win32_assert_def win32_raise_last_error_def win32_raise_def)

lemma error_results [simp]:
  "posix_check e = Inr u \<longleftrightarrow> e = 0" "posix_check e = Inl x \<longleftrightarrow> e \<noteq> 0 \<and> x = SystemError e"
  "posix_assert e b = Inr u \<longleftrightarrow> b" "posix_assert e b = Inl x \<longleftrightarrow> \<not> b \<and> x = SystemError e"
  "win32_assert c b = Inr u \<longleftrightarrow> b" "win32_assert c b = Inl x \<longleftrightarrow> \<not> b \<and> x = SystemError (sint c)"
  by (auto simp: posix_check_def posix_raise_def posix_assert_def posix_raise_last_error_def
      win32_assert_def win32_raise_last_error_def win32_raise_def)

lemma case_posix_assert [simp]:
  "(case posix_assert e b of Inl x \<Rightarrow> f x | Inr u \<Rightarrow> g u) = (if b then g () else f (SystemError e))"
  by (simp add: posix_assert_def posix_raise_last_error_def)

lemma case_win32_assert [simp]:
  "(case win32_assert c b of Inl x \<Rightarrow> f x | Inr u \<Rightarrow> g u) = (if b then g () else f (SystemError (sint c)))"
  by (simp add: win32_assert_def win32_raise_last_error_def win32_raise_def)

section \<open>The end of the program\<close>

text \<open>Failures that are not exceptions end the program at once.\<close>

definition ends_program :: "failure \<Rightarrow> bool" where
  "ends_program e \<longleftrightarrow> e \<in> {ContractViolation, Terminated, UndefinedBehaviour}"

text \<open>An exception that leaves a \<^verbatim>\<open>noexcept\<close> function ends the program.\<close>

definition no_throw :: "'a res \<Rightarrow> 'a res" where
  "no_throw r = (case r of Inl e \<Rightarrow> Inl (if ends_program e then e else Terminated) | Inr x \<Rightarrow> Inr x)"

lemma no_throw_simps [simp]:
  "no_throw (Inr x) = Inr x" "no_throw (Inl (SystemError c)) = Inl Terminated"
  "no_throw (Inl RuntimeError) = Inl Terminated" "no_throw (Inl ContractViolation) = Inl ContractViolation"
  "no_throw (Inl UndefinedBehaviour) = Inl UndefinedBehaviour"
  by (simp_all add: no_throw_def ends_program_def)

lemma no_throw_assert [simp]:
  "no_throw (posix_assert e b) = (if b then Inr () else Inl Terminated)"
  "no_throw (win32_assert c b) = (if b then Inr () else Inl Terminated)"
  by simp_all

end
