(* ===== verification/Thread_Name.thy ===== *)
theory Thread_Name
  imports Text_Scan Os_Errors
begin

text \<open>
  The names of the threads of a squad (\<^verbatim>\<open>thread_squad_thread_func\<close> and \<^verbatim>\<open>setCurrentThreadDescription\<close>
  of \<^verbatim>\<open>src/src/thread_squad.cpp\<close>). Linux takes names of at most 15 characters and fails for
  longer ones, which would end the program, as the function runs on a thread of its own.
\<close>

section \<open>Formatting\<close>

text \<open>\<^verbatim>\<open>std::snprintf(buf, size, "...%d", n)\<close>: at most \<^verbatim>\<open>size - 1\<close> characters and a null character.\<close>

definition print_int :: "int \<Rightarrow> string" where
  "print_int n = (if n < 0 then CHR 0x2D # print_nat (nat (- n)) else print_nat (nat n))"

definition snprintf :: "string \<Rightarrow> string \<Rightarrow> string" where
  "snprintf buf text =
     (let written = take (length buf - 1) text @ [CHR 0x00] in written @ drop (length written) buf)"

section \<open>The names\<close>

text \<open>The buffer on Linux, which is zero at first; the name is the C string in it.\<close>

definition linux_name_buffer :: "int \<Rightarrow> string" where
  "linux_name_buffer threadIdx =
     (let buf = snprintf (replicate 64 (CHR 0x00)) (''squad thrd '' @ print_int threadIdx) in
      if buf ! 15 \<noteq> CHR 0x00
      then buf[12 := CHR 0x2E, 13 := CHR 0x2E, 14 := CHR 0x2E, 15 := CHR 0x00] else buf)"

definition linux_thread_name :: "int \<Rightarrow> string" where
  "linux_thread_name threadIdx = c_str (linux_name_buffer threadIdx)"

text \<open>The first statements of the thread; \<^verbatim>\<open>pthread_setname_np\<close> is a parameter.\<close>

definition linux_set_name :: "(string \<Rightarrow> int) \<Rightarrow> int \<Rightarrow> unit res" where
  "linux_set_name pthread_setname_np threadIdx =
     no_throw (posix_check (pthread_setname_np (linux_thread_name threadIdx)))"

text \<open>The name on macOS and, in wide characters, on Windows; the buffer is not initialised there.\<close>

definition long_thread_name :: "string \<Rightarrow> int \<Rightarrow> string" where
  "long_thread_name buf threadIdx = c_str (snprintf buf (''patton thread squad, thread '' @ print_int threadIdx))"

text \<open>
  \<^verbatim>\<open>setCurrentThreadDescription\<close>: it looks for a function of the system, and if there is none, it narrows
  the wide characters one by one and raises an exception that tells the name to a debugger.
\<close>

definition narrow_description :: "16 word list \<Rightarrow> 8 word list" where
  "narrow_description ws = map ucast (takeWhile (\<lambda>w. w \<noteq> 0) ws)"

datatype description =
    SetDescription "16 word list"       \<comment> \<open>\<^verbatim>\<open>SetThreadDescription(GetCurrentThread(), ...)\<close>\<close>
  | NameException "8 word list"         \<comment> \<open>\<^verbatim>\<open>setThreadNameViaException\<close>\<close>

text \<open>The parameter says which names \<^verbatim>\<open>GetProcAddress\<close> finds in \<^verbatim>\<open>kernel32.dll\<close>.\<close>

definition setCurrentThreadDescription :: "(string \<Rightarrow> bool) \<Rightarrow> 16 word list \<Rightarrow> description" where
  "setCurrentThreadDescription GetProcAddress threadDescription =
     (if GetProcAddress ''SetThreadDescriptionType'' then SetDescription threadDescription
      else NameException (narrow_description threadDescription))"

text \<open>Narrowing keeps the name, whose characters are ASCII.\<close>

lemma narrow_ascii:
  assumes "\<forall>c \<in> set cs. c \<noteq> 0"
  shows "narrow_description (map ucast cs @ 0 # rest) = (cs :: 8 word list)"
proof -
  have r: "ucast (ucast c :: 16 word) = c" for c :: "8 word" by (rule bit_word_eqI) (simp add: bit_simps)
  then have z: "(ucast c :: 16 word) \<noteq> 0" if "c \<noteq> 0" for c :: "8 word" using that unsigned_0 by metis
  have "takeWhile (\<lambda>w. w \<noteq> 0) (map ucast cs @ 0 # rest) = (map ucast cs :: 16 word list)"
    using assms z by (induction cs) auto
  then show ?thesis using r by (simp add: narrow_description_def o_def)
qed

text \<open>
  The name that is looked up is that of the type of the function and not \<^verbatim>\<open>SetThreadDescription\<close>, so that
  a system that has the function, but exports no such name, does not get the description.
\<close>

lemma description_never_set:
  assumes "\<not> GetProcAddress ''SetThreadDescriptionType''"
  shows "setCurrentThreadDescription GetProcAddress ws \<noteq> SetDescription vs"
  using assms by (simp add: setCurrentThreadDescription_def)

section \<open>Their lengths\<close>

lemma print_nat_length: "n < 10 ^ k \<Longrightarrow> 0 < k \<Longrightarrow> length (print_nat n) \<le> k"
proof (induction n arbitrary: k rule: print_nat.induct)
  case (1 n)
  show ?case
  proof (cases "n < 10")
    case True
    then show ?thesis using "1.prems" by (subst print_nat.simps) simp
  next
    case False
    obtain j where k: "k = Suc j" using "1.prems" by (cases k) auto
    then have j: "0 < j" using False "1.prems" by (cases j) auto
    then have "n div 10 < 10 ^ j" using "1.prems" k by (simp add: less_mult_imp_div_less mult.commute)
    then have "length (print_nat (n div 10)) \<le> j" using "1.IH" False j by blast
    then show ?thesis using False k by (subst print_nat.simps) simp
  qed
qed

lemma print_nat_long: "10 ^ k \<le> n \<Longrightarrow> k < length (print_nat n)"
proof (induction n arbitrary: k rule: print_nat.induct)
  case (1 n)
  show ?case
  proof (cases "n < 10")
    case True
    have "k = 0"
    proof (rule ccontr)
      assume "k \<noteq> 0"
      then have "10 ^ 1 \<le> (10 ^ k :: nat)" by (intro power_increasing) simp_all
      then show False using True "1.prems" by simp
    qed
    then show ?thesis by simp
  next
    case False
    show ?thesis
    proof (cases k)
      case (Suc j)
      then have "10 ^ j \<le> n div 10" using "1.prems" by (simp add: less_eq_div_iff_mult_less_eq mult.commute)
      then have "j < length (print_nat (n div 10))" using "1.IH" False by blast
      then show ?thesis using False Suc by (subst print_nat.simps) simp
    qed simp
  qed
qed

lemma c_str_append: "CHR 0x00 \<notin> set xs \<Longrightarrow> c_str (xs @ CHR 0x00 # rest) = xs"
  by (induction xs) (auto simp: c_str_def)

lemma snprintf_fits:
  assumes "length text < length buf"
  shows "snprintf buf text = text @ CHR 0x00 # drop (length text + 1) buf"
  using assms by (simp add: snprintf_def Let_def)

lemma print_int_chars: "CHR 0x00 \<notin> set (print_int n)"
proof -
  have "CHR 0x00 \<notin> set (print_nat m)" for m using print_nat_digits [of m] by (auto simp: is_digit_def)
  then show ?thesis by (simp add: print_int_def)
qed

definition thread_text :: "int \<Rightarrow> string" where
  "thread_text i = ''squad thrd '' @ print_int i"

lemma thread_text_chars: "CHR 0x00 \<notin> set (thread_text i)"
  using print_int_chars by (simp add: thread_text_def)

lemma thread_text_length:
  assumes "0 \<le> i" "i < 2 ^ 31"
  shows "length (thread_text i) < 64" "length (thread_text i) \<le> 15 \<longleftrightarrow> i < 10000"
proof -
  have "nat i < 10 ^ 10" using assms by (simp add: nat_less_iff)
  then show "length (thread_text i) < 64"
    using print_nat_length [of "nat i" 10] assms by (simp add: thread_text_def print_int_def)
  show "length (thread_text i) \<le> 15 \<longleftrightarrow> i < 10000"
  proof (cases "i < 10000")
    case True
    then have "nat i < 10 ^ 4" using assms by (simp add: nat_less_iff)
    then show ?thesis using print_nat_length [of "nat i" 4] True assms by (simp add: thread_text_def print_int_def)
  next
    case False
    then have "10 ^ 4 \<le> nat i" by simp
    then show ?thesis using print_nat_long [of 4 "nat i"] False assms by (simp add: thread_text_def print_int_def)
  qed
qed

lemma c_str_zeros: "CHR 0x00 \<notin> set xs \<Longrightarrow> 0 < n \<Longrightarrow> c_str (xs @ replicate n (CHR 0x00)) = xs"
  using c_str_append [of xs "replicate (n - 1) (CHR 0x00)"] by (cases n) simp_all

lemma update_four:
  fixes xs :: "char list"
  assumes "16 \<le> length xs"
  shows "xs[12 := x, 13 := y, 14 := z, 15 := w] = take 12 xs @ [x, y, z, w] @ drop 16 xs"
proof (rule nth_equalityI)
  show "length (xs[12 := x, 13 := y, 14 := z, 15 := w]) = length (take 12 xs @ [x, y, z, w] @ drop 16 xs)"
    using assms by simp
  fix k assume "k < length (xs[12 := x, 13 := y, 14 := z, 15 := w])"
  then have k: "k < length xs" by simp
  consider "k < 12" | "k = 12" | "k = 13" | "k = 14" | "k = 15" | "16 \<le> k" by linarith
  then show "xs[12 := x, 13 := y, 14 := z, 15 := w] ! k = (take 12 xs @ [x, y, z, w] @ drop 16 xs) ! k"
  proof cases
    case 6
    then obtain j where "k = 16 + j" using le_Suc_ex by blast
    then show ?thesis using assms k by (simp add: nth_append)
  qed (use assms k in \<open>simp_all add: nth_append\<close>)
qed

lemma linux_thread_name_text:
  assumes "0 \<le> i" "i < 2 ^ 31"
  shows "linux_thread_name i = (if i < 10000 then thread_text i else take 12 (thread_text i) @ ''...'')"
proof -
  let ?t = "thread_text i"
  let ?b = "?t @ replicate (64 - length ?t) (CHR 0x00)"
  note l = thread_text_length [OF assms]
  have "CHR 0x00 # replicate (63 - length ?t) (CHR 0x00) = replicate (64 - length ?t) (CHR 0x00)"
    using l(1) by (simp add: Suc_diff_le flip: replicate_Suc)
  then have b: "snprintf (replicate 64 (CHR 0x00)) (''squad thrd '' @ print_int i) = ?b"
    using snprintf_fits [of ?t "replicate 64 (CHR 0x00)"] l(1) unfolding thread_text_def by simp
  show ?thesis
  proof (cases "i < 10000")
    case True
    then have "?b ! 15 = CHR 0x00" using l by (simp add: nth_append)
    then show ?thesis
      using True c_str_zeros [OF thread_text_chars, of "64 - length ?t"] l(1)
      unfolding linux_thread_name_def linux_name_buffer_def b by simp
  next
    case False
    then have n: "16 \<le> length ?t" using l(2) by simp
    then have "?t ! 15 \<in> set ?t" by simp
    then have "?t ! 15 \<noteq> CHR 0x00" using thread_text_chars [of i] by metis
    then have c: "?b ! 15 \<noteq> CHR 0x00" using n by (simp add: nth_append)
    have "linux_name_buffer i = ?b[12 := CHR 0x2E, 13 := CHR 0x2E, 14 := CHR 0x2E, 15 := CHR 0x00]"
      using c unfolding linux_name_buffer_def b by simp
    also have "\<dots> = take 12 ?b @ [CHR 0x2E, CHR 0x2E, CHR 0x2E, CHR 0x00] @ drop 16 ?b"
      by (rule update_four) (use n in simp)
    finally have "linux_name_buffer i = (take 12 ?t @ ''...'') @ CHR 0x00 # drop 16 ?b" using n by simp
    then have "linux_thread_name i = c_str ((take 12 ?t @ ''...'') @ CHR 0x00 # drop 16 ?b)"
      unfolding linux_thread_name_def by (rule arg_cong)
    moreover have "CHR 0x00 \<notin> set (take 12 ?t @ ''...'')"
      using thread_text_chars [of i] in_set_takeD [of "CHR 0x00" 12 ?t] by auto
    ultimately have "linux_thread_name i = take 12 ?t @ ''...''" using c_str_append by metis
    then show ?thesis using False by simp
  qed
qed

section \<open>The property\<close>

text \<open>
  The name of a thread: on Linux it has at most 15 characters for every index, is the complete text
  for indices below 10000 and ends in three dots for others, so setting it does not end the program;
  on the other systems the complete text fits the buffer.
\<close>

theorem thread_names_fit:
  assumes "0 \<le> i" "i < 2 ^ 31" "\<And>name. length name \<le> 15 \<Longrightarrow> pthread_setname_np name = 0" "length buf = 64"
  shows "length (linux_thread_name i) \<le> 15 \<and> linux_set_name pthread_setname_np i = Inr ()
    \<and> linux_thread_name i =
        (if i < 10000 then ''squad thrd '' @ print_int i else take 12 (''squad thrd '' @ print_int i) @ ''...'')
    \<and> long_thread_name buf i = ''patton thread squad, thread '' @ print_int i"
proof -
  have n: "length (linux_thread_name i) \<le> 15"
    using thread_text_length(2) [OF assms(1,2)] by (simp add: linux_thread_name_text [OF assms(1,2)])
  have "nat i < 10 ^ 10" using assms by (simp add: nat_less_iff)
  then have "length (''patton thread squad, thread '' @ print_int i) < 64"
    using print_nat_length [of "nat i" 10] assms by (simp add: print_int_def)
  then have "long_thread_name buf i = ''patton thread squad, thread '' @ print_int i"
    unfolding long_thread_name_def using assms(4) print_int_chars [of i]
    by (subst snprintf_fits) (simp, subst c_str_append, auto)
  then show ?thesis
    using n assms(3) by (simp add: linux_set_name_def linux_thread_name_text [OF assms(1,2)] thread_text_def)
qed

lemma thread_names_fit_witness:
  "linux_thread_name 12345 = ''squad thrd 1...''
    \<and> linux_set_name (\<lambda>name. if length name \<le> 15 then 0 else 34) 12345 = Inr ()"
proof -
  have "char_of (49 :: nat) = CHR ''1''" by code_simp
  then have "take 1 (print_int 12345) = ''1''" by (simp add: print_int_def print_nat.simps)
  then show ?thesis
    using thread_names_fit [of 12345 "\<lambda>name. if length name \<le> 15 then 0 else 34" "replicate 64 (CHR 0x41)"]
    by simp
qed

end
