(* ===== verification/Os_Statements.thy ===== *)
theory Os_Statements
  imports Os_Errors
begin

text \<open>
  Statements that change the state of the operating system and may throw, in the order in which the
  code has them, and blocks with a local object whose destructor gives a resource back.
\<close>

section \<open>Statements\<close>

text \<open>A statement returns or throws; in both cases the system has changed.\<close>

type_synonym ('s, 'a) act = "'s \<Rightarrow> 'a res \<times> 's"

definition ret :: "'a \<Rightarrow> ('s, 'a) act" where
  "ret x s = (Inr x, s)"

definition throw :: "failure \<Rightarrow> ('s, 'a) act" where
  "throw e s = (Inl e, s)"

definition act_then :: "('s, 'a) act \<Rightarrow> ('a \<Rightarrow> ('s, 'b) act) \<Rightarrow> ('s, 'b) act" where
  "act_then m f s = (case m s of (Inl e, s') \<Rightarrow> (Inl e, s') | (Inr x, s') \<Rightarrow> f x s')"

text \<open>A computation that leaves the state alone.\<close>

definition attempt :: "'a res \<Rightarrow> ('s, 'a) act" where
  "attempt r s = (r, s)"

definition expects :: "bool \<Rightarrow> ('s, unit) act" where
  "expects b = (if b then ret () else throw ContractViolation)"

definition update :: "('s \<Rightarrow> 's) \<Rightarrow> ('s, unit) act" where
  "update f s = (Inr (), f s)"

text \<open>
  A block with a local object: its destructor runs when the block returns and when it throws, and
  ends the program if it throws itself.
\<close>

definition with_destructor :: "('s, 'a) act \<Rightarrow> ('s, unit) act \<Rightarrow> ('s, 'a) act" where
  "with_destructor body destructor s =
     (case body s of (r, s') \<Rightarrow>
        if (case r of Inl e \<Rightarrow> ends_program e | Inr _ \<Rightarrow> False) then (r, s')
        else case destructor s' of
            (Inl e, s'') \<Rightarrow> (Inl (if ends_program e then e else Terminated), s'')
          | (Inr _, s'') \<Rightarrow> (r, s''))"

lemma act_then_Inr: "m s = (Inr x, u) \<Longrightarrow> act_then m f s = f x u"
  by (simp add: act_then_def)

lemma act_then_Inl: "m s = (Inl e, u) \<Longrightarrow> act_then m f s = (Inl e, u)"
  by (simp add: act_then_def)

lemmas act_simps = ret_def throw_def act_then_def attempt_def expects_def with_destructor_def update_def ends_program_def

end
