(* ===== verification/Os_Thread.thy ===== *)
theory Os_Thread
  imports Os_Statements
begin

text \<open>
  Threads of the operating system (\<^verbatim>\<open>os_thread\<close>, \<^verbatim>\<open>pthread_handle\<close>, \<^verbatim>\<open>PThreadAttr\<close> and \<^verbatim>\<open>cpu_set\<close> of
  \<^verbatim>\<open>src/src/thread_squad.cpp\<close>), for POSIX threads. The model counts the resources that are taken from the system, so that the destructors
  can be seen to give them back; the results of the calls of the system are parameters.
\<close>

section \<open>The system\<close>

text \<open>
  The resources in use: CPU sets, attribute objects, and the threads that are neither joined nor
  detached, each with the CPUs it may run on (none: all of them).
\<close>

record pthreads =
  api_calls :: nat
  cpu_sets :: nat
  attrs :: nat
  joinable :: "(int \<times> nat list option) list"

text \<open>
  What the calls of the system return: the error code of the call with a given number (for
  \<^verbatim>\<open>CPU_ALLOC\<close>, null unless it is 0), and the id of a new thread.
\<close>

record pthread_api =
  hardware_concurrency :: nat
  error_code :: "nat \<Rightarrow> int"
  thread_id :: "pthreads \<Rightarrow> int"

text \<open>The id of a new thread is not that of another one, and not the value of \<^verbatim>\<open>pthread_t{ }\<close>.\<close>

definition api_ok :: "pthread_api \<Rightarrow> bool" where
  "api_ok api \<longleftrightarrow> (\<forall>s. thread_id api s \<noteq> 0 \<and> map_of (joinable s) (thread_id api s) = None)"

text \<open>A call of the system: its error code.\<close>

definition api_call :: "pthread_api \<Rightarrow> (pthreads, int) act" where
  "api_call api s = (Inr (error_code api (api_calls s)), s\<lparr>api_calls := api_calls s + 1\<rparr>)"

section \<open>CPU sets and attributes\<close>

text \<open>\<^verbatim>\<open>cpu_set\<close>: the number of CPUs, and the flags that are set.\<close>

record cpu_set =
  cpuCount :: nat
  flags :: "nat list"

definition new_cpu_set :: "pthread_api \<Rightarrow> (pthreads, cpu_set) act" where
  "new_cpu_set api = act_then (api_call api) (\<lambda>ec.
     if ec \<noteq> 0 then throw BadAlloc
     else act_then (update (\<lambda>s. s\<lparr>cpu_sets := cpu_sets s + 1\<rparr>)) (\<lambda>_.
       ret \<lparr>cpuCount = hardware_concurrency api, flags = []\<rparr>))"

definition set_cpu_flag :: "nat \<Rightarrow> cpu_set \<Rightarrow> (pthreads, cpu_set) act" where
  "set_cpu_flag coreIdx c = act_then (expects (coreIdx < cpuCount c)) (\<lambda>_. ret (c\<lparr>flags := coreIdx # flags c\<rparr>))"

definition delete_cpu_set :: "(pthreads, unit) act" where
  "delete_cpu_set = update (\<lambda>s. s\<lparr>cpu_sets := cpu_sets s - 1\<rparr>)"

text \<open>The attributes of a thread to be created: the CPUs it may run on.\<close>

definition setThreadAttrAffinity :: "pthread_api \<Rightarrow> nat \<Rightarrow> (pthreads, nat list option) act" where
  "setThreadAttrAffinity api coreIdx = act_then (new_cpu_set api) (\<lambda>c.
     with_destructor
       (act_then (set_cpu_flag coreIdx c) (\<lambda>c'.
        act_then (api_call api) (\<lambda>ec.
        act_then (attempt (posix_check ec)) (\<lambda>_. ret (Some (flags c'))))))
       delete_cpu_set)"

definition new_attr :: "pthread_api \<Rightarrow> (pthreads, unit) act" where
  "new_attr api = act_then (api_call api) (\<lambda>ec. act_then (attempt (posix_check ec)) (\<lambda>_.
     update (\<lambda>s. s\<lparr>attrs := attrs s + 1\<rparr>)))"

definition delete_attr :: "pthread_api \<Rightarrow> (pthreads, unit) act" where
  "delete_attr api = act_then (api_call api) (\<lambda>ec. act_then (update (\<lambda>s. s\<lparr>attrs := attrs s - 1\<rparr>)) (\<lambda>_.
     attempt (posix_check ec)))"

section \<open>Handles\<close>

text \<open>
  \<^verbatim>\<open>pthread_handle\<close>: the id of a thread, or 0. The error code of \<^verbatim>\<open>pthread_detach\<close> is ignored; to
  detach or join a thread that is not joinable is undefined behaviour.
\<close>

definition pthread_detach :: "int \<Rightarrow> (pthreads, unit) act" where
  "pthread_detach h s =
     (if map_of (joinable s) h = None then (Inl UndefinedBehaviour, s)
      else (Inr (), s\<lparr>joinable := filter (\<lambda>(k, _). k \<noteq> h) (joinable s)\<rparr>))"

definition handle_release :: "int \<Rightarrow> int \<times> int" where
  "handle_release h = (h, 0)"

text \<open>Move assignment of different objects: the new values of both.\<close>

definition handle_assign :: "int \<Rightarrow> int \<Rightarrow> (pthreads, (int \<times> int)) act" where
  "handle_assign h rhs =
     act_then (if h \<noteq> 0 then pthread_detach h else ret ()) (\<lambda>_. ret (handle_release rhs))"

definition handle_destruct :: "int \<Rightarrow> (pthreads, unit) act" where
  "handle_destruct h = (if h \<noteq> 0 then pthread_detach h else ret ())"

section \<open>Threads\<close>

record os_thread =
  thread_handle :: int
  coreAffinity :: "nat option"   \<comment> \<open>none for \<^verbatim>\<open>std::size_t(-1)\<close>\<close>

definition new_os_thread :: os_thread where
  "new_os_thread = \<lparr>thread_handle = 0, coreAffinity = None\<rparr>"

definition have_thread_handle :: "os_thread \<Rightarrow> bool" where
  "have_thread_handle t \<longleftrightarrow> thread_handle t \<noteq> 0"

definition set_core_affinity :: "nat \<Rightarrow> os_thread \<Rightarrow> (pthreads, os_thread) act" where
  "set_core_affinity c t = act_then (expects (\<not> have_thread_handle t)) (\<lambda>_. ret (t\<lparr>coreAffinity := Some c\<rparr>))"

text \<open>\<^verbatim>\<open>pthread_create\<close>: the id of the new thread.\<close>

definition pthread_create :: "pthread_api \<Rightarrow> nat list option \<Rightarrow> (pthreads, int) act" where
  "pthread_create api attr = act_then (api_call api) (\<lambda>ec. act_then (attempt (posix_check ec)) (\<lambda>_ s.
     (Inr (thread_id api s), s\<lparr>joinable := (thread_id api s, attr) # joinable s\<rparr>)))"

text \<open>The attributes of a thread that is pinned to a CPU, or not.\<close>

definition fork_attributes :: "pthread_api \<Rightarrow> nat option \<Rightarrow> (pthreads, nat list option) act" where
  "fork_attributes api a = (case a of None \<Rightarrow> ret None | Some c \<Rightarrow> setThreadAttrAffinity api c)"

definition os_fork :: "pthread_api \<Rightarrow> os_thread \<Rightarrow> (pthreads, os_thread) act" where
  "os_fork api t =
     act_then (expects (\<not> have_thread_handle t)) (\<lambda>_.
     act_then (new_attr api) (\<lambda>_.
     with_destructor
       (act_then (fork_attributes api (coreAffinity t)) (\<lambda>attr.
        act_then (pthread_create api attr) (\<lambda>lhandle.
        act_then (handle_assign (thread_handle t) lhandle) (\<lambda>(h, _).
        ret (t\<lparr>thread_handle := h\<rparr>)))))
       (delete_attr api)))"

text \<open>\<^verbatim>\<open>join()\<close>, once the thread has exited.\<close>

definition pthread_join :: "pthread_api \<Rightarrow> int \<Rightarrow> (pthreads, unit) act" where
  "pthread_join api h = act_then (api_call api) (\<lambda>ec. act_then (attempt (posix_check ec)) (\<lambda>_. pthread_detach h))"

definition os_join :: "pthread_api \<Rightarrow> os_thread \<Rightarrow> (pthreads, os_thread) act" where
  "os_join api t =
     act_then (expects (have_thread_handle t)) (\<lambda>_.
     act_then (pthread_join api (thread_handle t)) (\<lambda>_.
     ret (t\<lparr>thread_handle := snd (handle_release (thread_handle t))\<rparr>)))"

section \<open>What the operations leave behind\<close>

text \<open>The resources in use other than threads.\<close>

definition local_resources :: "pthreads \<Rightarrow> nat \<times> nat" where
  "local_resources s = (cpu_sets s, attrs s)"

lemmas thread_act_simps = act_simps api_call_def posix_check_def

lemma setThreadAttrAffinity_cases:
  assumes "setThreadAttrAffinity api c s = (r, s')"
  shows "joinable s' = joinable s
    \<and> (r = Inr (Some [c]) \<and> c < hardware_concurrency api \<and> local_resources s' = local_resources s
     \<or> (r = Inl BadAlloc \<or> (\<exists>e. r = Inl (SystemError e) \<and> e \<noteq> 0 \<and> c < hardware_concurrency api))
         \<and> local_resources s' = local_resources s
     \<or> r = Inl ContractViolation \<and> hardware_concurrency api \<le> c)"
  using assms
  by (auto simp: setThreadAttrAffinity_def new_cpu_set_def set_cpu_flag_def delete_cpu_set_def thread_act_simps
      local_resources_def split: if_splits)

text \<open>The block of \<^verbatim>\<open>fork()\<close> in which the attributes exist.\<close>

definition fork_body :: "pthread_api \<Rightarrow> os_thread \<Rightarrow> (pthreads, os_thread) act" where
  "fork_body api t =
     act_then (fork_attributes api (coreAffinity t)) (\<lambda>attr.
     act_then (pthread_create api attr) (\<lambda>lhandle.
     act_then (handle_assign (thread_handle t) lhandle) (\<lambda>(h, _).
     ret (t\<lparr>thread_handle := h\<rparr>))))"

lemma attributes_cases:
  assumes "fork_attributes api a s = (r, s')"
  obtains (ready) "r = Inr (map_option (\<lambda>c. [c]) a)" "joinable s' = joinable s" "local_resources s' = local_resources s"
  | (thrown) e where "r = Inl e" "\<not> ends_program e" "joinable s' = joinable s" "local_resources s' = local_resources s"
  | (ended) "r = Inl ContractViolation"
proof (cases a)
  case None
  then show ?thesis using assms ready by (simp add: fork_attributes_def ret_def)
next
  case (Some c)
  then have "setThreadAttrAffinity api c s = (r, s')" using assms by (simp add: fork_attributes_def)
  note c = setThreadAttrAffinity_cases [OF this]
  show ?thesis
  proof (cases r)
    case (Inr x)
    then show ?thesis using c Some ready by auto
  next
    case (Inl e)
    then show ?thesis using c thrown ended by (auto simp: ends_program_def)
  qed
qed

lemma create_cases:
  assumes api: "api_ok api"
    and c: "act_then (pthread_create api attr) (\<lambda>lhandle. act_then (handle_assign 0 lhandle) (\<lambda>(h, _).
      ret (t\<lparr>thread_handle := h\<rparr>))) s = (r, s')"
  obtains (created) h where "r = Inr (t\<lparr>thread_handle := h\<rparr>)" "h \<noteq> 0" "map_of (joinable s) h = None"
      "joinable s' = (h, attr) # joinable s" "local_resources s' = local_resources s"
  | (thrown) e where "r = Inl e" "\<not> ends_program e" "joinable s' = joinable s" "local_resources s' = local_resources s"
proof (cases "error_code api (api_calls s) = 0")
  case True
  let ?s = "s\<lparr>api_calls := api_calls s + 1\<rparr>"
  have "thread_id api ?s \<noteq> 0" "map_of (joinable s) (thread_id api ?s) = None"
    using api [unfolded api_ok_def, rule_format, of ?s] by simp_all
  moreover have "r = Inr (t\<lparr>thread_handle := thread_id api ?s\<rparr>)"
      "s' = ?s\<lparr>joinable := (thread_id api ?s, attr) # joinable s\<rparr>"
    using c True by (auto simp: pthread_create_def handle_assign_def handle_release_def thread_act_simps)
  ultimately show ?thesis by (intro created [of "thread_id api ?s"]) (simp_all add: local_resources_def)
next
  case False
  then show ?thesis using c
    by (intro thrown [of "SystemError (error_code api (api_calls s))"])
      (auto simp: pthread_create_def thread_act_simps local_resources_def)
qed

lemma fork_body_cases:
  assumes api: "api_ok api" and t: "thread_handle t = 0" and f: "fork_body api t s = (r, s')"
  obtains (forked) h where "r = Inr (t\<lparr>thread_handle := h\<rparr>)" "h \<noteq> 0" "map_of (joinable s) h = None"
      "joinable s' = (h, map_option (\<lambda>c. [c]) (coreAffinity t)) # joinable s" "local_resources s' = local_resources s"
  | (thrown) e where "r = Inl e" "\<not> ends_program e" "joinable s' = joinable s" "local_resources s' = local_resources s"
  | (ended) "r = Inl ContractViolation"
proof -
  obtain q u where q: "fork_attributes api (coreAffinity t) s = (q, u)"
    by (meson surj_pair)
  from q show ?thesis
  proof (cases rule: attributes_cases)
    case ready
    have "act_then (pthread_create api (map_option (\<lambda>c. [c]) (coreAffinity t))) (\<lambda>lhandle.
        act_then (handle_assign 0 lhandle) (\<lambda>(h, _). ret (t\<lparr>thread_handle := h\<rparr>))) u = (r, s')"
      using f t by (simp add: fork_body_def act_then_Inr [of "fork_attributes api (coreAffinity t)" s, OF q [unfolded ready(1)]])
    from api this show ?thesis
      by (cases rule: create_cases) (use ready forked thrown in auto)
  next
    case (thrown e)
    then show ?thesis using f that(2)
      by (auto simp: fork_body_def act_then_Inl [of "fork_attributes api (coreAffinity t)" s, OF q [unfolded thrown(1)]])
  next
    case ended
    then show ?thesis using f that(3)
      by (simp add: fork_body_def act_then_Inl [of "fork_attributes api (coreAffinity t)" s, OF q [unfolded ended(1)]])
  qed
qed

lemma os_fork_cases:
  assumes api: "api_ok api" and t: "thread_handle t = 0" and f: "os_fork api t s = (r, s')"
  obtains (forked) h where "r = Inr (t\<lparr>thread_handle := h\<rparr>)" "h \<noteq> 0" "map_of (joinable s) h = None"
      "joinable s' = (h, map_option (\<lambda>c. [c]) (coreAffinity t)) # joinable s" "local_resources s' = local_resources s"
  | (thrown) e where "r = Inl e" "\<not> ends_program e" "joinable s' = joinable s" "local_resources s' = local_resources s"
  | (ended) e where "r = Inl e" "e = Terminated \<or> e = ContractViolation"
proof (cases "error_code api (api_calls s) = 0")
  case False
  then show ?thesis using f t
    by (intro thrown [of "SystemError (error_code api (api_calls s))"])
      (auto simp: os_fork_def have_thread_handle_def new_attr_def thread_act_simps local_resources_def)
next
  case True
  let ?s = "s\<lparr>api_calls := api_calls s + 1, attrs := attrs s + 1\<rparr>"
  have f': "with_destructor (fork_body api t) (delete_attr api) ?s = (r, s')"
    using f t True by (simp add: os_fork_def fork_body_def have_thread_handle_def new_attr_def act_then_def expects_def
        ret_def api_call_def attempt_def posix_check_def update_def)
  obtain q u where q: "fork_body api t ?s = (q, u)" by (meson surj_pair)
  have d: "delete_attr api u = (if error_code api (api_calls u) = 0 then Inr () else Inl (SystemError (error_code api (api_calls u))),
      u\<lparr>api_calls := api_calls u + 1, attrs := attrs u - 1\<rparr>)"
    by (simp add: delete_attr_def thread_act_simps)
  from api t q show ?thesis
  proof (cases rule: fork_body_cases)
    case (forked h)
    then show ?thesis using f' q d that(1) [of h] that(3) [of Terminated]
      by (auto simp: with_destructor_def ends_program_def local_resources_def split: if_splits)
  next
    case (thrown e)
    then show ?thesis using f' q d that(2) [of e] that(3) [of Terminated]
      by (auto simp: with_destructor_def ends_program_def local_resources_def split: if_splits)
  next
    case ended
    then show ?thesis using f' q that(3) by (auto simp: with_destructor_def ends_program_def)
  qed
qed

text \<open>When nothing fails, the thread is forked.\<close>

lemma os_fork_succeeds:
  assumes "thread_handle t = 0" "\<And>m. error_code api m = 0"
    and "\<And>c. coreAffinity t = Some c \<Longrightarrow> c < hardware_concurrency api"
  shows "\<exists>t' s'. os_fork api t s = (Inr t', s')"
  using assms
  by (cases "coreAffinity t")
    (simp_all add: os_fork_def have_thread_handle_def new_attr_def thread_act_simps fork_attributes_def pthread_create_def
      handle_assign_def handle_release_def delete_attr_def setThreadAttrAffinity_def new_cpu_set_def
      set_cpu_flag_def delete_cpu_set_def)

section \<open>Programs with threads\<close>

text \<open>
  What the owner of an array of \<^verbatim>\<open>m\<close> \<^verbatim>\<open>os_thread\<close> objects does with them, in any order: an operation
  that throws leaves its object as it was. At the end all objects are destroyed.
\<close>

datatype thread_op = SetAffinity nat | ForkThread | JoinThread

definition apply_op :: "pthread_api \<Rightarrow> thread_op \<Rightarrow> os_thread \<Rightarrow> (pthreads, os_thread) act" where
  "apply_op api op t = (case op of
     SetAffinity c \<Rightarrow> set_core_affinity c t
   | ForkThread \<Rightarrow> os_fork api t
   | JoinThread \<Rightarrow> os_join api t)"

definition no_threads :: pthreads where
  "no_threads = \<lparr>api_calls = 0, cpu_sets = 0, attrs = 0, joinable = []\<rparr>"

inductive threads_reachable :: "pthread_api \<Rightarrow> nat \<Rightarrow> (nat \<Rightarrow> os_thread) \<Rightarrow> pthreads \<Rightarrow> bool" for api m where
  start: "threads_reachable api m (\<lambda>_. new_os_thread) no_threads"
| returned: "threads_reachable api m T s \<Longrightarrow> i < m \<Longrightarrow> apply_op api op (T i) s = (Inr t, s')
    \<Longrightarrow> threads_reachable api m (T(i := t)) s'"
| thrown: "threads_reachable api m T s \<Longrightarrow> i < m \<Longrightarrow> apply_op api op (T i) s = (Inl e, s') \<Longrightarrow> \<not> ends_program e
    \<Longrightarrow> threads_reachable api m T s'"

fun destroy_threads :: "nat \<Rightarrow> (nat \<Rightarrow> os_thread) \<Rightarrow> (pthreads, unit) act" where
  "destroy_threads 0 T = ret ()"
| "destroy_threads (Suc m) T = act_then (handle_destruct (thread_handle (T m))) (\<lambda>_. destroy_threads m T)"

text \<open>The threads that can be joined are those that the objects have handles of.\<close>

definition handles :: "nat \<Rightarrow> (nat \<Rightarrow> os_thread) \<Rightarrow> int set" where
  "handles m T = {h. h \<noteq> 0 \<and> (\<exists>i<m. thread_handle (T i) = h)}"

definition owned :: "nat \<Rightarrow> (nat \<Rightarrow> os_thread) \<Rightarrow> pthreads \<Rightarrow> bool" where
  "owned m T s \<longleftrightarrow> fst ` set (joinable s) = handles m T
     \<and> (\<forall>i<m. \<forall>j<m. thread_handle (T i) = thread_handle (T j) \<and> thread_handle (T i) \<noteq> 0 \<longrightarrow> i = j)
     \<and> (\<forall>i\<ge>m. thread_handle (T i) = 0)"

lemma ownedI:
  assumes "fst ` set (joinable s) = handles m T"
    and "\<And>i j. i < m \<Longrightarrow> j < m \<Longrightarrow> thread_handle (T i) = thread_handle (T j) \<Longrightarrow> thread_handle (T i) \<noteq> 0 \<Longrightarrow> i = j"
    and "\<And>i. m \<le> i \<Longrightarrow> thread_handle (T i) = 0"
  shows "owned m T s"
  using assms by (auto simp: owned_def)

lemma ownedD:
  assumes "owned m T s"
  shows "fst ` set (joinable s) = handles m T"
    "i < m \<Longrightarrow> j < m \<Longrightarrow> thread_handle (T i) = thread_handle (T j) \<Longrightarrow> thread_handle (T i) \<noteq> 0 \<Longrightarrow> i = j"
    "m \<le> i \<Longrightarrow> thread_handle (T i) = 0"
  using assms by (auto simp: owned_def)

lemma map_of_None: "map_of xs h = None \<longleftrightarrow> h \<notin> fst ` set xs"
  by (rule map_of_eq_None_iff)

lemma fst_filter: "fst ` set (filter (\<lambda>(k, _). k \<noteq> h) xs) = fst ` set xs - {h}"
  by force

lemma handles_update:
  "handles m (T(i := t)) = (if i < m \<and> thread_handle t \<noteq> 0 then {thread_handle t} else {})
    \<union> {h. h \<noteq> 0 \<and> (\<exists>j<m. j \<noteq> i \<and> thread_handle (T j) = h)}"
  by (auto simp: handles_def split: if_splits)

lemma owned_fork:
  assumes o: "owned m T s" and i: "i < m" "thread_handle (T i) = 0" and h: "h \<noteq> 0" "map_of (joinable s) h = None"
    and t: "thread_handle t = h" and s: "joinable s' = (h, a) # joinable s"
  shows "owned m (T(i := t)) s'"
proof (rule ownedI)
  have "h \<notin> handles m T" using ownedD(1) [OF o] h(2) by (simp add: map_of_None)
  then have other: "thread_handle (T j) \<noteq> h" if "j < m" for j using that h(1) by (auto simp: handles_def)
  have "handles m T = {h. h \<noteq> 0 \<and> (\<exists>j<m. j \<noteq> i \<and> thread_handle (T j) = h)}"
    using i(2) by (auto simp: handles_def)
  then have "handles m (T(i := t)) = insert h (handles m T)"
    using i(1) h(1) t by (simp add: handles_update)
  then show "fst ` set (joinable s') = handles m (T(i := t))" using ownedD(1) [OF o] s by simp
  show "j = k" if "j < m" "k < m" "thread_handle ((T(i := t)) j) = thread_handle ((T(i := t)) k)"
      "thread_handle ((T(i := t)) j) \<noteq> 0" for j k
    using that other [of j] other [of k] ownedD(2) [OF o, of j k] t by (cases "j = i"; cases "k = i") simp_all
  show "thread_handle ((T(i := t)) j) = 0" if "m \<le> j" for j using that i(1) ownedD(3) [OF o that] by auto
qed

lemma owned_release:
  assumes o: "owned m T s" and i: "i < m" "thread_handle (T i) = h" "h \<noteq> 0"
    and t: "thread_handle t = 0" and s: "joinable s' = filter (\<lambda>(k, _). k \<noteq> h) (joinable s)"
  shows "owned m (T(i := t)) s'"
proof (rule ownedI)
  have other: "thread_handle (T j) \<noteq> h" if "j < m" "j \<noteq> i" for j
    using ownedD(2) [OF o i(1) that(1)] i that(2) by auto
  have "handles m (T(i := t)) = {x. x \<noteq> 0 \<and> (\<exists>j<m. j \<noteq> i \<and> thread_handle (T j) = x)}"
    using t by (simp add: handles_update)
  also have "\<dots> = handles m T - {h}" using other i by (auto simp: handles_def)
  finally have "handles m (T(i := t)) = handles m T - {h}" .
  then show "fst ` set (joinable s') = handles m (T(i := t))"
    unfolding s fst_filter using ownedD(1) [OF o] by simp
  show "j = k" if "j < m" "k < m" "thread_handle ((T(i := t)) j) = thread_handle ((T(i := t)) k)"
      "thread_handle ((T(i := t)) j) \<noteq> 0" for j k
    using that ownedD(2) [OF o, of j k] t by (cases "j = i"; cases "k = i") simp_all
  show "thread_handle ((T(i := t)) j) = 0" if "m \<le> j" for j using that i(1) ownedD(3) [OF o that] by auto
qed

lemma owned_same:
  assumes "owned m T s" "joinable s' = joinable s" "thread_handle t = thread_handle (T i)"
  shows "owned m (T(i := t)) s'"
proof -
  have "thread_handle ((T(i := t)) j) = thread_handle (T j)" for j using assms(3) by simp
  then show ?thesis using assms(1,2) by (simp add: owned_def handles_def)
qed

lemma owned_joinable:
  "owned m T s \<Longrightarrow> i < m \<Longrightarrow> thread_handle (T i) \<noteq> 0 \<Longrightarrow> map_of (joinable s) (thread_handle (T i)) \<noteq> None"
  by (auto simp: owned_def map_of_None handles_def)

text \<open>What an operation does to the objects and the resources.\<close>

lemma os_join_cases:
  assumes "map_of (joinable s) (thread_handle t) \<noteq> None" "thread_handle t \<noteq> 0" "os_join api t s = (r, s')"
  shows "local_resources s' = local_resources s
    \<and> (r = Inr (t\<lparr>thread_handle := 0\<rparr>) \<and> joinable s' = filter (\<lambda>(k, _). k \<noteq> thread_handle t) (joinable s)
     \<or> (\<exists>c. r = Inl (SystemError c)) \<and> joinable s' = joinable s)"
  using assms
  by (auto simp: os_join_def have_thread_handle_def pthread_join_def pthread_detach_def handle_release_def
      thread_act_simps local_resources_def split: if_splits)

definition op_result :: "nat \<Rightarrow> (nat \<Rightarrow> os_thread) \<Rightarrow> nat \<Rightarrow> pthreads \<Rightarrow> os_thread res \<times> pthreads \<Rightarrow> bool" where
  "op_result m T i s x = (case x of
     (Inr t, s') \<Rightarrow> owned m (T(i := t)) s' \<and> local_resources s' = local_resources s
   | (Inl e, s') \<Rightarrow> e \<noteq> UndefinedBehaviour
       \<and> (ends_program e \<or> owned m T s' \<and> local_resources s' = local_resources s))"

lemma apply_op_result:
  assumes api: "api_ok api" and o: "owned m T s" and i: "i < m"
  shows "op_result m T i s (apply_op api op (T i) s)"
proof (cases op)
  case (SetAffinity c)
  then show ?thesis
    using o owned_same [OF o refl, of "(T i)\<lparr>coreAffinity := Some c\<rparr>" i]
    by (auto simp: op_result_def apply_op_def set_core_affinity_def thread_act_simps)
next
  case ForkThread
  obtain r s' where f: "os_fork api (T i) s = (r, s')" by (meson surj_pair)
  show ?thesis
  proof (cases "thread_handle (T i) = 0")
    case True
    from api True f show ?thesis
    proof (cases rule: os_fork_cases)
      case (forked h)
      have "owned m (T(i := (T i)\<lparr>thread_handle := h\<rparr>)) s'"
        by (rule owned_fork [OF o i True forked(2,3) _ forked(4)]) simp
      then show ?thesis using f ForkThread forked by (simp add: op_result_def apply_op_def)
    next
      case (thrown e)
      then have "owned m T s'" using o by (simp add: owned_def)
      then show ?thesis using f ForkThread thrown by (auto simp: op_result_def apply_op_def ends_program_def)
    next
      case (ended e)
      then show ?thesis using f ForkThread by (auto simp: op_result_def apply_op_def ends_program_def)
    qed
  next
    case False
    then have "os_fork api (T i) s = (Inl ContractViolation, s)"
      by (simp add: os_fork_def have_thread_handle_def thread_act_simps)
    then show ?thesis using ForkThread by (simp add: op_result_def apply_op_def ends_program_def)
  qed
next
  case JoinThread
  obtain r s' where j: "os_join api (T i) s = (r, s')" by (meson surj_pair)
  show ?thesis
  proof (cases "thread_handle (T i) = 0")
    case True
    then have "os_join api (T i) s = (Inl ContractViolation, s)"
      by (simp add: os_join_def have_thread_handle_def thread_act_simps)
    then show ?thesis using JoinThread by (simp add: op_result_def apply_op_def ends_program_def)
  next
    case False
    note c = os_join_cases [OF owned_joinable [OF o i False] False j]
    show ?thesis
    proof (cases r)
      case (Inr t)
      then have "owned m (T(i := t)) s'" using c by (intro owned_release [OF o i refl False]) auto
      then show ?thesis using Inr c j JoinThread by (simp add: op_result_def apply_op_def)
    next
      case (Inl e)
      then have "owned m T s'" using c o by (auto simp: owned_def)
      then show ?thesis using Inl c j JoinThread by (auto simp: op_result_def apply_op_def)
    qed
  qed
qed

lemma threads_reachable_owned:
  assumes "threads_reachable api m T s" "api_ok api"
  shows "owned m T s \<and> local_resources s = (0, 0)"
  using assms(1)
proof induction
  case start
  show ?case by (simp add: owned_def handles_def no_threads_def new_os_thread_def local_resources_def)
next
  case (returned T s i op t s')
  then show ?case
    using apply_op_result [OF assms(2), of m T s i op] by (auto simp: op_result_def simp del: fun_upd_apply)
next
  case (thrown T s i op e s')
  then show ?case using apply_op_result [OF assms(2), of m T s i op] by (auto simp: op_result_def)
qed

lemma destroy_threads_all:
  "owned m T s \<Longrightarrow> \<exists>s'. destroy_threads m T s = (Inr (), s') \<and> joinable s' = [] \<and> local_resources s' = local_resources s"
proof (induction m arbitrary: T s)
  case 0
  then show ?case by (simp add: owned_def handles_def ret_def)
next
  case (Suc m)
  let ?h = "thread_handle (T m)"
  let ?s = "if ?h = 0 then s else s\<lparr>joinable := filter (\<lambda>(k, _). k \<noteq> ?h) (joinable s)\<rparr>"
  let ?T = "T(m := (T m)\<lparr>thread_handle := 0\<rparr>)"
  have d: "handle_destruct ?h s = (Inr (), ?s)"
    using owned_joinable [OF Suc.prems, of m]
    by (cases "?h = 0") (auto simp: handle_destruct_def ret_def pthread_detach_def)
  have "owned (Suc m) ?T ?s"
  proof (cases "?h = 0")
    case True
    then show ?thesis using owned_same [OF Suc.prems refl, of "(T m)\<lparr>thread_handle := 0\<rparr>" m] by simp
  next
    case False
    then show ?thesis using owned_release [OF Suc.prems _ refl False] by simp
  qed
  then have "owned m ?T ?s" by (auto simp: owned_def handles_def less_Suc_eq)
  from Suc.IH [OF this] obtain s' where "destroy_threads m ?T ?s = (Inr (), s')" "joinable s' = []"
      "local_resources s' = local_resources ?s" by blast
  moreover have "destroy_threads m (T(m := t)) u = destroy_threads m T u" for t u
  proof -
    have "destroy_threads k (T(m := t)) = destroy_threads k T" if "k \<le> m" for k
      using that by (induction k) simp_all
    then show ?thesis by simp
  qed
  ultimately show ?case using d by (simp add: act_then_def local_resources_def)
qed

text \<open>
  A thread cannot be pinned to a CPU whose number is not below \<^verbatim>\<open>std::thread::hardware_concurrency()\<close>,
  though the CPUs that a process may use need not be the first ones of the machine.
\<close>

lemma pin_beyond_count_faults:
  assumes "thread_handle t = 0" "coreAffinity t = Some c" "hardware_concurrency api \<le> c" "\<And>m. error_code api m = 0"
  shows "fst (os_fork api t s) = Inl ContractViolation"
  using assms
  by (simp add: os_fork_def have_thread_handle_def new_attr_def thread_act_simps fork_attributes_def
      setThreadAttrAffinity_def new_cpu_set_def set_cpu_flag_def)

section \<open>An execution\<close>

text \<open>The programs as functions: the objects and the state after a list of operations.\<close>

fun run_ops :: "pthread_api \<Rightarrow> nat \<Rightarrow> (nat \<times> thread_op) list \<Rightarrow> (nat \<Rightarrow> os_thread) \<Rightarrow> pthreads
    \<Rightarrow> ((nat \<Rightarrow> os_thread) \<times> pthreads) option" where
  "run_ops api m [] T s = Some (T, s)"
| "run_ops api m ((i, op) # ops) T s =
     (if i < m then
        (case apply_op api op (T i) s of
           (Inr t, s') \<Rightarrow> run_ops api m ops (T(i := t)) s'
         | (Inl e, s') \<Rightarrow> if ends_program e then None else run_ops api m ops T s')
      else None)"

lemma run_ops_reachable:
  "threads_reachable api m T s \<Longrightarrow> run_ops api m ops T s = Some (T', s') \<Longrightarrow> threads_reachable api m T' s'"
proof (induction ops arbitrary: T s)
  case (Cons x ops)
  then show ?case
    by (cases x)
      (auto split: if_splits prod.splits sum.splits intro: threads_reachable.returned threads_reachable.thrown)
qed simp

text \<open>A machine of four CPUs, on which the sixth call of the system fails.\<close>

definition demo_api :: pthread_api where
  "demo_api = \<lparr>hardware_concurrency = 4, error_code = (\<lambda>m. if m = 5 then 11 else 0),
     thread_id = (\<lambda>s. 1 + sum_list (map (\<lambda>(h, a). \<bar>h\<bar>) (joinable s)))\<rparr>"

lemma abs_le_sum_abs: "(h, a) \<in> set xs \<Longrightarrow> \<bar>h\<bar> \<le> sum_list (map (\<lambda>(h, a). \<bar>h :: int\<bar>) xs)"
proof (induction xs)
  case (Cons x xs)
  have "0 \<le> sum_list (map (\<lambda>(h, a). \<bar>h :: int\<bar>) xs)" by (rule sum_list_nonneg) auto
  then show ?case using Cons by (cases x) auto
qed simp

lemma demo_api_ok: "api_ok demo_api"
  unfolding api_ok_def
proof (intro allI conjI)
  fix s :: pthreads
  have n: "0 \<le> sum_list (map (\<lambda>(h, a). \<bar>h :: int\<bar>) (joinable s))" by (rule sum_list_nonneg) auto
  then show "thread_id demo_api s \<noteq> 0" by (simp add: demo_api_def)
  have "thread_id demo_api s \<notin> fst ` set (joinable s)"
  proof
    assume "thread_id demo_api s \<in> fst ` set (joinable s)"
    then obtain a where "(thread_id demo_api s, a) \<in> set (joinable s)" by auto
    then show False using abs_le_sum_abs n by (fastforce simp: demo_api_def)
  qed
  then show "map_of (joinable s) (thread_id demo_api s) = None" by (simp add: map_of_None)
qed

text \<open>The first thread is pinned and forked; the second cannot be forked, the third is.\<close>

definition demo_ops :: "(nat \<times> thread_op) list" where
  "demo_ops = [(0, SetAffinity 3), (0, ForkThread), (1, ForkThread), (2, ForkThread), (0, JoinThread)]"

definition demo_run :: "(nat \<Rightarrow> os_thread) \<times> pthreads" where
  "demo_run = the (run_ops demo_api 3 demo_ops (\<lambda>_. new_os_thread) no_threads)"

lemma demo_run: "run_ops demo_api 3 demo_ops (\<lambda>_. new_os_thread) no_threads = Some (fst demo_run, snd demo_run)"
proof -
  have "run_ops demo_api 3 demo_ops (\<lambda>_. new_os_thread) no_threads \<noteq> None" by code_simp
  then show ?thesis unfolding demo_run_def by auto
qed

section \<open>Properties\<close>

text \<open>
  C22: \<^verbatim>\<open>fork()\<close> makes a thread with the affinity that was set, and nothing else; or it throws, and then
  there is no new thread and nothing that it took from the system is left, whichever call fails.
  When no call fails and the affinity is a CPU of the machine, it does make the thread.
\<close>

theorem os_fork_all_or_nothing:
  assumes "api_ok api" "thread_handle t = 0" "os_fork api t s = (r, s')"
  shows "(case r of
      Inr t' \<Rightarrow> thread_handle t' \<noteq> 0 \<and> map_of (joinable s) (thread_handle t') = None
        \<and> joinable s' = (thread_handle t', map_option (\<lambda>c. [c]) (coreAffinity t)) # joinable s
        \<and> cpu_sets s' = cpu_sets s \<and> attrs s' = attrs s
    | Inl e \<Rightarrow> ends_program e \<or> joinable s' = joinable s \<and> cpu_sets s' = cpu_sets s \<and> attrs s' = attrs s)
    \<and> ((\<forall>m. error_code api m = 0) \<and> (\<forall>c. coreAffinity t = Some c \<longrightarrow> c < hardware_concurrency api) \<longrightarrow>
        (\<exists>t'. r = Inr t'))"
proof
  from assms show "case r of
      Inr t' \<Rightarrow> thread_handle t' \<noteq> 0 \<and> map_of (joinable s) (thread_handle t') = None
        \<and> joinable s' = (thread_handle t', map_option (\<lambda>c. [c]) (coreAffinity t)) # joinable s
        \<and> cpu_sets s' = cpu_sets s \<and> attrs s' = attrs s
    | Inl e \<Rightarrow> ends_program e \<or> joinable s' = joinable s \<and> cpu_sets s' = cpu_sets s \<and> attrs s' = attrs s"
    by (cases rule: os_fork_cases) (auto simp: local_resources_def ends_program_def)
  show "(\<forall>m. error_code api m = 0) \<and> (\<forall>c. coreAffinity t = Some c \<longrightarrow> c < hardware_concurrency api) \<longrightarrow>
      (\<exists>t'. r = Inr t')"
    using os_fork_succeeds [OF assms(2), of api s] assms(3) by auto
qed

lemma os_fork_all_or_nothing_witness:
  "\<exists>t' s'. os_fork demo_api \<lparr>thread_handle = 0, coreAffinity = Some 3\<rparr> no_threads = (Inr t', s')
    \<and> joinable s' = [(thread_handle t', Some [3])] \<and> cpu_sets s' = 0 \<and> attrs s' = 0"
proof -
  let ?t = "\<lparr>thread_handle = 0, coreAffinity = Some 3\<rparr>"
  obtain r s' where f: "os_fork demo_api ?t no_threads = (r, s')" by (meson surj_pair)
  have "(case fst (os_fork demo_api ?t no_threads) of Inr _ \<Rightarrow> True | Inl _ \<Rightarrow> False)" by code_simp
  then obtain t' where r: "r = Inr t'" using f by (cases r) auto
  show ?thesis using os_fork_all_or_nothing [OF demo_api_ok _ f] f r by (auto simp: no_threads_def)
qed

text \<open>
  C21: Whatever is done with an array of thread objects, forks and joins that throw included, no
  operation joins or detaches a thread twice; and when the objects are destroyed, every thread that
  was made has been joined or detached, and no attribute object and no CPU set is left.
\<close>

theorem threads_released:
  assumes "threads_reachable api m T s" "api_ok api"
  shows "(\<forall>i op. i < m \<longrightarrow> fst (apply_op api op (T i) s) \<noteq> Inl UndefinedBehaviour)
    \<and> (\<exists>s'. destroy_threads m T s = (Inr (), s') \<and> joinable s' = [] \<and> cpu_sets s' = 0 \<and> attrs s' = 0)"
proof -
  have o: "owned m T s" "local_resources s = (0, 0)" using threads_reachable_owned [OF assms] by auto
  have "fst (apply_op api op (T i) s) \<noteq> Inl UndefinedBehaviour" if "i < m" for i op
    using apply_op_result [OF assms(2) o(1) that, of op] by (auto simp: op_result_def split: prod.splits)
  then show ?thesis using destroy_threads_all [OF o(1)] o(2) by (auto simp: local_resources_def)
qed

lemma threads_released_witness:
  "\<exists>s'. destroy_threads 3 (fst demo_run) (snd demo_run) = (Inr (), s')
    \<and> joinable s' = [] \<and> cpu_sets s' = 0 \<and> attrs s' = 0"
  using threads_released [OF run_ops_reachable [OF threads_reachable.start demo_run] demo_api_ok] by blast

end
