(* ===== verification/Cpu_Info.thy ===== *)
theory Cpu_Info
  imports Text_Scan
begin

text \<open>
  The physical cores of the machine (\<^verbatim>\<open>src/src/cpuinfo.cpp\<close>, the Linux branch): the parser of
  \<^verbatim>\<open>/proc/cpuinfo\<close> and the list of processors, one per physical core, that it computes.
\<close>

section \<open>Physical cores\<close>

datatype physical_core_id = PhysicalCoreId (core_id: int) (physical_id: int) (processor: int)

text \<open>\<^verbatim>\<open>operator ==\<close>, which ignores the processor, and \<^verbatim>\<open>operator <\<close>.\<close>

definition same_core :: "physical_core_id \<Rightarrow> physical_core_id \<Rightarrow> bool" where
  "same_core lhs rhs \<longleftrightarrow> core_id lhs = core_id rhs \<and> physical_id lhs = physical_id rhs"

definition core_less :: "physical_core_id \<Rightarrow> physical_core_id \<Rightarrow> bool" where
  "core_less lhs rhs =
     (if core_id lhs < core_id rhs then True
      else if core_id lhs > core_id rhs then False
      else if physical_id lhs < physical_id rhs then True
      else if physical_id lhs > physical_id rhs then False
      else processor lhs < processor rhs)"

instantiation physical_core_id :: linorder
begin

definition less_physical_core_id :: "physical_core_id \<Rightarrow> physical_core_id \<Rightarrow> bool" where
  "less_physical_core_id = core_less"

definition less_eq_physical_core_id :: "physical_core_id \<Rightarrow> physical_core_id \<Rightarrow> bool" where
  "less_eq_physical_core_id lhs rhs \<longleftrightarrow> lhs = rhs \<or> lhs < rhs"

instance
  by standard
    (auto simp: less_eq_physical_core_id_def less_physical_core_id_def core_less_def physical_core_id.expand
      split: if_splits)

end

section \<open>The lowest bit\<close>

text \<open>\<^verbatim>\<open>lowest_bit_set\<close> on the 64 bits of a processor mask.\<close>

function lowest_bit_loop :: "64 word \<Rightarrow> int \<Rightarrow> int res" where
  "lowest_bit_loop x result =
     (if x \<noteq> 0 then
        if x AND 1 \<noteq> 0 then Inr result else lowest_bit_loop (drop_bit 1 x) (result + 1)
      else Inl ContractViolation)"
  by pat_completeness auto
termination
proof (relation "measure (\<lambda>(x, result). unat x)")
  fix x :: "64 word" assume "x \<noteq> 0"
  then have "0 < unat x" by (simp add: unat_gt_0)
  then show "((drop_bit 1 x, result + 1), x, result) \<in> measure (\<lambda>(x, result). unat x)" for result :: int
    by (simp add: drop_bit_Suc unat_div)
qed simp

definition lowest_bit_set :: "64 word \<Rightarrow> int res" where
  "lowest_bit_set x = lowest_bit_loop x 0"

lemma lowest_bit_loop_result:
  "x \<noteq> 0 \<Longrightarrow> \<exists>m. lowest_bit_loop x r = Inr (r + int m) \<and> bit x m \<and> (\<forall>j<m. \<not> bit x j)"
proof (induction x r rule: lowest_bit_loop.induct)
  case (1 x r)
  show ?case
  proof (cases "x AND 1 = 0")
    case False
    then have "bit x 0" by (simp add: and_one_eq bit_0 odd_iff_mod_2_eq_one)
    then show ?thesis using False "1.prems" by (intro exI [of _ 0]) (simp add: lowest_bit_loop.simps)
  next
    case True
    then have b0: "\<not> bit x 0" by (simp add: and_one_eq bit_0 even_iff_mod_2_eq_zero)
    have nz: "drop_bit 1 x \<noteq> 0"
    proof
      assume z: "drop_bit 1 x = 0"
      have "\<not> bit x j" for j
        using b0 arg_cong [OF z, of "\<lambda>y. bit y (j - 1)"] by (cases j) (simp_all add: bit_drop_bit_eq)
      then show False using "1.prems" by (simp add: bit_eq_iff)
    qed
    obtain m where m: "lowest_bit_loop (drop_bit 1 x) (r + 1) = Inr (r + 1 + int m)" "bit (drop_bit 1 x) m"
        "\<forall>j<m. \<not> bit (drop_bit 1 x) j"
      using "1.IH" "1.prems" True nz by blast
    have "lowest_bit_loop x r = Inr (r + int (Suc m))" using m(1) True "1.prems"
      by (subst lowest_bit_loop.simps) simp
    moreover have "bit x (Suc m)" using m(2) by (simp add: bit_drop_bit_eq)
    moreover have "\<not> bit x j" if "j < Suc m" for j
      using that b0 m(3) by (cases j) (auto simp: bit_drop_bit_eq)
    ultimately show ?thesis by blast
  qed
qed

section \<open>The parser\<close>

text \<open>The local variables of the loop over the lines.\<close>

record parse_state =
  lastProcessor :: int
  lastCoreId :: int
  lastPhysicalId :: int
  ids :: "physical_core_id list"

definition parse_start :: parse_state where
  "parse_start = \<lparr>lastProcessor = - 1, lastCoreId = - 1, lastPhysicalId = - 1, ids = []\<rparr>"

definition parse_fields :: "string \<Rightarrow> parse_state \<Rightarrow> parse_state res" where
  "parse_fields line s =
     res_bind (sscanf_int ''processor : '' line) (\<lambda>f1.
     case f1 of
       Some i \<Rightarrow> if lastProcessor s \<noteq> - 1 then Inl RuntimeError else Inr (s\<lparr>lastProcessor := i\<rparr>)
     | None \<Rightarrow>
     res_bind (sscanf_int ''physical id : '' line) (\<lambda>f2.
     case f2 of
       Some i \<Rightarrow> if lastPhysicalId s \<noteq> - 1 then Inl RuntimeError else Inr (s\<lparr>lastPhysicalId := i\<rparr>)
     | None \<Rightarrow>
     res_bind (sscanf_int ''core id : '' line) (\<lambda>f3.
     case f3 of
       Some i \<Rightarrow> if lastCoreId s \<noteq> - 1 then Inl RuntimeError else Inr (s\<lparr>lastCoreId := i\<rparr>)
     | None \<Rightarrow> Inr s)))"

definition push_id :: "parse_state \<Rightarrow> parse_state" where
  "push_id s =
     (if lastProcessor s \<noteq> - 1 \<and> lastCoreId s \<noteq> - 1 \<and> lastPhysicalId s \<noteq> - 1
      then s\<lparr>ids := ids s @ [PhysicalCoreId (lastCoreId s) (lastPhysicalId s) (lastProcessor s)],
             lastProcessor := - 1, lastCoreId := - 1, lastPhysicalId := - 1\<rparr>
      else s)"

fun parse_lines :: "string list \<Rightarrow> parse_state \<Rightarrow> parse_state res" where
  "parse_lines [] s = Inr s"
| "parse_lines (l # ls) s = res_bind (parse_fields l s) (\<lambda>s'. parse_lines ls (push_id s'))"

section \<open>One processor per core\<close>

text \<open>\<^verbatim>\<open>std::unique\<close>: of every run of equal elements the first is kept.\<close>

fun unique_cores :: "physical_core_id list \<Rightarrow> physical_core_id list" where
  "unique_cores [] = []"
| "unique_cores [x] = [x]"
| "unique_cores (x # y # ys) = (if same_core x y then unique_cores (x # ys) else x # unique_cores (y # ys))"

text \<open>
  \<^verbatim>\<open>initFunc\<close> up to its stores: the number of cores and the sorted processors. Sorting is
  determined by the order, as it is total.
\<close>

definition core_thread_ids_of :: "physical_core_id list \<Rightarrow> int list res" where
  "core_thread_ids_of xs =
     (let us = unique_cores (sort xs) in
      if length us < 2 ^ 32 then Inr (sort (map processor us)) else Inl ContractViolation)"

text \<open>
  The parameter is the content of \<^verbatim>\<open>/proc/cpuinfo\<close>, or nothing if it cannot be opened. The
  exceptions leave the \<^verbatim>\<open>noexcept\<close> function \<^verbatim>\<open>init_cpu_info\<close>.
\<close>

definition read_cpu_info :: "string option \<Rightarrow> int list res" where
  "read_cpu_info proc_cpuinfo = noexcept
     (case proc_cpuinfo of
        None \<Rightarrow> Inl RuntimeError
      | Some f \<Rightarrow> res_bind (parse_lines (getlines f) parse_start) (\<lambda>s. core_thread_ids_of (ids s)))"

section \<open>The cores that are found\<close>

lemma same_core_refl [simp]: "same_core x x"
  by (simp add: same_core_def)

lemma same_core_sym: "same_core x y \<Longrightarrow> same_core y x"
  by (simp add: same_core_def)

lemma same_core_trans: "same_core x y \<Longrightarrow> same_core y z = same_core x z"
  by (simp add: same_core_def)

lemma less_eq_cores:
  "x \<le> y \<longleftrightarrow> core_id x < core_id y \<or> core_id x = core_id y \<and>
     (physical_id x < physical_id y \<or> physical_id x = physical_id y \<and> processor x \<le> processor y)"
  by (auto simp: less_eq_physical_core_id_def less_physical_core_id_def core_less_def physical_core_id.expand
      split: if_splits)

text \<open>A representative of a list: an element with the least processor of its core.\<close>

definition represents :: "physical_core_id list \<Rightarrow> physical_core_id \<Rightarrow> bool" where
  "represents xs x \<longleftrightarrow> x \<in> set xs \<and> (\<forall>y\<in>set xs. same_core x y \<longrightarrow> processor x \<le> processor y)"

lemma set_unique_cores:
  "sorted xs \<Longrightarrow> set (unique_cores xs) = {x. represents xs x}"
proof (induction xs rule: unique_cores.induct)
  case (3 x y ys)
  have s: "x \<le> y" "\<forall>z\<in>set ys. x \<le> z \<and> y \<le> z" "sorted (x # ys)" "sorted (y # ys)"
    using 3(3) by auto
  show ?case
  proof (cases "same_core x y")
    case True
    then have "processor x \<le> processor y" using s(1) by (auto simp: less_eq_cores same_core_def)
    then have "represents (x # y # ys) z = represents (x # ys) z" for z
      using True s(1) by (auto simp: represents_def same_core_def less_eq_cores physical_core_id.expand)
    then show ?thesis using 3(1) True s(3) by simp
  next
    case False
    have apart: "\<not> same_core x z" if "z \<in> set (y # ys)" for z
      using that False s by (auto simp: less_eq_cores same_core_def)
    then have "\<not> same_core z x" if "z \<in> set (y # ys)" for z using that same_core_sym by blast
    then have "represents (x # y # ys) z \<longleftrightarrow> z = x \<or> represents (y # ys) z" for z
      unfolding represents_def using apart by auto
    then show ?thesis using 3(2) False s(4) by auto
  qed
qed (auto simp: represents_def)

text \<open>No two representatives are on the same core.\<close>

lemma distinct_unique_cores:
  "sorted xs \<Longrightarrow> distinct (map (\<lambda>x. (core_id x, physical_id x)) (unique_cores xs))"
proof (induction xs rule: unique_cores.induct)
  case (3 x y ys)
  have s: "x \<le> y" "\<forall>z\<in>set ys. x \<le> z \<and> y \<le> z" "sorted (x # ys)" "sorted (y # ys)"
    using 3(3) by auto
  show ?case
  proof (cases "same_core x y")
    case False
    have "\<not> same_core x z" if "z \<in> set (y # ys)" for z
      using that False s by (auto simp: less_eq_cores same_core_def)
    then have "\<forall>z\<in>set (unique_cores (y # ys)). \<not> same_core x z"
      using set_unique_cores [OF s(4)] by (auto simp: represents_def)
    then show ?thesis using 3(2) False s(4) by (auto simp: same_core_def)
  qed (use 3(1) s(3) in simp)
qed auto

lemma unique_cores_cores:
  assumes "sorted xs"
  shows "(\<lambda>x. (core_id x, physical_id x)) ` set (unique_cores xs) = (\<lambda>x. (core_id x, physical_id x)) ` set xs"
    (is "?f ` _ = _")
proof
  show "?f ` set (unique_cores xs) \<subseteq> ?f ` set xs"
    using set_unique_cores [OF assms] by (auto simp: represents_def)
  show "?f ` set xs \<subseteq> ?f ` set (unique_cores xs)"
  proof
    fix p assume "p \<in> ?f ` set xs"
    then obtain x where x: "x \<in> set xs" "p = ?f x" by blast
    let ?C = "{y \<in> set xs. same_core x y}"
    have C: "finite ?C" "?C \<noteq> {}" using x(1) by auto
    define y where "y = arg_min_on processor ?C"
    have "y \<in> ?C" "\<not> (\<exists>z\<in>?C. processor z < processor y)"
      unfolding y_def by (rule arg_min_if_finite [OF C])+
    then have y: "y \<in> set xs" "same_core x y" "\<And>z. z \<in> set xs \<Longrightarrow> same_core x z \<Longrightarrow> processor y \<le> processor z"
      by (auto simp: not_less)
    have "represents xs y"
      unfolding represents_def using y same_core_trans [OF y(2)] by blast
    then show "p \<in> ?f ` set (unique_cores xs)"
      using set_unique_cores [OF assms] x(2) y(2) by (auto simp: same_core_def)
  qed
qed

text \<open>The processors found: the least one of every physical core.\<close>

definition least_processors :: "physical_core_id set \<Rightarrow> int set" where
  "least_processors X = processor ` {x \<in> X. \<forall>y\<in>X. same_core x y \<longrightarrow> processor x \<le> processor y}"

definition cores :: "physical_core_id set \<Rightarrow> (int \<times> int) set" where
  "cores X = (\<lambda>x. (core_id x, physical_id x)) ` X"

lemma core_thread_ids:
  assumes "card (cores (set xs)) < 2 ^ 32"
  shows "\<exists>ps. core_thread_ids_of xs = Inr ps \<and> sorted ps \<and> set ps = least_processors (set xs)
    \<and> length ps = card (cores (set xs))"
proof -
  let ?us = "unique_cores (sort xs)" and ?f = "\<lambda>x. (core_id x, physical_id x)"
  have "length ?us = card (set (map ?f ?us))"
    using distinct_card [OF distinct_unique_cores [of "sort xs"]] by simp
  also have "\<dots> = card (cores (set xs))" using unique_cores_cores [of "sort xs"] by (simp add: cores_def)
  finally have len: "length ?us = card (cores (set xs))" .
  have "set ?us = {x \<in> set xs. \<forall>y\<in>set xs. same_core x y \<longrightarrow> processor x \<le> processor y}"
    using set_unique_cores [of "sort xs"] by (auto simp: represents_def)
  then show ?thesis
    using len assms by (simp add: core_thread_ids_of_def Let_def least_processors_def)
qed

section \<open>Reading the kernel's text\<close>

text \<open>
  What the kernel prints about a processor: its number and its ids in lines of their own, with
  other lines around them.
\<close>

record cpu_entry =
  entry_processor :: nat
  entry_physical :: nat
  entry_core :: nat
  before_processor :: "string list"
  before_physical :: "string list"
  before_core :: "string list"
  after_core :: "string list"

definition entry_lines :: "cpu_entry \<Rightarrow> string list" where
  "entry_lines e = before_processor e @ [''processor'' @ [CHR 0x09] @ '': '' @ print_nat (entry_processor e)]
     @ before_physical e @ [''physical id'' @ [CHR 0x09] @ '': '' @ print_nat (entry_physical e)]
     @ before_core e @ [''core id'' @ [CHR 0x09, CHR 0x09] @ '': '' @ print_nat (entry_core e)] @ after_core e"

definition other_line :: "string \<Rightarrow> bool" where
  "other_line l \<longleftrightarrow> line_text l \<and> sscanf_int ''processor : '' l = Inr None
     \<and> sscanf_int ''physical id : '' l = Inr None \<and> sscanf_int ''core id : '' l = Inr None"

definition entry_ok :: "cpu_entry \<Rightarrow> bool" where
  "entry_ok e \<longleftrightarrow> entry_processor e < 2 ^ 31 \<and> entry_physical e < 2 ^ 31 \<and> entry_core e < 2 ^ 31
     \<and> (\<forall>l\<in>set (before_processor e @ before_physical e @ before_core e @ after_core e). other_line l)"

definition cpuinfo_text :: "cpu_entry list \<Rightarrow> string" where
  "cpuinfo_text es = unlines (concat (map entry_lines es))"

definition entry_id :: "cpu_entry \<Rightarrow> physical_core_id" where
  "entry_id e = PhysicalCoreId (int (entry_core e)) (int (entry_physical e)) (int (entry_processor e))"

text \<open>The three kinds of lines.\<close>

lemma scan_rest:
  "scan_text '' : '' ([CHR 0x09] @ '': '' @ print_nat n) = Some (print_nat n)"
  "scan_text '' : '' ([CHR 0x09, CHR 0x09] @ '': '' @ print_nat n) = Some (print_nat n)"
proof -
  obtain c cs where c: "print_nat n = c # cs" "is_digit c" by (rule print_nat_first)
  have sp: "is_space CHR '' ''" "is_space CHR 0x09" "\<not> is_space CHR '':''" "\<not> is_space c"
    using is_digit_not_space [OF c(2)] by (simp_all add: is_space_def)
  show "scan_text '' : '' ([CHR 0x09] @ '': '' @ print_nat n) = Some (print_nat n)"
    "scan_text '' : '' ([CHR 0x09, CHR 0x09] @ '': '' @ print_nat n) = Some (print_nat n)"
    by (simp_all add: c(1) sp)
qed

lemma field_lines:
  fixes n :: nat
  defines "p \<equiv> ''processor'' @ [CHR 0x09] @ '': '' @ print_nat n"
    and "h \<equiv> ''physical id'' @ [CHR 0x09] @ '': '' @ print_nat n"
    and "c \<equiv> ''core id'' @ [CHR 0x09, CHR 0x09] @ '': '' @ print_nat n"
  assumes n: "n < 2 ^ 31"
  shows "sscanf_int ''processor : '' p = Inr (Some (int n))"
    "sscanf_int ''processor : '' h = Inr None" "sscanf_int ''physical id : '' h = Inr (Some (int n))"
    "sscanf_int ''processor : '' c = Inr None" "sscanf_int ''physical id : '' c = Inr None"
    "sscanf_int ''core id : '' c = Inr (Some (int n))"
    "line_text p" "line_text h" "line_text c"
proof -
  show l: "line_text p" "line_text h" "line_text c"
    by (simp_all only: p_def h_def c_def line_text_append line_text_print_nat)
      (simp_all add: line_text_def)
  obtain d ds where d: "print_nat n = d # ds" "is_digit d" by (rule print_nat_first)
  have sp: "is_space CHR 0x09" "is_space CHR 0x20" "\<not> is_space d"
    using is_digit_not_space [OF d(2)] by (simp_all add: is_space_def)
  have ns: "\<not> is_space CHR '':''" "\<not> is_space CHR ''p''" "\<not> is_space CHR ''r''" "\<not> is_space CHR ''o''"
    "\<not> is_space CHR ''c''" "\<not> is_space CHR ''e''" "\<not> is_space CHR ''s''" "\<not> is_space CHR ''h''"
    "\<not> is_space CHR ''y''" "\<not> is_space CHR ''i''" "\<not> is_space CHR ''a''" "\<not> is_space CHR ''l''"
    "\<not> is_space CHR ''d''"
    by (simp_all add: is_space_def)
  have v: "scan_signed 32 (d # ds) = Inr (Some (int n, []))"
    using scan_signed_print_nat [of n 32 "[]"] n d(1) by simp
  note ls = l [unfolded p_def h_def c_def d(1), THEN c_str_line]
  have sc: "scan_text ''processor : '' (''processor'' @ [CHR 0x09] @ '': '' @ d # ds) = Some (d # ds)"
    "scan_text ''processor : '' (''physical id'' @ [CHR 0x09] @ '': '' @ d # ds) = None"
    "scan_text ''physical id : '' (''physical id'' @ [CHR 0x09] @ '': '' @ d # ds) = Some (d # ds)"
    "scan_text ''processor : '' (''core id'' @ [CHR 0x09, CHR 0x09] @ '': '' @ d # ds) = None"
    "scan_text ''physical id : '' (''core id'' @ [CHR 0x09, CHR 0x09] @ '': '' @ d # ds) = None"
    "scan_text ''core id : '' (''core id'' @ [CHR 0x09, CHR 0x09] @ '': '' @ d # ds) = Some (d # ds)"
    by (simp_all add: sp ns)
  show "sscanf_int ''processor : '' p = Inr (Some (int n))"
    "sscanf_int ''processor : '' h = Inr None" "sscanf_int ''physical id : '' h = Inr (Some (int n))"
    "sscanf_int ''processor : '' c = Inr None" "sscanf_int ''physical id : '' c = Inr None"
    "sscanf_int ''core id : '' c = Inr (Some (int n))"
    unfolding p_def h_def c_def d(1) sscanf_int_def ls sc by (simp_all add: v)
qed

lemma parse_lines_append:
  "parse_lines (ls @ ms) s = res_bind (parse_lines ls s) (parse_lines ms)"
proof (induction ls arbitrary: s)
  case (Cons l ls)
  then show ?case by (cases "parse_fields l s") simp_all
qed simp

definition unfinished :: "parse_state \<Rightarrow> bool" where
  "unfinished s \<longleftrightarrow> lastProcessor s = - 1 \<or> lastCoreId s = - 1 \<or> lastPhysicalId s = - 1"

lemma parse_others:
  "\<forall>l\<in>set ls. other_line l \<Longrightarrow> unfinished s \<Longrightarrow> parse_lines ls s = Inr s"
proof (induction ls)
  case (Cons l ls)
  then have "parse_fields l s = Inr s" "push_id s = s"
    by (simp_all add: other_line_def parse_fields_def push_id_def unfinished_def)
  then show ?case using Cons by simp
qed simp

lemma parse_entry:
  assumes "entry_ok e"
    and "s = \<lparr>lastProcessor = - 1, lastCoreId = - 1, lastPhysicalId = - 1, ids = xs\<rparr>"
  shows "parse_lines (entry_lines e) s = Inr (s\<lparr>ids := xs @ [entry_id e]\<rparr>)"
proof -
  note f = field_lines [of "entry_processor e"] field_lines [of "entry_physical e"] field_lines [of "entry_core e"]
  have b: "entry_processor e < 2 ^ 31" "entry_physical e < 2 ^ 31" "entry_core e < 2 ^ 31"
    and o: "\<forall>l\<in>set (before_processor e). other_line l" "\<forall>l\<in>set (before_physical e). other_line l"
      "\<forall>l\<in>set (before_core e). other_line l" "\<forall>l\<in>set (after_core e). other_line l"
    using assms(1) by (auto simp: entry_ok_def)
  have "parse_fields (''processor'' @ [CHR 0x09] @ '': '' @ print_nat (entry_processor e)) s
      = Inr (s\<lparr>lastProcessor := int (entry_processor e)\<rparr>)"
    unfolding parse_fields_def f(1) [OF b(1)] assms(2) by simp
  moreover have "parse_fields (''physical id'' @ [CHR 0x09] @ '': '' @ print_nat (entry_physical e)) t
      = Inr (t\<lparr>lastPhysicalId := int (entry_physical e)\<rparr>)" if "lastPhysicalId t = - 1" for t
    unfolding parse_fields_def f(11,12) [OF b(2)] using that by simp
  moreover have "parse_fields (''core id'' @ [CHR 0x09, CHR 0x09] @ '': '' @ print_nat (entry_core e)) t
      = Inr (t\<lparr>lastCoreId := int (entry_core e)\<rparr>)" if "lastCoreId t = - 1" for t
    unfolding parse_fields_def f(22,23,24) [OF b(3)] using that by simp
  ultimately show ?thesis
    using o by (simp add: entry_lines_def parse_lines_append parse_others unfinished_def push_id_def entry_id_def assms(2)
      del: append.simps append_assoc)
qed

lemma parse_entries:
  assumes "\<forall>e\<in>set es. entry_ok e"
    and "s = \<lparr>lastProcessor = - 1, lastCoreId = - 1, lastPhysicalId = - 1, ids = xs\<rparr>"
  shows "parse_lines (concat (map entry_lines es)) s = Inr (s\<lparr>ids := xs @ map entry_id es\<rparr>)"
  using assms
proof (induction es arbitrary: s xs)
  case (Cons e es)
  then show ?case using Cons.IH [of "s\<lparr>ids := xs @ [entry_id e]\<rparr>" "xs @ [entry_id e]"]
    by (simp add: parse_lines_append parse_entry)
qed simp

lemma entry_lines_text:
  assumes "entry_ok e" shows "\<forall>l\<in>set (entry_lines e). line_text l"
  using assms field_lines(7) [of "entry_processor e"] field_lines(8) [of "entry_physical e"]
    field_lines(9) [of "entry_core e"]
  by (auto simp: entry_lines_def entry_ok_def other_line_def simp del: append.simps)

lemma read_cpu_info_text:
  assumes "\<forall>e\<in>set es. entry_ok e"
  shows "read_cpu_info (Some (cpuinfo_text es)) = noexcept (core_thread_ids_of (map entry_id es))"
proof -
  have "\<forall>l\<in>set (concat (map entry_lines es)). line_text l" using entry_lines_text assms by auto
  then have "getlines (cpuinfo_text es) = concat (map entry_lines es)"
    unfolding cpuinfo_text_def by (rule getlines_unlines)
  moreover have "parse_lines (concat (map entry_lines es)) parse_start = Inr (parse_start\<lparr>ids := map entry_id es\<rparr>)"
    using parse_entries [OF assms, of parse_start "[]"] by (simp add: parse_start_def)
  ultimately show ?thesis by (simp add: read_cpu_info_def)
qed

text \<open>
  C16: Reading the text that the kernel prints about any number of processors gives back the
  machine's physical cores: the list of processors has one entry per physical core, the one with
  the least number, in ascending order.
\<close>

theorem cpu_info_roundtrip:
  assumes "\<forall>e\<in>set es. entry_ok e" "length es < 2 ^ 32"
  shows "\<exists>ps. read_cpu_info (Some (cpuinfo_text es)) = Inr ps \<and> sorted ps
    \<and> set ps = least_processors (entry_id ` set es) \<and> length ps = card (cores (entry_id ` set es))"
proof -
  have "card (cores (entry_id ` set es)) \<le> length es"
    unfolding cores_def by (metis card_image_le card_length finite_set finite_imageI le_trans)
  then show ?thesis
    using core_thread_ids [of "map entry_id es"] assms(2)
    by (auto simp: read_cpu_info_text [OF assms(1)] noexcept_def)
qed

text \<open>A machine of two cores with two hardware threads each.\<close>

definition two_cores :: "cpu_entry list" where
  "two_cores = map (\<lambda>p. \<lparr>entry_processor = p, entry_physical = 0, entry_core = p mod 2,
     before_processor = [], before_physical = [''vendor_id'' @ [CHR 0x09] @ '': GenuineIntel''],
     before_core = [''siblings'' @ [CHR 0x09] @ '': 4''], after_core = [[]]\<rparr>) [0, 1, 2, 3]"

lemma two_cores_ok: "\<forall>e\<in>set two_cores. entry_ok e"
proof -
  have "other_line (''vendor_id'' @ [CHR 0x09] @ '': GenuineIntel'') \<and> other_line (''siblings'' @ [CHR 0x09] @ '': 4'')
      \<and> other_line []"
    by code_simp
  then show ?thesis by (simp add: two_cores_def entry_ok_def)
qed

lemma two_cores_info: "read_cpu_info (Some (cpuinfo_text two_cores)) = Inr [0, 1]"
proof -
  have "unique_cores (sort (map entry_id two_cores)) = [PhysicalCoreId 0 0 0, PhysicalCoreId 1 0 1]" by code_simp
  then show ?thesis
    by (simp add: read_cpu_info_text [OF two_cores_ok] core_thread_ids_of_def noexcept_def)
qed

lemma cpu_info_roundtrip_witness:
  "(\<exists>ps. read_cpu_info (Some (cpuinfo_text two_cores)) = Inr ps \<and> sorted ps
      \<and> set ps = least_processors (entry_id ` set two_cores) \<and> length ps = card (cores (entry_id ` set two_cores)))
    \<and> read_cpu_info (Some (cpuinfo_text two_cores)) = Inr [0, 1]"
proof
  show "\<exists>ps. read_cpu_info (Some (cpuinfo_text two_cores)) = Inr ps \<and> sorted ps
      \<and> set ps = least_processors (entry_id ` set two_cores) \<and> length ps = card (cores (entry_id ` set two_cores))"
    by (rule cpu_info_roundtrip [OF two_cores_ok]) (simp add: two_cores_def)
qed (rule two_cores_info)

end
