(* ===== verification/Windows_Cpu.thy ===== *)
theory Windows_Cpu
  imports Cpu_Info Os_Errors
begin

text \<open>
  The physical cores on Windows (\<^verbatim>\<open>src/src/cpuinfo.cpp\<close>, the Windows branches): the protocol of
  \<^verbatim>\<open>GetLogicalProcessorInformation\<close>, the loop over its answer, and the functions that cache what it
  finds. The answers of the system are a parameter.
\<close>

section \<open>The system\<close>

datatype relationship = RelationProcessorCore | RelationNumaNode | RelationCache | RelationProcessorPackage

datatype cache_type = CacheUnified | CacheInstruction | CacheData | CacheTrace

text \<open>\<^verbatim>\<open>SYSTEM_LOGICAL_PROCESSOR_INFORMATION\<close>: the members that the code reads, and its size in bytes.\<close>

record processor_info =
  ProcessorMask :: "64 word"
  Relationship :: relationship
  CacheLevel :: "8 word"
  CacheType :: cache_type
  CacheLineSize :: "16 word"

definition sizeof_info :: nat where
  "sizeof_info = 32"

text \<open>A call of the system: whether it succeeds, the length it stores, and what it writes to the buffer.\<close>

record info_reply =
  reply_success :: bool
  reply_last_error :: "32 word"
  reply_length :: "32 word"
  reply_entries :: "processor_info list"

text \<open>The replies to the first and the second call, for a given length of the buffer.\<close>

type_synonym info_calls = "nat \<Rightarrow> 32 word \<Rightarrow> info_reply"

definition ERROR_INSUFFICIENT_BUFFER :: "32 word" where
  "ERROR_INSUFFICIENT_BUFFER = 122"

text \<open>
  The documented behaviour for a machine with the entries \<^verbatim>\<open>es\<close>: a call with too small a buffer fails
  with this error and stores the length that is needed; otherwise it writes all entries.
\<close>

definition calls_ok :: "processor_info list \<Rightarrow> info_calls \<Rightarrow> bool" where
  "calls_ok es calls \<longleftrightarrow> sizeof_info * length es < 2 ^ 32
     \<and> (\<forall>k len. reply_length (calls k len) = word_of_nat (sizeof_info * length es)
          \<and> (if unat len < sizeof_info * length es
             then \<not> reply_success (calls k len) \<and> reply_last_error (calls k len) = ERROR_INSUFFICIENT_BUFFER
             else reply_success (calls k len) \<and> reply_entries (calls k len) = es))"

section \<open>The initialisation\<close>

text \<open>\<^verbatim>\<open>std::make_unique\<close> makes elements that are zero.\<close>

definition no_info :: processor_info where
  "no_info = \<lparr>ProcessorMask = 0, Relationship = RelationProcessorCore, CacheLevel = 0,
     CacheType = CacheUnified, CacheLineSize = 0\<rparr>"

definition overwrite :: "'a list \<Rightarrow> 'a list \<Rightarrow> 'a list" where
  "overwrite xs ys = take (length ys) xs @ drop (length xs) ys"

text \<open>The buffer and its length. The first call has none.\<close>

definition query_processors :: "info_calls \<Rightarrow> (processor_info list \<times> 32 word) res" where
  "query_processors calls =
     (let r = calls 0 0;
          (r', buf) =
            (if \<not> reply_success r \<and> reply_last_error r = ERROR_INSUFFICIENT_BUFFER then
               let r2 = calls 1 (reply_length r) in
               (r2, overwrite (reply_entries r2)
                  (replicate ((unat (reply_length r) + sizeof_info - 1) div sizeof_info) no_info))
             else (r, []))
      in res_bind (win32_assert (reply_last_error r') (reply_success r')) (\<lambda>_. Inr (buf, reply_length r')))"

record core_scan =
  newCacheLineSize :: size_t
  newPhysicalConcurrency :: "32 word"
  coreThreadIds :: "int list"

definition scan_core :: "processor_info \<Rightarrow> core_scan \<Rightarrow> core_scan res" where
  "scan_core e c =
     (if Relationship e = RelationProcessorCore then
        res_bind (lowest_bit_set (ProcessorMask e)) (\<lambda>i. Inr
          (c\<lparr>newPhysicalConcurrency := newPhysicalConcurrency c + 1, coreThreadIds := coreThreadIds c @ [i]\<rparr>))
      else Inr c)"

definition is_L1_data :: "processor_info \<Rightarrow> bool" where
  "is_L1_data e \<longleftrightarrow> Relationship e = RelationCache \<and> CacheLevel e = 1
     \<and> (CacheType e = CacheData \<or> CacheType e = CacheUnified)"

definition scan_cache :: "processor_info \<Rightarrow> core_scan \<Rightarrow> core_scan res" where
  "scan_cache e c =
     (if is_L1_data e then
        if newCacheLineSize c = 0 then Inr (c\<lparr>newCacheLineSize := ucast (CacheLineSize e)\<rparr>)
        else if newCacheLineSize c \<noteq> ucast (CacheLineSize e) then Inl RuntimeError
        else Inr c
      else Inr c)"

text \<open>The loop from index \<^verbatim>\<open>i\<close> with \<^verbatim>\<open>k\<close> entries to go.\<close>

fun scan_loop :: "processor_info list \<Rightarrow> nat \<Rightarrow> nat \<Rightarrow> core_scan \<Rightarrow> core_scan res" where
  "scan_loop buf i 0 c = Inr c"
| "scan_loop buf i (Suc k) c =
     (if i < length buf
      then res_bind (scan_core (buf ! i) c) (\<lambda>c1. res_bind (scan_cache (buf ! i) c1) (scan_loop buf (i + 1) k))
      else Inl UndefinedBehaviour)"

definition scan_processors :: "info_calls \<Rightarrow> core_scan res" where
  "scan_processors calls =
     res_bind (query_processors calls) (\<lambda>(buf, nb).
     res_bind (scan_loop buf 0 (unat nb div sizeof_info)
       \<lparr>newCacheLineSize = 0, newPhysicalConcurrency = 0, coreThreadIds = []\<rparr>) (\<lambda>c.
     if newCacheLineSize c = 0 then Inl RuntimeError
     else if newPhysicalConcurrency c = 0 then Inl RuntimeError
     else Inr c))"

section \<open>The cached values\<close>

record win_cpu_info =
  cached_line_size :: size_t
  cached_concurrency :: "32 word"
  cached_core_ids :: "int list option"   \<comment> \<open>none for a null pointer\<close>

definition no_cpu_info :: win_cpu_info where
  "no_cpu_info = \<lparr>cached_line_size = 0, cached_concurrency = 0, cached_core_ids = None\<rparr>"

definition win_init_cpu_info :: "info_calls \<Rightarrow> win_cpu_info \<Rightarrow> win_cpu_info res" where
  "win_init_cpu_info calls s =
     (if cached_concurrency s = 0 then
        no_throw (res_bind (scan_processors calls) (\<lambda>c. Inr
          \<lparr>cached_line_size = newCacheLineSize c, cached_concurrency = newPhysicalConcurrency c,
           cached_core_ids = (case cached_core_ids s of None \<Rightarrow> Some (coreThreadIds c) | Some cs \<Rightarrow> Some cs)\<rparr>))
      else Inr s)"

definition win_hardware_cache_line_size :: "info_calls \<Rightarrow> win_cpu_info \<Rightarrow> (size_t \<times> win_cpu_info) res" where
  "win_hardware_cache_line_size calls s =
     (if cached_line_size s = 0 then
        res_bind (win_init_cpu_info calls s) (\<lambda>s'. Inr (cached_line_size s', s'))
      else Inr (cached_line_size s, s))"

definition win_physical_concurrency :: "info_calls \<Rightarrow> win_cpu_info \<Rightarrow> (32 word \<times> win_cpu_info) res" where
  "win_physical_concurrency calls s =
     (if cached_concurrency s = 0 then
        res_bind (win_init_cpu_info calls s) (\<lambda>s'. Inr (cached_concurrency s', s'))
      else Inr (cached_concurrency s, s))"

text \<open>The span: its pointer and its length.\<close>

definition win_physical_core_ids ::
  "info_calls \<Rightarrow> win_cpu_info \<Rightarrow> ((int list option \<times> nat) \<times> win_cpu_info) res" where
  "win_physical_core_ids calls s =
     (if cached_concurrency s = 0 \<or> cached_core_ids s = None then
        res_bind (win_init_cpu_info calls s) (\<lambda>s'. Inr ((cached_core_ids s', unat (cached_concurrency s')), s'))
      else Inr ((cached_core_ids s, unat (cached_concurrency s)), s))"

section \<open>The loop\<close>

definition core_entries :: "processor_info list \<Rightarrow> processor_info list" where
  "core_entries es = filter (\<lambda>e. Relationship e = RelationProcessorCore) es"

definition line_sizes :: "processor_info list \<Rightarrow> size_t list" where
  "line_sizes es = map (\<lambda>e. ucast (CacheLineSize e)) (filter is_L1_data es)"

text \<open>
  The entries of a machine: every core has a processor, no processor belongs to two cores, and a cache
  has a line size.
\<close>

definition processors_ok :: "processor_info list \<Rightarrow> bool" where
  "processors_ok es \<longleftrightarrow> (\<forall>e \<in> set (core_entries es). ProcessorMask e \<noteq> 0)
     \<and> sorted_wrt (\<lambda>d e. ProcessorMask d AND ProcessorMask e = 0) (core_entries es)
     \<and> (\<forall>z \<in> set (line_sizes es). z \<noteq> 0)"

text \<open>The id that is chosen for a core: its lowest processor.\<close>

definition lowest_processor :: "processor_info \<Rightarrow> int \<Rightarrow> bool" where
  "lowest_processor e i \<longleftrightarrow> 0 \<le> i \<and> i < 64 \<and> bit (ProcessorMask e) (nat i) \<and> (\<forall>j < nat i. \<not> bit (ProcessorMask e) j)"

lemma lowest_bit_set_result:
  assumes "ProcessorMask e \<noteq> 0"
  shows "\<exists>i. lowest_bit_set (ProcessorMask e) = Inr i \<and> lowest_processor e i"
proof -
  obtain m where "lowest_bit_loop (ProcessorMask e) 0 = Inr (0 + int m)" "bit (ProcessorMask e) m"
      "\<forall>j<m. \<not> bit (ProcessorMask e) j"
    using lowest_bit_loop_result [OF assms, of 0] by blast
  moreover from this have "m < 64" using bit_imp_le_length by fastforce
  ultimately show ?thesis by (intro exI [of _ "int m"]) (simp add: lowest_bit_set_def lowest_processor_def)
qed

text \<open>The line size after the caches that the loop has seen.\<close>

fun join_size :: "size_t \<Rightarrow> size_t list \<Rightarrow> size_t option" where
  "join_size z [] = Some z"
| "join_size z (x # xs) = (if z = 0 then join_size x xs else if z \<noteq> x then None else join_size z xs)"

lemma join_size_same: "z \<noteq> 0 \<Longrightarrow> join_size z xs = (if \<forall>x \<in> set xs. x = z then Some z else None)"
  by (induction xs) auto

lemma join_size_0:
  "\<forall>x \<in> set xs. x \<noteq> 0 \<Longrightarrow>
    join_size 0 xs = (if xs = [] then Some 0 else if \<forall>x \<in> set xs. x = hd xs then Some (hd xs) else None)"
  by (cases xs) (auto simp: join_size_same)

lemma scan_loop_result:
  assumes "\<forall>e \<in> set (core_entries es). ProcessorMask e \<noteq> 0"
  shows "case join_size (newCacheLineSize c) (line_sizes es) of
      None \<Rightarrow> scan_loop (pre @ es) (length pre) (length es) c = Inl RuntimeError
    | Some z \<Rightarrow> \<exists>cs. list_all2 lowest_processor (core_entries es) cs
        \<and> scan_loop (pre @ es) (length pre) (length es) c = Inr \<lparr>newCacheLineSize = z,
            newPhysicalConcurrency = newPhysicalConcurrency c + word_of_nat (length (core_entries es)),
            coreThreadIds = coreThreadIds c @ cs\<rparr>"
  using assms
proof (induction es arbitrary: pre c)
  case Nil
  then show ?case by (simp add: core_entries_def line_sizes_def)
next
  case (Cons e es)
  have IH: "case join_size (newCacheLineSize d) (line_sizes es) of
      None \<Rightarrow> scan_loop (pre @ e # es) (Suc (length pre)) (length es) d = Inl RuntimeError
    | Some z \<Rightarrow> \<exists>cs. list_all2 lowest_processor (core_entries es) cs
        \<and> scan_loop (pre @ e # es) (Suc (length pre)) (length es) d = Inr \<lparr>newCacheLineSize = z,
            newPhysicalConcurrency = newPhysicalConcurrency d + word_of_nat (length (core_entries es)),
            coreThreadIds = coreThreadIds d @ cs\<rparr>" for d
    using Cons.IH [of "pre @ [e]" d] Cons.prems by (simp add: core_entries_def cong: option.case_cong split: if_splits)
  show ?case
  proof (cases "Relationship e = RelationProcessorCore")
    case True
    then obtain i where i: "lowest_bit_set (ProcessorMask e) = Inr i" "lowest_processor e i"
      using lowest_bit_set_result [of e] Cons.prems by (auto simp: core_entries_def)
    have [simp]: "\<not> is_L1_data e" using True by (simp add: is_L1_data_def)
    let ?c = "c\<lparr>newPhysicalConcurrency := newPhysicalConcurrency c + 1, coreThreadIds := coreThreadIds c @ [i]\<rparr>"
    have s: "scan_loop (pre @ e # es) (length pre) (length (e # es)) c
        = scan_loop (pre @ e # es) (Suc (length pre)) (length es) ?c"
      using True i by (simp add: scan_core_def scan_cache_def)
    have [simp]: "line_sizes (e # es) = line_sizes es" "core_entries (e # es) = e # core_entries es"
      using True by (simp_all add: line_sizes_def core_entries_def)
    show ?thesis
    proof (cases "join_size (newCacheLineSize c) (line_sizes es)")
      case (Some z)
      then obtain cs where "list_all2 lowest_processor (core_entries es) cs"
          "scan_loop (pre @ e # es) (Suc (length pre)) (length es) ?c = Inr \<lparr>newCacheLineSize = z,
            newPhysicalConcurrency = newPhysicalConcurrency c + 1 + word_of_nat (length (core_entries es)),
            coreThreadIds = (coreThreadIds c @ [i]) @ cs\<rparr>"
        using IH [of ?c] by auto
      then show ?thesis using Some i(2) s
        by (auto intro!: exI [of _ "i # cs"] simp del: scan_loop.simps simp: add.assoc)
    qed (use IH [of ?c] s in \<open>simp del: scan_loop.simps\<close>)
  next
    case False
    then have [simp]: "core_entries (e # es) = core_entries es" "scan_core e c = Inr c" by (simp_all add: core_entries_def scan_core_def)
    show ?thesis
    proof (cases "is_L1_data e")
      case True
      then have l: "line_sizes (e # es) = ucast (CacheLineSize e) # line_sizes es" by (simp add: line_sizes_def)
      consider "newCacheLineSize c = 0" | "newCacheLineSize c \<noteq> 0" "newCacheLineSize c = ucast (CacheLineSize e)"
        | "newCacheLineSize c \<noteq> 0" "newCacheLineSize c \<noteq> ucast (CacheLineSize e)" by blast
      then show ?thesis
      proof cases
        case 1
        then have "scan_loop (pre @ e # es) (length pre) (length (e # es)) c = scan_loop (pre @ e # es) (Suc (length pre))
            (length es) (c\<lparr>newCacheLineSize := ucast (CacheLineSize e)\<rparr>)" using True by (simp add: scan_cache_def)
        then show ?thesis using IH [of "c\<lparr>newCacheLineSize := ucast (CacheLineSize e)\<rparr>"] 1 l
          by (simp del: scan_loop.simps cong: option.case_cong)
      next
        case 2
        then have "scan_loop (pre @ e # es) (length pre) (length (e # es)) c
            = scan_loop (pre @ e # es) (Suc (length pre)) (length es) c" using True by (simp add: scan_cache_def)
        then show ?thesis using IH [of c] 2 l by (simp del: scan_loop.simps cong: option.case_cong)
      next
        case 3
        then show ?thesis using True l by (simp add: scan_cache_def)
      qed
    next
      case False
      then have "line_sizes (e # es) = line_sizes es" by (simp add: line_sizes_def)
      moreover have "scan_loop (pre @ e # es) (length pre) (length (e # es)) c
          = scan_loop (pre @ e # es) (Suc (length pre)) (length es) c" using False by (simp add: scan_cache_def)
      ultimately show ?thesis using IH [of c] by (simp del: scan_loop.simps cong: option.case_cong)
    qed
  qed
qed

section \<open>The protocol\<close>

lemma unat_of_nat_32: "n < 2 ^ 32 \<Longrightarrow> unat (word_of_nat n :: 32 word) = n"
  by (simp add: unsigned_of_nat take_bit_nat_eq_self)

lemma core_entries_less:
  assumes "calls_ok es calls"
  shows "length (core_entries es) < 2 ^ 32"
proof -
  have "length (core_entries es) \<le> length es" by (simp add: core_entries_def)
  then show ?thesis using assms by (simp add: calls_ok_def sizeof_info_def)
qed

lemma query_processors_result:
  assumes "calls_ok es calls"
  shows "query_processors calls = Inr (es, word_of_nat (sizeof_info * length es))"
proof -
  have n: "unat (word_of_nat (sizeof_info * length es) :: 32 word) = sizeof_info * length es"
    by (rule unat_of_nat_32) (use assms in \<open>simp add: calls_ok_def\<close>)
  have c: "reply_length (calls k len) = word_of_nat (sizeof_info * length es)"
      "unat len < sizeof_info * length es \<Longrightarrow> \<not> reply_success (calls k len)
        \<and> reply_last_error (calls k len) = ERROR_INSUFFICIENT_BUFFER"
      "\<not> unat len < sizeof_info * length es \<Longrightarrow> reply_success (calls k len) \<and> reply_entries (calls k len) = es" for k len
    using assms unfolding calls_ok_def by (blast, meson, meson)
  have d: "(sizeof_info * length es + sizeof_info - 1) div sizeof_info = length es"
    by (simp add: sizeof_info_def)
  show ?thesis
  proof (cases "es = []")
    case True
    then show ?thesis using c(1) [of 0 0] c(3) [of 0 0] by (simp add: query_processors_def)
  next
    case False
    then have "unat (0 :: 32 word) < sizeof_info * length es" by (simp add: sizeof_info_def)
    then show ?thesis
      using c(1) [of 0 0] c(2) [of 0 0] c(1) [of 1 "word_of_nat (sizeof_info * length es)"]
        c(3) [of "word_of_nat (sizeof_info * length es)" 1] n d
      by (simp add: query_processors_def overwrite_def)
  qed
qed

lemma scan_processors_result:
  assumes calls: "calls_ok es calls" and es: "processors_ok es"
  shows "if core_entries es = [] \<or> line_sizes es = [] \<or> (\<exists>z \<in> set (line_sizes es). z \<noteq> hd (line_sizes es))
    then scan_processors calls = Inl RuntimeError
    else \<exists>cs. list_all2 lowest_processor (core_entries es) cs
      \<and> scan_processors calls = Inr \<lparr>newCacheLineSize = hd (line_sizes es),
          newPhysicalConcurrency = word_of_nat (length (core_entries es)), coreThreadIds = cs\<rparr>"
proof -
  have n: "unat (word_of_nat (sizeof_info * length es) :: 32 word) div sizeof_info = length es"
    by (subst unat_of_nat_32) (use calls in \<open>simp_all add: calls_ok_def sizeof_info_def\<close>)
  have k: "(word_of_nat (length (core_entries es)) :: 32 word) = 0 \<longleftrightarrow> core_entries es = []"
    using unat_of_nat_32 [OF core_entries_less [OF calls]] by auto
  have z: "\<forall>z \<in> set (line_sizes es). z \<noteq> 0" and m: "\<forall>e \<in> set (core_entries es). ProcessorMask e \<noteq> 0"
    using es by (simp_all add: processors_ok_def)
  let ?start = "\<lparr>newCacheLineSize = 0, newPhysicalConcurrency = 0, coreThreadIds = []\<rparr>"
  have p: "scan_processors calls = res_bind (scan_loop es 0 (length es) ?start) (\<lambda>c.
     if newCacheLineSize c = 0 then Inl RuntimeError
     else if newPhysicalConcurrency c = 0 then Inl RuntimeError
     else Inr c)"
    unfolding scan_processors_def query_processors_result [OF calls] by (simp only: res_bind_simps prod.case n)
  note r = scan_loop_result [OF m, of "[]" ?start]
  show ?thesis
  proof (cases "join_size 0 (line_sizes es)")
    case None
    then have "\<exists>z \<in> set (line_sizes es). z \<noteq> hd (line_sizes es)" using join_size_0 [OF z] by (auto split: if_splits)
    then show ?thesis using r None p by simp
  next
    case (Some x)
    then obtain cs where cs: "list_all2 lowest_processor (core_entries es) cs"
        "scan_loop es 0 (length es) ?start = Inr \<lparr>newCacheLineSize = x,
          newPhysicalConcurrency = word_of_nat (length (core_entries es)), coreThreadIds = cs\<rparr>"
      using r by auto
    show ?thesis
    proof (cases "line_sizes es = []")
      case True
      then show ?thesis using Some p cs(2) by simp
    next
      case False
      then have a: "\<forall>z \<in> set (line_sizes es). z = hd (line_sizes es)" and "x = hd (line_sizes es)"
        using Some False join_size_0 [OF z] by (metis option.distinct(1) option.inject)+
      moreover have "hd (line_sizes es) \<noteq> 0" using False z by simp
      moreover have "\<not> (\<exists>z \<in> set (line_sizes es). z \<noteq> hd (line_sizes es))" using a by blast
      ultimately show ?thesis using False k p cs by simp
    qed
  qed
qed

lemma lowest_processors_distinct:
  assumes "list_all2 lowest_processor es cs" "sorted_wrt (\<lambda>d e. ProcessorMask d AND ProcessorMask e = 0) es"
  shows "distinct cs"
  using assms
proof (induction rule: list_all2_induct)
  case (Cons e es i cs)
  have "j \<noteq> i" if j: "j \<in> set cs" for j
  proof
    assume "j = i"
    obtain k where k: "k < length cs" "cs ! k = j" using j by (auto simp: in_set_conv_nth)
    then have d: "es ! k \<in> set es" "lowest_processor (es ! k) j"
      using list_all2_nthD2 [OF Cons.hyps(2), of k] list_all2_lengthD [OF Cons.hyps(2)] by simp_all
    then have "ProcessorMask e AND ProcessorMask (es ! k) = 0" using Cons.prems by simp
    moreover have "bit (ProcessorMask e AND ProcessorMask (es ! k)) (nat i)"
      using d(2) Cons.hyps(1) \<open>j = i\<close> by (simp add: lowest_processor_def bit_and_iff)
    ultimately show False by simp
  qed
  then show ?case using Cons by auto
qed simp

section \<open>The property\<close>

text \<open>Two cores with two hardware threads each, the second with the processors 1 and 3.\<close>

definition demo_entry :: "64 word \<Rightarrow> relationship \<Rightarrow> cache_type \<Rightarrow> processor_info" where
  "demo_entry m r t = \<lparr>ProcessorMask = m, Relationship = r, CacheLevel = 1, CacheType = t, CacheLineSize = 64\<rparr>"

definition demo_entries :: "processor_info list" where
  "demo_entries = [demo_entry 5 RelationProcessorCore CacheUnified, demo_entry 5 RelationCache CacheData,
     demo_entry 10 RelationProcessorCore CacheUnified, demo_entry 10 RelationCache CacheData,
     demo_entry 15 RelationNumaNode CacheUnified]"

definition demo_calls :: info_calls where
  "demo_calls k len =
     (if unat len < 160 then \<lparr>reply_success = False, reply_last_error = 122, reply_length = 160, reply_entries = []\<rparr>
      else \<lparr>reply_success = True, reply_last_error = 0, reply_length = 160, reply_entries = demo_entries\<rparr>)"

lemma demo_calls_ok: "calls_ok demo_entries demo_calls"
proof -
  have "length demo_entries = 5" by (simp add: demo_entries_def)
  then show ?thesis by (simp add: calls_ok_def demo_calls_def sizeof_info_def ERROR_INSUFFICIENT_BUFFER_def)
qed

lemma demo_entries_ok: "processors_ok demo_entries"
  by (simp add: processors_ok_def demo_entries_def core_entries_def line_sizes_def demo_entry_def is_L1_data_def)

text \<open>
  C20: \<^verbatim>\<open>physical_core_ids()\<close> on Windows: with one call of the system that fails and one that
  succeeds, it yields one processor for each core, the lowest in the core's mask, all below 64 and
  all different, and \<^verbatim>\<open>physical_concurrency()\<close> and \<^verbatim>\<open>hardware_cache_line_size()\<close> return their number
  and the line size of the L1 caches from then on. If the caches have different line sizes or the
  system reports no core or no cache, the program ends.
\<close>

theorem windows_cpu_info_correct:
  assumes "calls_ok es calls" "processors_ok es"
  shows "if core_entries es = [] \<or> line_sizes es = [] \<or> (\<exists>z \<in> set (line_sizes es). z \<noteq> hd (line_sizes es))
    then win_physical_core_ids calls no_cpu_info = Inl Terminated
    else \<exists>cs s. win_physical_core_ids calls no_cpu_info = Inr ((Some cs, length cs), s)
      \<and> list_all2 lowest_processor (core_entries es) cs \<and> distinct cs
      \<and> win_physical_concurrency calls s = Inr (word_of_nat (length (core_entries es)), s)
      \<and> win_hardware_cache_line_size calls s = Inr (hd (line_sizes es), s)
      \<and> win_physical_core_ids calls s = Inr ((Some cs, length cs), s)"
proof (cases "core_entries es = [] \<or> line_sizes es = [] \<or> (\<exists>z \<in> set (line_sizes es). z \<noteq> hd (line_sizes es))")
  case True
  then show ?thesis using scan_processors_result [OF assms]
    by (simp add: win_physical_core_ids_def win_init_cpu_info_def no_cpu_info_def)
next
  case False
  then obtain cs where cs: "list_all2 lowest_processor (core_entries es) cs"
      "scan_processors calls = Inr \<lparr>newCacheLineSize = hd (line_sizes es),
        newPhysicalConcurrency = word_of_nat (length (core_entries es)), coreThreadIds = cs\<rparr>"
    using scan_processors_result [OF assms] by auto
  let ?s = "\<lparr>cached_line_size = hd (line_sizes es), cached_concurrency = word_of_nat (length (core_entries es)),
    cached_core_ids = Some cs\<rparr>"
  have l: "length cs = length (core_entries es)" using cs(1) by (simp add: list_all2_lengthD)
  have n: "unat (word_of_nat (length (core_entries es)) :: 32 word) = length (core_entries es)"
    by (rule unat_of_nat_32 [OF core_entries_less [OF assms(1)]])
  then have c: "(word_of_nat (length (core_entries es)) :: 32 word) \<noteq> 0" using False by auto
  have z: "hd (line_sizes es) \<noteq> 0" using False assms(2) by (simp add: processors_ok_def)
  have "distinct cs" using lowest_processors_distinct [OF cs(1)] assms(2) by (simp add: processors_ok_def)
  moreover have "win_physical_core_ids calls no_cpu_info = Inr ((Some cs, length cs), ?s)"
    using cs(2) n l by (simp add: win_physical_core_ids_def win_init_cpu_info_def no_cpu_info_def)
  moreover have "win_physical_concurrency calls ?s = Inr (word_of_nat (length (core_entries es)), ?s)"
    using c by (simp add: win_physical_concurrency_def)
  moreover have "win_hardware_cache_line_size calls ?s = Inr (hd (line_sizes es), ?s)"
    using z by (simp add: win_hardware_cache_line_size_def)
  moreover have "win_physical_core_ids calls ?s = Inr ((Some cs, length cs), ?s)"
    using c n l by (simp add: win_physical_core_ids_def)
  ultimately show ?thesis using cs(1) by (auto simp: False)
qed

lemma windows_cpu_info_correct_witness:
  "\<exists>cs s. win_physical_core_ids demo_calls no_cpu_info = Inr ((Some cs, 2), s) \<and> distinct cs
    \<and> win_hardware_cache_line_size demo_calls s = Inr (64, s)"
proof -
  have c: "core_entries demo_entries = [demo_entry 5 RelationProcessorCore CacheUnified, demo_entry 10 RelationProcessorCore CacheUnified]"
      "line_sizes demo_entries = [64, 64]"
    by (simp_all add: demo_entries_def core_entries_def line_sizes_def demo_entry_def is_L1_data_def)
  obtain cs s where r: "win_physical_core_ids demo_calls no_cpu_info = Inr ((Some cs, length cs), s)"
      "list_all2 lowest_processor (core_entries demo_entries) cs" "distinct cs"
      "win_hardware_cache_line_size demo_calls s = Inr (64, s)"
    using windows_cpu_info_correct [OF demo_calls_ok demo_entries_ok] c(2) by (simp add: c(1)) blast
  moreover have "length cs = 2" using list_all2_lengthD [OF r(2)] c(1) by simp
  ultimately show ?thesis by auto
qed

end
