(* ===== verification/Windows_Thread.thy ===== *)
theory Windows_Thread
  imports Os_Thread Windows_Cpu
begin

text \<open>
  Threads on Windows (the Windows branches of \<^verbatim>\<open>setThreadAffinity\<close>, \<^verbatim>\<open>win32_handle\<close> and \<^verbatim>\<open>os_thread\<close>
  in \<^verbatim>\<open>src/src/thread_squad.cpp\<close>). A thread that is to be pinned is created suspended, pinned, and resumed;
  its handle is a member already then, so that an exception finds the object changed. The state has
  the object and the threads of the system.
\<close>

section \<open>The system\<close>

record win_thread =
  suspended :: bool
  affinity_mask :: "64 word option"   \<comment> \<open>none: that of the process\<close>

text \<open>The threads with the handles that refer to them, and the handles that are open.\<close>

record win_threads =
  win_calls :: nat
  win_thread_list :: "(int \<times> win_thread) list"
  open_handles :: "int list"

text \<open>
  Which calls of the system succeed, the code that \<^verbatim>\<open>GetLastError()\<close> returns after a number of calls, and
  the handle of a new thread, which is not null and not that of another one.
\<close>

record win_api =
  call_succeeds :: "nat \<Rightarrow> bool"
  GetLastError :: "nat \<Rightarrow> 32 word"
  new_handle :: "win_threads \<Rightarrow> int"

definition win_api_ok :: "win_api \<Rightarrow> bool" where
  "win_api_ok api \<longleftrightarrow> (\<forall>s. new_handle api s \<noteq> 0 \<and> map_of (win_thread_list s) (new_handle api s) = None
     \<and> new_handle api s \<notin> set (open_handles s))"

type_synonym 'a win_act = "(os_thread \<times> win_threads, 'a) act"

definition win_call :: "win_api \<Rightarrow> bool win_act" where
  "win_call api = (\<lambda>(t, s). (Inr (call_succeeds api (win_calls s)), t, s\<lparr>win_calls := win_calls s + 1\<rparr>))"

text \<open>\<^verbatim>\<open>win32_assert\<close>, which asks for the error code of the last call.\<close>

definition check_last :: "win_api \<Rightarrow> bool \<Rightarrow> unit win_act" where
  "check_last api success = (\<lambda>(t, s). attempt (win32_assert (GetLastError api (win_calls s)) success) (t, s))"

definition change_thread :: "int \<Rightarrow> (win_thread \<Rightarrow> win_thread) \<Rightarrow> unit win_act" where
  "change_thread h f = update (\<lambda>(t, s). (t, s\<lparr>win_thread_list :=
     map (\<lambda>(k, x). if k = h then (k, f x) else (k, x)) (win_thread_list s)\<rparr>))"

text \<open>\<^verbatim>\<open>_beginthreadex\<close>: the handle of the new thread, or 0.\<close>

definition begin_thread :: "win_api \<Rightarrow> bool \<Rightarrow> int win_act" where
  "begin_thread api create_suspended = act_then (win_call api) (\<lambda>ok.
     if \<not> ok then ret 0
     else (\<lambda>(t, s). (Inr (new_handle api s), t, s\<lparr>
       win_thread_list := (new_handle api s, \<lparr>suspended = create_suspended, affinity_mask = None\<rparr>) # win_thread_list s,
       open_handles := new_handle api s # open_handles s\<rparr>)))"

definition SetThreadAffinityMask :: "win_api \<Rightarrow> int \<Rightarrow> 64 word \<Rightarrow> bool win_act" where
  "SetThreadAffinityMask api h m = act_then (win_call api) (\<lambda>ok.
     if ok then act_then (change_thread h (\<lambda>x. x\<lparr>affinity_mask := Some m\<rparr>)) (\<lambda>_. ret True) else ret False)"

definition ResumeThread :: "win_api \<Rightarrow> int \<Rightarrow> bool win_act" where
  "ResumeThread api h = act_then (win_call api) (\<lambda>ok.
     if ok then act_then (change_thread h (\<lambda>x. x\<lparr>suspended := False\<rparr>)) (\<lambda>_. ret True) else ret False)"

section \<open>Handles\<close>

text \<open>\<^verbatim>\<open>win32_handle\<close>: its deleter closes a handle that is not null; the thread goes on.\<close>

definition close_handle :: "int \<Rightarrow> unit win_act" where
  "close_handle h = (if h \<noteq> 0 then update (\<lambda>(t, s). (t, s\<lparr>open_handles := remove1 h (open_handles s)\<rparr>)) else ret ())"

definition set_handle :: "int \<Rightarrow> unit win_act" where
  "set_handle h = (\<lambda>(t, s). act_then (close_handle (thread_handle t))
     (\<lambda>_. update (\<lambda>(t, s). (t\<lparr>thread_handle := h\<rparr>, s))) (t, s))"

definition this_thread :: "os_thread win_act" where
  "this_thread = (\<lambda>(t, s). (Inr t, t, s))"

section \<open>The operations\<close>

definition win_setThreadAffinity :: "win_api \<Rightarrow> int \<Rightarrow> nat \<Rightarrow> unit win_act" where
  "win_setThreadAffinity api h coreIdx =
     (if coreIdx \<ge> 64 then throw RangeError
      else act_then (SetThreadAffinityMask api h (push_bit coreIdx 1)) (check_last api))"

definition win_fork :: "win_api \<Rightarrow> unit win_act" where
  "win_fork api = act_then this_thread (\<lambda>t.
     act_then (expects (\<not> have_thread_handle t)) (\<lambda>_.
     act_then (begin_thread api (coreAffinity t \<noteq> None)) (\<lambda>h.
     act_then (set_handle h) (\<lambda>_.
     act_then (check_last api (h \<noteq> 0)) (\<lambda>_.
     case coreAffinity t of None \<Rightarrow> ret ()
     | Some c \<Rightarrow>
         act_then (win_setThreadAffinity api h c) (\<lambda>_.
         act_then (ResumeThread api h) (check_last api)))))))"

text \<open>
  \<^verbatim>\<open>join()\<close>, which does not return when the thread cannot exit because it is suspended; otherwise, once
  the thread has exited.
\<close>

definition win_join :: "win_api \<Rightarrow> os_thread \<times> win_threads \<Rightarrow> (unit res \<times> os_thread \<times> win_threads) option" where
  "win_join api ts =
     (if have_thread_handle (fst ts)
        \<and> (case map_of (win_thread_list (snd ts)) (thread_handle (fst ts)) of None \<Rightarrow> False | Some x \<Rightarrow> suspended x)
      then None
      else Some (act_then this_thread (\<lambda>t.
        act_then (expects (have_thread_handle t)) (\<lambda>_.
        act_then (win_call api) (\<lambda>ok.
        act_then (check_last api ok) (\<lambda>_. set_handle 0)))) ts))"

definition win_destruct :: "unit win_act" where
  "win_destruct = act_then this_thread (\<lambda>t. close_handle (thread_handle t))"

lemmas win_simps = act_simps win_call_def check_last_def change_thread_def begin_thread_def SetThreadAffinityMask_def
  ResumeThread_def close_handle_def set_handle_def this_thread_def win_setThreadAffinity_def have_thread_handle_def

section \<open>Forking\<close>

text \<open>The thread that a pinned fork has created when it throws.\<close>

definition left_behind :: "int \<Rightarrow> win_threads \<Rightarrow> win_threads \<Rightarrow> bool" where
  "left_behind h s s' \<longleftrightarrow> (\<exists>x. suspended x \<and> win_thread_list s' = (h, x) # win_thread_list s)
     \<and> open_handles s' = h # open_handles s"

lemma map_other_threads:
  "map_of xs h = None \<Longrightarrow> map (\<lambda>(k, x). if k = h then (k, f x) else (k, x)) xs = xs"
  by (induction xs) (auto split: if_splits)

lemma win_fork_unpinned:
  assumes "win_api_ok api" "thread_handle t = 0" "coreAffinity t = None"
  shows "\<exists>s'. win_fork api (t, s) =
      (if call_succeeds api (win_calls s)
       then (Inr (), t\<lparr>thread_handle := new_handle api (s\<lparr>win_calls := win_calls s + 1\<rparr>)\<rparr>, s')
       else (Inl (SystemError (sint (GetLastError api (win_calls s + 1)))), t, s'))
    \<and> win_thread_list s' = (if call_succeeds api (win_calls s)
       then [(new_handle api (s\<lparr>win_calls := win_calls s + 1\<rparr>), \<lparr>suspended = False, affinity_mask = None\<rparr>)] else [])
         @ win_thread_list s
    \<and> open_handles s' = (if call_succeeds api (win_calls s) then [new_handle api (s\<lparr>win_calls := win_calls s + 1\<rparr>)] else [])
         @ open_handles s"
  using assms by (auto simp: win_fork_def win_simps win_api_ok_def)

lemma win_fork_pinned:
  assumes api: "win_api_ok api" and t: "thread_handle t = 0" "coreAffinity t = Some c"
  obtains (failed) e s' where "win_fork api (t, s) = (Inl (SystemError e), t, s')"
      "win_thread_list s' = win_thread_list s" "open_handles s' = open_handles s" "\<not> call_succeeds api (win_calls s)"
  | (thrown) e h s' where "win_fork api (t, s) = (Inl e, t\<lparr>thread_handle := h\<rparr>, s')" "h \<noteq> 0" "left_behind h s s'"
      "64 \<le> c \<or> \<not> call_succeeds api (win_calls s + 1) \<or> \<not> call_succeeds api (win_calls s + 2)"
  | (forked) h s' where "win_fork api (t, s) = (Inr (), t\<lparr>thread_handle := h\<rparr>, s')" "h \<noteq> 0" "c < 64"
      "map_of (win_thread_list s) h = None" "open_handles s' = h # open_handles s"
      "win_thread_list s' = (h, \<lparr>suspended = False, affinity_mask = Some (push_bit c 1)\<rparr>) # win_thread_list s"
proof (cases "call_succeeds api (win_calls s)")
  case False
  then show ?thesis using t 
    by (intro failed [of "sint (GetLastError api (win_calls s + 1))" "s\<lparr>win_calls := win_calls s + 1\<rparr>"])
      (simp_all add: win_fork_def win_simps)
next
  case begun: True
  define h where "h = new_handle api (s\<lparr>win_calls := win_calls s + 1\<rparr>)"
  have h: "h \<noteq> 0" "map_of (win_thread_list s) h = None"
    using api [unfolded win_api_ok_def, rule_format, of "s\<lparr>win_calls := win_calls s + 1\<rparr>"] by (simp_all add: h_def)
  have n: "new_handle api (s\<lparr>win_calls := Suc (win_calls s)\<rparr>) = h" by (simp add: h_def)
  note defs = win_fork_def win_simps n map_other_threads [OF h(2)]
  obtain r t' s' where w: "win_fork api (t, s) = (r, t', s')" by (cases "win_fork api (t, s)") auto
  consider (range) "64 \<le> c" | (pin) "c < 64" "\<not> call_succeeds api (win_calls s + 1)"
    | (resume) "c < 64" "call_succeeds api (win_calls s + 1)" "\<not> call_succeeds api (win_calls s + 2)"
    | (all) "c < 64" "call_succeeds api (win_calls s + 1)" "call_succeeds api (win_calls s + 2)"
    by linarith
  then show ?thesis
  proof cases
    case range
    then show ?thesis using w begun t h
      by (intro thrown [of RangeError h s']) (auto simp: defs left_behind_def simp del: map_map)
  next
    case pin
    then show ?thesis using w begun t h
      by (intro thrown [of "SystemError (sint (GetLastError api (win_calls s + 2)))" h s'])
        (auto simp: defs left_behind_def simp del: map_map)
  next
    case resume
    then show ?thesis using w begun t h
      by (intro thrown [of "SystemError (sint (GetLastError api (Suc (Suc (Suc (win_calls s))))))" h s'])
        (auto simp: defs left_behind_def simp del: map_map)
  next
    case all
    then show ?thesis using w begun t h
      by (intro forked [of h s']) (auto simp: defs simp del: map_map)
  qed
qed

text \<open>The processors that \<^verbatim>\<open>physical_core_ids()\<close> names can be pinned to, and each lies in its core.\<close>

lemma core_mask_below:
  assumes "lowest_processor e i"
  shows "nat i < 64" "(push_bit (nat i) 1 :: 64 word) AND ProcessorMask e = push_bit (nat i) 1"
proof -
  show "nat i < 64" using assms by (simp add: lowest_processor_def nat_less_iff)
  show "(push_bit (nat i) 1 :: 64 word) AND ProcessorMask e = push_bit (nat i) 1"
    by (rule bit_word_eqI) (use assms in \<open>auto simp: lowest_processor_def bit_simps\<close>)
qed

section \<open>The property\<close>

definition demo_win_api :: win_api where
  "demo_win_api = \<lparr>call_succeeds = (\<lambda>m. m \<noteq> 1), GetLastError = (\<lambda>_. 87),
     new_handle = (\<lambda>s. 1 + sum_list (map (\<lambda>(h, x). \<bar>h\<bar>) (win_thread_list s)) + sum_list (map abs (open_handles s)))\<rparr>"

lemma demo_win_api_ok: "win_api_ok demo_win_api"
  unfolding win_api_ok_def
proof (intro allI conjI)
  fix s :: win_threads
  have n: "0 \<le> sum_list (map (\<lambda>(h, x). \<bar>h :: int\<bar>) (win_thread_list s))" "0 \<le> sum_list (map abs (open_handles s))"
    by (auto intro!: sum_list_nonneg)
  then show "new_handle demo_win_api s \<noteq> 0" by (simp add: demo_win_api_def)
  have "h < new_handle demo_win_api s" if "(h, x) \<in> set (win_thread_list s)" for h x
    using abs_le_sum_abs [OF that] n(2) by (simp add: demo_win_api_def)
  then have "new_handle demo_win_api s \<notin> fst ` set (win_thread_list s)" by (metis imageE less_irrefl prod.collapse)
  then show "map_of (win_thread_list s) (new_handle demo_win_api s) = None" by (simp add: map_of_None)
  have "h < new_handle demo_win_api s" if "h \<in> set (open_handles s)" for h
    using abs_le_sum_abs [of h "()" "map (\<lambda>h. (h, ())) (open_handles s)"] that n(1) by (auto simp: demo_win_api_def o_def)
  then show "new_handle demo_win_api s \<notin> set (open_handles s)" by blast
qed

text \<open>
  C23: \<^verbatim>\<open>fork()\<close> on Windows: if it returns, there is one new thread, which runs with the affinity that
  was set. If it throws, nothing was created, or (only for a pinned thread) the object is left with
  the handle of a new thread that is suspended for good, so that joining it would wait forever. The
  latter always happens for a processor that is not below 64.
\<close>

theorem windows_fork_outcome:
  assumes "win_api_ok api" "thread_handle t = 0"
  shows "(case win_fork api (t, s) of
      (Inr _, t', s') \<Rightarrow> thread_handle t' \<noteq> 0 \<and> map_of (win_thread_list s) (thread_handle t') = None
        \<and> win_thread_list s' = (thread_handle t', \<lparr>suspended = False,
            affinity_mask = map_option (\<lambda>c. push_bit c 1) (coreAffinity t)\<rparr>) # win_thread_list s
        \<and> open_handles s' = thread_handle t' # open_handles s
    | (Inl e, t', s') \<Rightarrow>
        thread_handle t' = 0 \<and> win_thread_list s' = win_thread_list s \<and> open_handles s' = open_handles s
        \<or> coreAffinity t \<noteq> None \<and> left_behind (thread_handle t') s s' \<and> win_join api (t', s') = None)
    \<and> ((\<forall>m. call_succeeds api m) \<longrightarrow>
        (fst (win_fork api (t, s)) = Inr () \<longleftrightarrow> (case coreAffinity t of None \<Rightarrow> True | Some c \<Rightarrow> c < 64)))"
proof (cases "coreAffinity t")
  case None
  from win_fork_unpinned [OF assms None, of s] obtain s' where "win_fork api (t, s) =
      (if call_succeeds api (win_calls s)
       then (Inr (), t\<lparr>thread_handle := new_handle api (s\<lparr>win_calls := win_calls s + 1\<rparr>)\<rparr>, s')
       else (Inl (SystemError (sint (GetLastError api (win_calls s + 1)))), t, s'))"
    "win_thread_list s' = (if call_succeeds api (win_calls s)
       then [(new_handle api (s\<lparr>win_calls := win_calls s + 1\<rparr>), \<lparr>suspended = False, affinity_mask = None\<rparr>)] else [])
         @ win_thread_list s"
    "open_handles s' = (if call_succeeds api (win_calls s) then [new_handle api (s\<lparr>win_calls := win_calls s + 1\<rparr>)] else [])
         @ open_handles s" by blast
  then show ?thesis
    using None assms(2) assms(1) [unfolded win_api_ok_def, rule_format, of "s\<lparr>win_calls := win_calls s + 1\<rparr>"] by simp
next
  case (Some c)
  with assms show ?thesis
  proof (cases rule: win_fork_pinned [of api t c s])
    case (thrown e h s')
    moreover have "win_join api (t\<lparr>thread_handle := h\<rparr>, s') = None"
      using thrown by (auto simp: win_join_def have_thread_handle_def left_behind_def)
    ultimately show ?thesis using Some by auto
  qed (use Some assms in auto)
qed

text \<open>Pinning fails, after the thread was created.\<close>

lemma windows_fork_outcome_witness:
  "\<exists>t' s'. win_fork demo_win_api (\<lparr>thread_handle = 0, coreAffinity = Some 3\<rparr>,
      \<lparr>win_calls = 0, win_thread_list = [], open_handles = []\<rparr>) = (Inl (SystemError 87), t', s')
    \<and> left_behind (thread_handle t') \<lparr>win_calls = 0, win_thread_list = [], open_handles = []\<rparr> s'
    \<and> win_join demo_win_api (t', s') = None"
proof -
  let ?t = "\<lparr>thread_handle = 0, coreAffinity = Some 3\<rparr>"
  let ?s = "\<lparr>win_calls = 0, win_thread_list = [], open_handles = []\<rparr>"
  obtain t' s' where f: "win_fork demo_win_api (?t, ?s) = (Inl (SystemError 87), t', s')" "thread_handle t' \<noteq> 0"
    by (simp add: win_fork_def win_simps demo_win_api_def)
  then show ?thesis using windows_fork_outcome [OF demo_win_api_ok, of ?t ?s] by auto
qed

end
