(* ===== verification/Write_Trap.thy ===== *)
theory Write_Trap
  imports Prelude
begin

text \<open>
  The out-of-bounds write trap of \<^verbatim>\<open>src/src/memory.cpp\<close>: a known pattern is stored behind the
  bytes of an allocation and checked when the allocation is released. Memory is a function from
  64-bit addresses to bytes; a 32-bit value is stored with its least significant byte first.
\<close>

type_synonym memory = "size_t \<Rightarrow> byte"

text \<open>The addresses of an object of \<^verbatim>\<open>sz\<close> bytes at \<^verbatim>\<open>p\<close>.\<close>

definition object_bytes :: "size_t \<Rightarrow> size_t \<Rightarrow> size_t set" where
  "object_bytes p sz = {q. unat p \<le> unat q \<and> unat q < unat p + unat sz}"

section \<open>Storing and loading values\<close>

text \<open>\<^verbatim>\<open>std::memcpy\<close> of \<^verbatim>\<open>n\<close> bytes between memory and a value in a register.\<close>

definition value_byte :: "nat \<Rightarrow> 'a :: len word \<Rightarrow> byte" where
  "value_byte j v = ucast (drop_bit (8 * j) v)"

definition store_bytes :: "nat \<Rightarrow> size_t \<Rightarrow> 'a :: len word \<Rightarrow> memory \<Rightarrow> memory" where
  "store_bytes n p v m = fold (\<lambda>j m. m(p + word_of_nat j := value_byte j v)) [0..<n] m"

definition load_bytes :: "nat \<Rightarrow> size_t \<Rightarrow> memory \<Rightarrow> 'a :: len word" where
  "load_bytes n p m = fold (\<lambda>j v. v OR push_bit (8 * j) (ucast (m (p + word_of_nat j)))) [0..<n] 0"

abbreviation store32 :: "size_t \<Rightarrow> 32 word \<Rightarrow> memory \<Rightarrow> memory" where
  "store32 \<equiv> store_bytes 4"

abbreviation load32 :: "size_t \<Rightarrow> memory \<Rightarrow> 32 word" where
  "load32 \<equiv> load_bytes 4"

abbreviation store64 :: "size_t \<Rightarrow> size_t \<Rightarrow> memory \<Rightarrow> memory" where
  "store64 \<equiv> store_bytes 8"

abbreviation load64 :: "size_t \<Rightarrow> memory \<Rightarrow> size_t" where
  "load64 \<equiv> load_bytes 8"

lemma word_of_nat_inj64:
  "i < 2 ^ 64 \<Longrightarrow> j < 2 ^ 64 \<Longrightarrow> (word_of_nat i :: size_t) = word_of_nat j \<longleftrightarrow> i = j"
  by (metis unat_of_nat_no_wrap)

lemma store_bytes_apply:
  assumes "n \<le> 2 ^ 64" "j < 2 ^ 64"
  shows "store_bytes n p v m (p + word_of_nat j) = (if j < n then value_byte j v else m (p + word_of_nat j))"
proof -
  have "k \<le> n \<Longrightarrow> fold (\<lambda>j m. m(p + word_of_nat j := value_byte j v)) [0..<k] m (p + word_of_nat j)
      = (if j < k then value_byte j v else m (p + word_of_nat j))" for k
    using assms by (induction k) (auto simp: word_of_nat_inj64)
  then show ?thesis by (simp add: store_bytes_def)
qed

lemma load_bytes_bit:
  "bit (load_bytes n p m :: 'a :: len word) b \<longleftrightarrow> b < LENGTH('a) \<and> b < 8 * n \<and> bit (m (p + word_of_nat (b div 8))) (b mod 8)"
proof (induction n)
  case 0
  then show ?case by (simp add: load_bytes_def)
next
  case (Suc n)
  have bits: "bit (m q) k \<Longrightarrow> k < 8" for q k using bit_imp_le_length [of "m q" k] by simp
  have "load_bytes (Suc n) p m = (load_bytes n p m :: 'a word) OR push_bit (8 * n) (ucast (m (p + word_of_nat n)))"
    by (simp add: load_bytes_def)
  then have "bit (load_bytes (Suc n) p m :: 'a word) b
      \<longleftrightarrow> b < LENGTH('a) \<and> (b < 8 * n \<and> bit (m (p + word_of_nat (b div 8))) (b mod 8)
        \<or> 8 * n \<le> b \<and> bit (m (p + word_of_nat n)) (b - 8 * n))"
    using Suc.IH by (auto simp: bit_or_iff bit_push_bit_iff bit_ucast_iff dest: bit_imp_le_length)
  also have "\<dots> \<longleftrightarrow> b < LENGTH('a) \<and> b < 8 * Suc n \<and> bit (m (p + word_of_nat (b div 8))) (b mod 8)"
  proof (cases "8 * n \<le> b \<and> b < 8 * Suc n")
    case True
    then obtain r where "b = 8 * n + r" "r < 8" by (metis add_less_cancel_left le_Suc_ex mult_Suc_right add.commute)
    then have "b div 8 = n" "b mod 8 = b - 8 * n" by simp_all
    with True show ?thesis by auto
  next
    case False
    then show ?thesis using bits [of "p + word_of_nat n" "b - 8 * n"] by auto
  qed
  finally show ?case .
qed

text \<open>What was stored is loaded, and a load sees every byte.\<close>

lemma load_eq_iff:
  fixes v :: "'a :: len word"
  assumes "LENGTH('a) = 8 * n"
  shows "load_bytes n p m = v \<longleftrightarrow> (\<forall>j<n. m (p + word_of_nat j) = value_byte j v)"
proof -
  have vb: "bit (value_byte j v) k \<longleftrightarrow> k < 8 \<and> bit v (8 * j + k)" for j k
    by (auto simp: value_byte_def bit_ucast_iff bit_drop_bit_eq)
  show ?thesis
  proof
    assume l: "load_bytes n p m = v"
    show "\<forall>j<n. m (p + word_of_nat j) = value_byte j v"
    proof (intro allI impI)
      fix j assume j: "j < n"
      show "m (p + word_of_nat j) = value_byte j v"
      proof (rule bit_eqI)
        fix k
        show "bit (m (p + word_of_nat j)) k \<longleftrightarrow> bit (value_byte j v) k"
        proof (cases "k < 8")
          case True
          have "bit v (8 * j + k) \<longleftrightarrow> bit (m (p + word_of_nat j)) k"
            unfolding l [symmetric] load_bytes_bit using True j assms by simp
          then show ?thesis using True by (simp add: vb)
        next
          case False
          then show ?thesis using bit_imp_le_length [of "m (p + word_of_nat j)" k] by (auto simp: vb)
        qed
      qed
    qed
  next
    assume a: "\<forall>j<n. m (p + word_of_nat j) = value_byte j v"
    show "load_bytes n p m = v"
    proof (rule bit_eqI)
      fix b
      have "b div 8 < n" if "b < 8 * n" using that by (simp add: less_mult_imp_div_less mult.commute)
      then have "bit (m (p + word_of_nat (b div 8))) (b mod 8) \<longleftrightarrow> bit v b" if "b < 8 * n"
        using a that by (simp add: vb)
      then show "bit (load_bytes n p m :: 'a word) b \<longleftrightarrow> bit v b"
        using bit_imp_le_length [of v b] assms by (auto simp: load_bytes_bit)
    qed
  qed
qed

section \<open>The trap\<close>

definition maxTrapCount :: size_t where
  "maxTrapCount = 4"

definition trapVal :: "32 word" where
  "trapVal = 0xDEADBEEF"

definition trap_count :: "size_t \<Rightarrow> size_t \<Rightarrow> nat" where
  "trap_count sz allocSize = unat (min maxTrapCount ((allocSize - sz) div 4))"

definition set_out_of_bounds_write_trap :: "size_t \<Rightarrow> size_t \<Rightarrow> size_t \<Rightarrow> memory \<Rightarrow> memory" where
  "set_out_of_bounds_write_trap p sz allocSize m =
     fold (\<lambda>i m. store32 (p + sz + word_of_nat i * 4) trapVal m) [0..<trap_count sz allocSize] m"

definition check_out_of_bounds_write_trap :: "size_t \<Rightarrow> size_t \<Rightarrow> size_t \<Rightarrow> memory \<Rightarrow> bool" where
  "check_out_of_bounds_write_trap p sz allocSize m =
     list_all (\<lambda>i. load32 (p + sz + word_of_nat i * 4) m = trapVal) [0..<trap_count sz allocSize]"

lemma trap_count_le: "trap_count sz allocSize \<le> 4"
  by (simp add: trap_count_def maxTrapCount_def min_def word_le_nat_alt)

text \<open>The byte of the pattern at offset \<^verbatim>\<open>j\<close> behind the allocation.\<close>

definition trap_byte :: "nat \<Rightarrow> byte" where
  "trap_byte j = value_byte (j mod 4) trapVal"

lemma trap_offset: "q + word_of_nat i * 4 + word_of_nat j = (q :: size_t) + word_of_nat (4 * i + j)"
  by (simp add: algebra_simps)

lemma check_iff:
  "check_out_of_bounds_write_trap p sz allocSize m \<longleftrightarrow>
     (\<forall>j < 4 * trap_count sz allocSize. m (p + sz + word_of_nat j) = trap_byte j)"
proof -
  have "check_out_of_bounds_write_trap p sz allocSize m \<longleftrightarrow>
     (\<forall>i < trap_count sz allocSize. \<forall>j<4. m (p + sz + word_of_nat (4 * i + j)) = value_byte j trapVal)"
    unfolding check_out_of_bounds_write_trap_def list_all_iff
    by (auto simp: load_eq_iff trap_offset)
  also have "\<dots> \<longleftrightarrow> (\<forall>j < 4 * trap_count sz allocSize. m (p + sz + word_of_nat j) = trap_byte j)"
  proof
    assume l: "\<forall>i < trap_count sz allocSize. \<forall>j<4. m (p + sz + word_of_nat (4 * i + j)) = value_byte j trapVal"
    show "\<forall>j < 4 * trap_count sz allocSize. m (p + sz + word_of_nat j) = trap_byte j"
    proof (intro allI impI)
      fix j assume "j < 4 * trap_count sz allocSize"
      then have "j div 4 < trap_count sz allocSize" "j mod 4 < 4" by auto
      then have "m (p + sz + word_of_nat (4 * (j div 4) + j mod 4)) = value_byte (j mod 4) trapVal" using l by blast
      then show "m (p + sz + word_of_nat j) = trap_byte j" by (simp only: mult_div_mod_eq trap_byte_def)
    qed
  next
    assume r: "\<forall>j < 4 * trap_count sz allocSize. m (p + sz + word_of_nat j) = trap_byte j"
    show "\<forall>i < trap_count sz allocSize. \<forall>j<4. m (p + sz + word_of_nat (4 * i + j)) = value_byte j trapVal"
    proof (intro allI impI)
      fix i j :: nat assume "i < trap_count sz allocSize" "j < 4"
      then have "4 * i + j < 4 * trap_count sz allocSize" "(4 * i + j) mod 4 = j" by auto
      with r show "m (p + sz + word_of_nat (4 * i + j)) = value_byte j trapVal" by (metis trap_byte_def)
    qed
  qed
  finally show ?thesis .
qed

lemma store32_apply:
  assumes "j < 2 ^ 64" "k < 2 ^ 62"
  shows "store32 (q + word_of_nat k * 4) v m (q + word_of_nat j)
    = (if 4 * k \<le> j \<and> j < 4 * k + 4 then value_byte (j - 4 * k) v else m (q + word_of_nat j))"
proof (cases "4 * k \<le> j")
  case True
  then have "q + word_of_nat j = (q + word_of_nat k * 4) + word_of_nat (j - 4 * k)"
    by (simp add: of_nat_diff algebra_simps)
  then show ?thesis using store_bytes_apply [of 4 "j - 4 * k" "q + word_of_nat k * 4" v m] True assms by auto
next
  case False
  define d where "d = 2 ^ 64 - 4 * k + j"
  have d: "d < 2 ^ 64" "4 \<le> d" "4 * k + d = 2 ^ 64 + j" using False assms by (auto simp: d_def)
  then have "word_of_nat (4 * k) + word_of_nat d = (word_of_nat (2 ^ 64 + j) :: size_t)"
    by (metis of_nat_add)
  also have "\<dots> = word_of_nat j" by (simp add: word_of_nat_eq_iff take_bit_eq_mod)
  finally have "q + word_of_nat j = (q + word_of_nat k * 4) + word_of_nat d"
    by (simp add: algebra_simps)
  then show ?thesis using store_bytes_apply [of 4 d "q + word_of_nat k * 4" v m] False d(1,2) by (simp add: add.assoc)
qed

lemma set_trap_apply:
  assumes "j < 2 ^ 64"
  shows "set_out_of_bounds_write_trap p sz allocSize m (p + sz + word_of_nat j)
    = (if j < 4 * trap_count sz allocSize then trap_byte j else m (p + sz + word_of_nat j))"
proof -
  have "k \<le> 4 \<Longrightarrow> fold (\<lambda>i m. store32 (p + sz + word_of_nat i * 4) trapVal m) [0..<k] m (p + sz + word_of_nat j)
      = (if j < 4 * k then trap_byte j else m (p + sz + word_of_nat j))" for k
  proof (induction k)
    case (Suc k)
    have "j mod 4 = j - 4 * k" if "4 * k \<le> j" "j < 4 * k + 4"
      using that by (metis Suc_eq_plus1 add.commute le_add_diff_inverse less_diff_conv2 mod_less mod_mult_self2)
    then show ?case using Suc assms by (auto simp: store32_apply trap_byte_def)
  qed simp
  then show ?thesis using trap_count_le by (simp add: set_out_of_bounds_write_trap_def)
qed

lemma trap_within:
  assumes "sz \<le> allocSize" "j < 4 * trap_count sz allocSize"
  shows "unat sz + j < unat allocSize"
proof -
  have "trap_count sz allocSize \<le> unat ((allocSize - sz) div 4)"
    by (simp add: trap_count_def min_def word_le_nat_alt)
  also have "\<dots> = (unat allocSize - unat sz) div 4"
    using assms(1) by (simp add: unat_div unat_sub)
  finally show ?thesis using assms(2) by auto
qed

text \<open>Where the trap writes.\<close>

lemma set_trap_inside:
  assumes "sz \<le> allocSize" "set_out_of_bounds_write_trap p sz allocSize m q \<noteq> m q"
  shows "\<exists>j. q = p + sz + word_of_nat j \<and> j < 16 \<and> unat sz + j < unat allocSize"
proof -
  let ?j = "unat (q - (p + sz))"
  have q: "q = p + sz + word_of_nat ?j" by simp
  have "?j < 2 ^ 64" by (rule unat_size_t_bound)
  then have "?j < 4 * trap_count sz allocSize"
    using assms(2) set_trap_apply [of ?j p sz allocSize m] by (auto simp: q [symmetric] split: if_splits)
  then have "?j < 16" "unat sz + ?j < unat allocSize"
    using trap_count_le [of sz allocSize] trap_within [OF assms(1)] by auto
  with q show ?thesis by blast
qed

section \<open>Properties\<close>

text \<open>
  C26: The check accepts exactly the memories in which every guarded byte still has the value
  that setting the trap gave it. So the check succeeds right after the trap was set and after any
  writes elsewhere, and it detects any change of a guarded byte.
\<close>

theorem write_trap_detects_exactly:
  "check_out_of_bounds_write_trap p sz allocSize m' \<longleftrightarrow>
     (\<forall>j < 4 * trap_count sz allocSize.
        m' (p + sz + word_of_nat j) = set_out_of_bounds_write_trap p sz allocSize m (p + sz + word_of_nat j))"
proof -
  have "set_out_of_bounds_write_trap p sz allocSize m (p + sz + word_of_nat j) = trap_byte j"
    if "j < 4 * trap_count sz allocSize" for j
    using that trap_count_le [of sz allocSize] by (simp add: set_trap_apply)
  then show ?thesis by (simp add: check_iff)
qed

lemma write_trap_detects_exactly_witness:
  "(let m = set_out_of_bounds_write_trap 100 3 16 (\<lambda>_. 0) in \<not> check_out_of_bounds_write_trap 100 3 16 (m(104 := 0)))"
proof -
  have "1 < 4 * trap_count 3 16" by code_simp
  moreover have "set_out_of_bounds_write_trap 100 3 16 (\<lambda>_. 0) (100 + 3 + word_of_nat 1) \<noteq> 0" by code_simp
  ultimately have "\<exists>j < 4 * trap_count 3 16. ((set_out_of_bounds_write_trap 100 3 16 (\<lambda>_. 0))(104 := 0)) (100 + 3 + word_of_nat j)
      \<noteq> set_out_of_bounds_write_trap 100 3 16 (\<lambda>_. 0) (100 + 3 + word_of_nat j)"
    by (intro exI [of _ 1]) simp
  then show ?thesis
    unfolding Let_def by (subst write_trap_detects_exactly [where m = "\<lambda>_. 0"]) blast
qed

text \<open>
  Setting the trap changes only bytes behind the object and inside the allocation, at most
  16 of them.
\<close>

theorem write_trap_stays_inside:
  assumes "sz \<le> allocSize" "set_out_of_bounds_write_trap p sz allocSize m q \<noteq> m q"
  shows "\<exists>j. q = p + sz + word_of_nat j \<and> j < 16 \<and> unat sz + j < unat allocSize"
  using set_trap_inside [OF assms] .

lemma write_trap_stays_inside_witness:
  "(\<exists>j. 103 = 100 + 3 + (word_of_nat j :: size_t) \<and> j < 16 \<and> unat (3 :: size_t) + j < unat (16 :: size_t))
    \<and> set_out_of_bounds_write_trap 100 3 16 (\<lambda>_. 0) 103 = 0xEF"
proof -
  have e: "set_out_of_bounds_write_trap 100 3 16 (\<lambda>_. 0) 103 = 0xEF" by code_simp
  then have "set_out_of_bounds_write_trap 100 3 16 (\<lambda>_. 0) 103 \<noteq> (\<lambda>_. 0 :: byte) 103" by simp
  from write_trap_stays_inside [OF _ this] e show ?thesis by simp
qed

end
