(* ===== verification/Allocator.thy ===== *)
theory Allocator
  imports Write_Trap
begin

text \<open>
  The contract between an allocator and its client. Every allocator of the library has the member
  functions \<^verbatim>\<open>allocate(n)\<close> and \<^verbatim>\<open>deallocate(ptr, n)\<close>, where \<^verbatim>\<open>n\<close> counts elements; the locale
  states what they promise, in terms of the addresses that are in use and of their contents.
  The second part is the step from an allocator of bytes to one of elements, which all allocators
  of \<^verbatim>\<open>include/patton/memory.hpp\<close> take in the same way.
\<close>

section \<open>The contract\<close>

text \<open>
  \<^verbatim>\<open>owned s\<close> are the addresses in use. An allocation at \<^verbatim>\<open>p\<close> of \<^verbatim>\<open>n\<close> elements occupies
  \<^verbatim>\<open>extent s p n\<close>, which contains the bytes of the elements and what the allocator keeps
  for itself, such as a write trap; it is \<^verbatim>\<open>intact\<close> as long as nobody damages the latter.
\<close>

locale allocator =
  fixes element_size :: size_t
    and alloc :: "size_t \<Rightarrow> 's \<Rightarrow> size_t res \<times> 's"
    and dealloc :: "size_t \<Rightarrow> size_t \<Rightarrow> 's \<Rightarrow> unit res \<times> 's"
    and mem_of :: "'s \<Rightarrow> memory"
    and set_mem :: "memory \<Rightarrow> 's \<Rightarrow> 's"
    and owned :: "'s \<Rightarrow> size_t set"
    and intact :: "'s \<Rightarrow> size_t \<Rightarrow> size_t \<Rightarrow> bool"
    and extent :: "'s \<Rightarrow> size_t \<Rightarrow> size_t \<Rightarrow> size_t set"
  assumes mem_write [simp]: "mem_of (set_mem m s) = m"
    and owned_write [simp]: "owned (set_mem m s) = owned s"
    and intactD: "intact s p n \<Longrightarrow> p \<noteq> 0 \<and> unat p + unat n * unat element_size < 2 ^ 64
      \<and> object_bytes p (n * element_size) \<subseteq> extent s p n \<and> extent s p n \<subseteq> owned s"
    and alloc_Inr: "alloc n s = (Inr p, s') \<Longrightarrow> intact s' p n \<and> extent s' p n \<inter> owned s = {}
      \<and> owned s' = owned s \<union> extent s' p n"
    and alloc_Inl: "alloc n s = (Inl e, s') \<Longrightarrow> owned s' = owned s"
    and alloc_frame: "alloc n s = (r, s') \<Longrightarrow> q \<in> owned s \<Longrightarrow> mem_of s' q = mem_of s q"
    and alloc_intact: "alloc n s = (r, s') \<Longrightarrow> intact s p k \<Longrightarrow> intact s' p k \<and> extent s' p k = extent s p k"
    and write_intact: "intact s p n \<Longrightarrow>
      \<forall>q \<in> extent s p n - object_bytes p (n * element_size). m q = mem_of s q \<Longrightarrow>
      intact (set_mem m s) p n \<and> extent (set_mem m s) p n = extent s p n"
    and dealloc_Inr: "intact s p n \<Longrightarrow> \<exists>s'. dealloc p n s = (Inr (), s')
      \<and> owned s' = owned s - extent s p n \<and> (\<forall>q \<in> owned s'. mem_of s' q = mem_of s q)"
    and dealloc_intact: "intact s p n \<Longrightarrow> intact s q k \<Longrightarrow> extent s p n \<inter> extent s q k = {} \<Longrightarrow>
      dealloc p n s = (r', s') \<Longrightarrow> intact s' q k \<and> extent s' q k = extent s q k"
begin

text \<open>Two allocations do not overlap, and neither disturbs the other.\<close>

lemma second_alloc:
  assumes "intact s p n" "alloc k s = (Inr q, s')"
  shows "intact s' p n" "intact s' q k" "extent s' p n \<inter> extent s' q k = {}"
    "object_bytes p (n * element_size) \<inter> object_bytes q (k * element_size) = {}"
proof -
  note a = alloc_Inr [OF assms(2)] and i = alloc_intact [OF assms(2,1)]
  show 1: "intact s' p n" "intact s' q k" using a i by auto
  show 2: "extent s' p n \<inter> extent s' q k = {}" using a i intactD [OF assms(1)] by auto
  then show "object_bytes p (n * element_size) \<inter> object_bytes q (k * element_size) = {}"
    using intactD [OF 1(1)] intactD [OF 1(2)] by blast
qed

lemma alloc_keeps_contents:
  assumes "intact s p n" "alloc k s = (r, s')" "a \<in> object_bytes p (n * element_size)"
  shows "mem_of s' a = mem_of s a"
  using alloc_frame [OF assms(2)] intactD [OF assms(1)] assms(3) by blast

lemma dealloc_keeps_contents:
  assumes "intact s p n" "intact s q k" "extent s p n \<inter> extent s q k = {}"
  shows "\<exists>s'. dealloc p n s = (Inr (), s') \<and> intact s' q k \<and> extent s' q k = extent s q k
    \<and> owned s' = owned s - extent s p n
    \<and> (\<forall>a \<in> object_bytes q (k * element_size). mem_of s' a = mem_of s a)"
proof -
  obtain s' where s': "dealloc p n s = (Inr (), s')" "owned s' = owned s - extent s p n"
      "\<forall>a \<in> owned s'. mem_of s' a = mem_of s a"
    using dealloc_Inr [OF assms(1)] by blast
  have "object_bytes q (k * element_size) \<subseteq> owned s'" using s'(2) intactD [OF assms(2)] assms(3) by blast
  then show ?thesis using s' dealloc_intact [OF assms s'(1)] by blast
qed

text \<open>An allocation whose object was written is released without a trace.\<close>

lemma one_life:
  assumes p: "alloc n s = (Inr p, s1)"
    and m1: "\<And>a. a \<notin> object_bytes p (n * element_size) \<Longrightarrow> m1 a = mem_of s1 a"
  shows "\<exists>s3. dealloc p n (set_mem m1 s1) = (Inr (), s3) \<and> owned s3 = owned s
    \<and> object_bytes p (n * element_size) \<inter> owned s = {} \<and> (\<forall>a \<in> owned s. mem_of s3 a = mem_of s a)"
proof -
  note a1 = alloc_Inr [OF p]
  have w: "intact (set_mem m1 s1) p n" "extent (set_mem m1 s1) p n = extent s1 p n"
    using write_intact [of s1 p n m1] a1 m1 by auto
  have o: "object_bytes p (n * element_size) \<inter> owned s = {}" using a1 intactD [of s1 p n] by blast
  obtain s3 where s3: "dealloc p n (set_mem m1 s1) = (Inr (), s3)" "owned s3 = owned s1 - extent s1 p n"
      "\<forall>a \<in> owned s3. mem_of s3 a = m1 a"
    using dealloc_Inr [OF w(1)] w(2) by auto
  have "owned s3 = owned s" using s3(2) a1 by auto
  moreover have "m1 a = mem_of s a" if "a \<in> owned s" for a
    using m1 [of a] o that alloc_frame [OF p that] by auto
  ultimately show ?thesis using s3 o by auto
qed

text \<open>
  The life of two overlapping allocations: allocate \<^verbatim>\<open>p\<close>, store an object there, allocate \<^verbatim>\<open>q\<close>, store
  another one, release \<^verbatim>\<open>p\<close> and then \<^verbatim>\<open>q\<close>. The contents of \<^verbatim>\<open>q\<close> survive, and nothing is left.
\<close>

lemma two_lives:
  assumes p: "alloc n s = (Inr p, s1)"
    and m1: "\<And>a. a \<notin> object_bytes p (n * element_size) \<Longrightarrow> m1 a = mem_of s1 a"
    and q: "alloc k (set_mem m1 s1) = (Inr q, s2)"
    and m2: "\<And>a. a \<notin> object_bytes q (k * element_size) \<Longrightarrow> m2 a = mem_of s2 a"
  shows "\<exists>s3 s4. dealloc p n (set_mem m2 s2) = (Inr (), s3) \<and> dealloc q k s3 = (Inr (), s4)
    \<and> object_bytes p (n * element_size) \<inter> object_bytes q (k * element_size) = {}
    \<and> (\<forall>a \<in> object_bytes p (n * element_size). mem_of s2 a = m1 a)
    \<and> (\<forall>a \<in> object_bytes q (k * element_size). mem_of s3 a = m2 a) \<and> owned s4 = owned s"
proof -
  note a1 = alloc_Inr [OF p]
  have w1: "intact (set_mem m1 s1) p n" "extent (set_mem m1 s1) p n = extent s1 p n"
    using write_intact [of s1 p n m1] a1 m1 by auto
  note a2 = alloc_Inr [OF q] and b = second_alloc [OF w1(1) q]
  have e2: "extent s2 p n = extent s1 p n" using alloc_intact [OF q w1(1)] w1(2) by simp
  have keep: "m2 a = mem_of s2 a" if "a \<in> extent s2 p n" for a
  proof (rule m2)
    show "a \<notin> object_bytes q (k * element_size)" using that b(3) intactD [OF b(2)] by blast
  qed
  have w2p: "intact (set_mem m2 s2) p n" "extent (set_mem m2 s2) p n = extent s2 p n"
    using write_intact [OF b(1), of m2] keep by auto
  have w2q: "intact (set_mem m2 s2) q k" "extent (set_mem m2 s2) q k = extent s2 q k"
    using write_intact [OF b(2), of m2] m2 by auto
  obtain s3 where s3: "dealloc p n (set_mem m2 s2) = (Inr (), s3)" "intact s3 q k" "extent s3 q k = extent s2 q k"
      "owned s3 = owned s2 - extent s2 p n" "\<forall>a \<in> object_bytes q (k * element_size). mem_of s3 a = m2 a"
    using dealloc_keeps_contents [OF w2p(1) w2q(1)] b(3) w2p(2) w2q(2) by auto
  obtain s4 where s4: "dealloc q k s3 = (Inr (), s4)" "owned s4 = owned s3 - extent s3 q k"
    using dealloc_Inr [OF s3(2)] by blast
  have "owned s4 = owned s" using s4(2) s3(3,4) a2 e2 a1 by auto
  moreover have "\<forall>a \<in> object_bytes p (n * element_size). mem_of s2 a = m1 a"
    using alloc_keeps_contents [OF w1(1) q] by simp
  ultimately show ?thesis using s3 s4 b(4) by auto
qed

end

section \<open>From bytes to elements\<close>

text \<open>
  \<^verbatim>\<open>allocate(n)\<close> and \<^verbatim>\<open>deallocate(ptr, n)\<close> of \<^verbatim>\<open>page_allocator<T>\<close> and its siblings: check the
  number of elements against the maximum, multiply it by \<^verbatim>\<open>sizeof(T)\<close>, and call the function
  for bytes.
\<close>

definition typed_allocate :: "size_t \<Rightarrow> (size_t \<Rightarrow> 's \<Rightarrow> size_t res \<times> 's) \<Rightarrow> size_t \<Rightarrow> 's \<Rightarrow> size_t res \<times> 's" where
  "typed_allocate sizeof_T alloc n s =
     (if n \<ge> - 1 div sizeof_T then (Inl BadAlloc, s)
      else let nbData = n * sizeof_T in alloc nbData s)"

definition typed_deallocate ::
  "size_t \<Rightarrow> (size_t \<Rightarrow> size_t \<Rightarrow> 's \<Rightarrow> unit res \<times> 's) \<Rightarrow> size_t \<Rightarrow> size_t \<Rightarrow> 's \<Rightarrow> unit res \<times> 's" where
  "typed_deallocate sizeof_T dealloc p n s =
     (let nbData = n * sizeof_T in dealloc p nbData s)"

lemma element_count_no_overflow:
  assumes "\<not> n \<ge> (- 1 :: size_t) div d"
  shows "unat n * unat d < 2 ^ 64" "unat (n * d) = unat n * unat d"
proof -
  have "unat n < (2 ^ 64 - 1) div unat d"
    using assms by (simp only: not_le word_less_nat_alt unat_div unat_max_size_t)
  then have "unat n * unat d \<le> (2 ^ 64 - 1) div unat d * unat d" by (intro mult_right_mono) simp_all
  also have "\<dots> \<le> 2 ^ 64 - 1" by simp
  finally show 1: "unat n * unat d < 2 ^ 64" by simp
  then show "unat (n * d) = unat n * unat d" by (rule unat_mult_no_wrap)
qed

text \<open>An allocation of elements is an allocation of that many bytes, if the multiplication was exact.\<close>

definition typed_intact :: "size_t \<Rightarrow> ('s \<Rightarrow> size_t \<Rightarrow> size_t \<Rightarrow> bool) \<Rightarrow> 's \<Rightarrow> size_t \<Rightarrow> size_t \<Rightarrow> bool" where
  "typed_intact sizeof_T intact s p n \<longleftrightarrow> \<not> n \<ge> - 1 div sizeof_T \<and> intact s p (n * sizeof_T)"

definition typed_extent :: "size_t \<Rightarrow> ('s \<Rightarrow> size_t \<Rightarrow> size_t \<Rightarrow> size_t set) \<Rightarrow> 's \<Rightarrow> size_t \<Rightarrow> size_t \<Rightarrow> size_t set" where
  "typed_extent sizeof_T extent s p n = extent s p (n * sizeof_T)"

lemmas typed_defs = typed_allocate_def typed_deallocate_def typed_intact_def typed_extent_def Let_def

locale byte_allocator = allocator 1 alloc dealloc mem_of set_mem owned intact extent
  for alloc :: "size_t \<Rightarrow> 's \<Rightarrow> size_t res \<times> 's" and dealloc mem_of set_mem owned intact extent +
  fixes sizeof_T :: size_t

sublocale byte_allocator \<subseteq> typed: allocator sizeof_T "typed_allocate sizeof_T alloc"
  "typed_deallocate sizeof_T dealloc" mem_of set_mem owned "typed_intact sizeof_T intact" "typed_extent sizeof_T extent"
proof (unfold_locales, goal_cases)
  case (3 s p n)
  then have "\<not> n \<ge> - 1 div sizeof_T" "intact s p (n * sizeof_T)" by (simp_all add: typed_defs)
  then show ?case
    using intactD [of s p "n * sizeof_T"] by (simp add: typed_extent_def element_count_no_overflow(2))
next
  case (4 n s p s')
  then show ?case using alloc_Inr [of "n * sizeof_T" s p s'] by (auto simp: typed_defs split: if_splits)
next
  case (5 n s e s')
  then show ?case using alloc_Inl [of "n * sizeof_T" s e s'] by (auto simp: typed_defs split: if_splits)
next
  case (6 n s r s' q)
  then show ?case using alloc_frame [of "n * sizeof_T" s r s' q] by (auto simp: typed_defs split: if_splits)
next
  case (7 n s r s' p k)
  then show ?case
    using alloc_intact [of "n * sizeof_T" s r s' p "k * sizeof_T"] by (auto simp: typed_defs split: if_splits)
next
  case (8 s p n m)
  then show ?case using write_intact [of s p "n * sizeof_T" m] by (simp add: typed_defs)
next
  case (9 s p n)
  then show ?case using dealloc_Inr [of s p "n * sizeof_T"] by (simp add: typed_defs)
next
  case (10 s p n q k r s')
  then show ?case
    using dealloc_intact [of s p "n * sizeof_T" q "k * sizeof_T" r s'] by (simp add: typed_defs)
qed simp_all

end
