(* ===== verification/Construct.thy ===== *)
theory Construct
  imports Allocator
begin

text \<open>
  Construction of objects in allocated memory and its undoing (\<^verbatim>\<open>allocate\<close>, \<^verbatim>\<open>allocate_array\<close> of
  \<^verbatim>\<open>include/patton/detail/memory.hpp\<close>, \<^verbatim>\<open>transaction_t\<close> of \<^verbatim>\<open>include/patton/detail/transaction.hpp\<close>,
  \<^verbatim>\<open>allocator_deleter\<close> and \<^verbatim>\<open>allocate_unique\<close> of \<^verbatim>\<open>include/patton/memory.hpp\<close>). The element's
  constructor is a parameter that says which of its calls throw. Object lifetimes are
  part of the state: constructing an object where one lives, or destroying one where none lives,
  is undefined behaviour, so that a theorem excludes it.
\<close>

section \<open>Objects\<close>

record 's objects =
  store :: 's              \<comment> \<open>the state of the allocator\<close>
  live :: "size_t set"     \<comment> \<open>the addresses of the objects that live\<close>
  constructions :: nat     \<comment> \<open>how many constructor calls there have been\<close>

definition construct :: "(nat \<Rightarrow> bool) \<Rightarrow> size_t \<Rightarrow> 's objects \<Rightarrow> unit res \<times> 's objects" where
  "construct throws p o1 =
     (let o2 = o1\<lparr>constructions := constructions o1 + 1\<rparr> in
      if p \<in> live o1 then (Inl UndefinedBehaviour, o1)
      else if throws (constructions o1) then (Inl (ElementException (constructions o1)), o2)
      else (Inr (), o2\<lparr>live := insert p (live o1)\<rparr>))"

definition destroy :: "size_t \<Rightarrow> 's objects \<Rightarrow> unit res \<times> 's objects" where
  "destroy p o1 =
     (if p \<notin> live o1 then (Inl UndefinedBehaviour, o1) else (Inr (), o1\<lparr>live := live o1 - {p}\<rparr>))"

text \<open>Calls of the allocator.\<close>

definition on_store :: "('s \<Rightarrow> 'a res \<times> 's) \<Rightarrow> 's objects \<Rightarrow> 'a res \<times> 's objects" where
  "on_store f o1 = (let (r, s) = f (store o1) in (r, o1\<lparr>store := s\<rparr>))"

section \<open>Transactions\<close>

text \<open>
  The failures that unwind the stack, so that destructors run; the others end the program.
\<close>

fun is_exception :: "failure \<Rightarrow> bool" where
  "is_exception Terminated = False"
| "is_exception ContractViolation = False"
| "is_exception UndefinedBehaviour = False"
| "is_exception _ = True"

text \<open>
  \<^verbatim>\<open>auto transaction = make_transaction(enableRollback, rollbackFunc); body; transaction.commit();\<close>
  When the body throws, the destructor of the transaction rolls back. The rollback runs in a
  destructor, so an exception that leaves it ends the program.
\<close>

definition transaction ::
  "bool \<Rightarrow> ('o \<Rightarrow> unit res \<times> 'o) \<Rightarrow> ('o \<Rightarrow> 'a res \<times> 'o) \<Rightarrow> 'o \<Rightarrow> 'a res \<times> 'o" where
  "transaction enableRollback rollback body o1 =
     (case body o1 of
        (Inr x, o2) \<Rightarrow> (Inr x, o2)
      | (Inl e, o2) \<Rightarrow>
          if is_exception e \<and> enableRollback then
            (case rollback o2 of
               (Inr _, o3) \<Rightarrow> (Inl e, o3)
             | (Inl e', o3) \<Rightarrow> (Inl (if is_exception e' then Terminated else e'), o3))
          else (Inl e, o2))"

section \<open>Loops over elements\<close>

text \<open>
  The addresses that a loop goes through are a list. A loop of constructor calls counts them in
  its loop variable, which the rollback refers to.
\<close>

fun construct_loop :: "(nat \<Rightarrow> bool) \<Rightarrow> size_t list \<Rightarrow> nat \<times> 's objects \<Rightarrow> unit res \<times> nat \<times> 's objects" where
  "construct_loop throws [] (i, o1) = (Inr (), i, o1)"
| "construct_loop throws (a # as) (i, o1) =
     (case construct throws a o1 of
        (Inl e, o2) \<Rightarrow> (Inl e, i, o2)
      | (Inr _, o2) \<Rightarrow> construct_loop throws as (i + 1, o2))"

fun destroy_loop :: "size_t list \<Rightarrow> 's objects \<Rightarrow> unit res \<times> 's objects" where
  "destroy_loop [] o1 = (Inr (), o1)"
| "destroy_loop (a # as) o1 =
     (case destroy a o1 of
        (Inl e, o2) \<Rightarrow> (Inl e, o2)
      | (Inr _, o2) \<Rightarrow> destroy_loop as o2)"

definition then_do :: "('o \<Rightarrow> unit res \<times> 'o) \<Rightarrow> ('o \<Rightarrow> 'a res \<times> 'o) \<Rightarrow> 'o \<Rightarrow> 'a res \<times> 'o" where
  "then_do f g o1 = (case f o1 of (Inl e, o2) \<Rightarrow> (Inl e, o2) | (Inr _, o2) \<Rightarrow> g o2)"

section \<open>Single objects and arrays\<close>

definition element_address :: "size_t \<Rightarrow> size_t \<Rightarrow> nat \<Rightarrow> size_t" where
  "element_address sz p i = p + word_of_nat i * sz"

definition elements :: "size_t \<Rightarrow> size_t \<Rightarrow> nat \<Rightarrow> size_t list" where
  "elements sz p n = map (element_address sz p) [0..<n]"

definition allocate ::
  "bool \<Rightarrow> (nat \<Rightarrow> bool) \<Rightarrow> (size_t \<Rightarrow> 's \<Rightarrow> size_t res \<times> 's) \<Rightarrow> (size_t \<Rightarrow> size_t \<Rightarrow> 's \<Rightarrow> unit res \<times> 's) \<Rightarrow>
     's objects \<Rightarrow> size_t res \<times> 's objects" where
  "allocate isNothrow throws alloc dealloc o1 =
     (case on_store (alloc 1) o1 of
        (Inl e, o2) \<Rightarrow> (Inl e, o2)
      | (Inr p, o2) \<Rightarrow>
          (case transaction (\<not> isNothrow) (on_store (dealloc p 1)) (construct throws p) o2 of
             (Inl e, o3) \<Rightarrow> (Inl e, o3)
           | (Inr _, o3) \<Rightarrow> (Inr p, o3)))"

text \<open>
  \<^verbatim>\<open>allocate_array\<close>, with \<^verbatim>\<open>sz\<close> for \<^verbatim>\<open>sizeof(T)\<close>. A number of elements that is negative as a
  \<^verbatim>\<open>ptrdiff_t\<close> would let the loop variable overflow.
\<close>

definition allocate_array ::
  "bool \<Rightarrow> (nat \<Rightarrow> bool) \<Rightarrow> (size_t \<Rightarrow> 's \<Rightarrow> size_t res \<times> 's) \<Rightarrow> (size_t \<Rightarrow> size_t \<Rightarrow> 's \<Rightarrow> unit res \<times> 's) \<Rightarrow>
     size_t \<Rightarrow> size_t \<Rightarrow> 's objects \<Rightarrow> size_t res \<times> 's objects" where
  "allocate_array isNothrow throws alloc dealloc sz sizeC o1 =
     (case on_store (alloc sizeC) o1 of
        (Inl e, o2) \<Rightarrow> (Inl e, o2)
      | (Inr p, o2) \<Rightarrow>
          if unat sizeC \<ge> 2 ^ 63 then (Inl UndefinedBehaviour, o2)
          else
            (case transaction (\<not> isNothrow)
                (\<lambda>(i, o3). let (r, o4) = then_do (destroy_loop (rev (elements sz p i))) (on_store (dealloc p sizeC)) o3 in (r, i, o4))
                (construct_loop throws (elements sz p (unat sizeC))) (0, o2) of
               (Inl e, _, o3) \<Rightarrow> (Inl e, o3)
             | (Inr _, _, o3) \<Rightarrow> (Inr p, o3)))"

text \<open>
  \<^verbatim>\<open>allocator_deleter<T, A>::operator ()\<close>, and the one for arrays of dynamic or fixed size. They are
  \<^verbatim>\<open>noexcept\<close>.
\<close>

definition delete_object ::
  "(size_t \<Rightarrow> size_t \<Rightarrow> 's \<Rightarrow> unit res \<times> 's) \<Rightarrow> size_t \<Rightarrow> 's objects \<Rightarrow> unit res \<times> 's objects" where
  "delete_object dealloc p = then_do (destroy p) (on_store (dealloc p 1))"

definition delete_array ::
  "(size_t \<Rightarrow> size_t \<Rightarrow> 's \<Rightarrow> unit res \<times> 's) \<Rightarrow> size_t \<Rightarrow> size_t \<Rightarrow> size_t \<Rightarrow> 's objects \<Rightarrow> unit res \<times> 's objects" where
  "delete_array dealloc sz n p =
     then_do (destroy_loop (elements sz p (unat n))) (on_store (dealloc p n))"

text \<open>The result of \<^verbatim>\<open>allocate_unique\<close>: the pointer and what its deleter holds.\<close>

datatype unique = UniqueObject size_t | UniqueArray size_t size_t

definition allocate_unique_object ::
  "bool \<Rightarrow> (nat \<Rightarrow> bool) \<Rightarrow> (size_t \<Rightarrow> 's \<Rightarrow> size_t res \<times> 's) \<Rightarrow> (size_t \<Rightarrow> size_t \<Rightarrow> 's \<Rightarrow> unit res \<times> 's) \<Rightarrow>
     's objects \<Rightarrow> unique res \<times> 's objects" where
  "allocate_unique_object isNothrow throws alloc dealloc o1 =
     (let (r, o2) = allocate isNothrow throws alloc dealloc o1 in (res_bind r (\<lambda>p. Inr (UniqueObject p)), o2))"

definition allocate_unique_array ::
  "bool \<Rightarrow> (nat \<Rightarrow> bool) \<Rightarrow> (size_t \<Rightarrow> 's \<Rightarrow> size_t res \<times> 's) \<Rightarrow> (size_t \<Rightarrow> size_t \<Rightarrow> 's \<Rightarrow> unit res \<times> 's) \<Rightarrow>
     size_t \<Rightarrow> size_t \<Rightarrow> 's objects \<Rightarrow> unique res \<times> 's objects" where
  "allocate_unique_array isNothrow throws alloc dealloc sz n o1 =
     (let (r, o2) = allocate_array isNothrow throws alloc dealloc sz n o1 in (res_bind r (\<lambda>p. Inr (UniqueArray p n)), o2))"

fun delete_unique :: "(size_t \<Rightarrow> size_t \<Rightarrow> 's \<Rightarrow> unit res \<times> 's) \<Rightarrow> size_t \<Rightarrow> unique \<Rightarrow> 's objects \<Rightarrow> unit res \<times> 's objects" where
  "delete_unique dealloc sz (UniqueObject p) = delete_object dealloc p"
| "delete_unique dealloc sz (UniqueArray p n) = delete_array dealloc sz n p"

section \<open>Lemmas on the loops\<close>

text \<open>A run of constructor calls: either all of them succeed, or one throws and those before it stand.\<close>

lemma construct_loop_cases:
  assumes "distinct as" "set as \<inter> live o1 = {}"
  obtains (all) o2 where "construct_loop throws as (i, o1) = (Inr (), i + length as, o2)"
      "store o2 = store o1" "live o2 = live o1 \<union> set as"
  | (some) e k o2 where "construct_loop throws as (i, o1) = (Inl e, i + k, o2)" "k < length as"
      "\<exists>c. e = ElementException c \<and> throws c" "store o2 = store o1" "live o2 = live o1 \<union> set (take k as)"
proof -
  have "(\<exists>o2. construct_loop throws as (i, o1) = (Inr (), i + length as, o2)
      \<and> store o2 = store o1 \<and> live o2 = live o1 \<union> set as)
    \<or> (\<exists>e k o2. construct_loop throws as (i, o1) = (Inl e, i + k, o2) \<and> k < length as
      \<and> (\<exists>c. e = ElementException c \<and> throws c) \<and> store o2 = store o1 \<and> live o2 = live o1 \<union> set (take k as))"
    using assms
  proof (induction as arbitrary: i o1)
    case (Cons a as)
    have fresh: "a \<notin> live o1" using Cons.prems(2) by simp
    show ?case
    proof (cases "throws (constructions o1)")
      case True
      then show ?thesis using fresh by (intro disjI2) (auto simp: construct_def intro!: exI [of _ 0])
    next
      case False
      let ?o2 = "o1\<lparr>constructions := constructions o1 + 1, live := insert a (live o1)\<rparr>"
      have step: "construct_loop throws (a # as) (i, o1) = construct_loop throws as (i + 1, ?o2)"
        using False fresh by (simp add: construct_def)
      have "distinct as" "set as \<inter> live ?o2 = {}" using Cons.prems by auto
      from Cons.IH [OF this, of "i + 1"] show ?thesis
      proof (elim disjE exE conjE)
        fix e k o2 c
        assume "construct_loop throws as (i + 1, ?o2) = (Inl e, i + 1 + k, o2)" "k < length as"
          "e = ElementException c" "throws c" "store o2 = store ?o2" "live o2 = live ?o2 \<union> set (take k as)"
        then show ?thesis
          unfolding step by (intro disjI2 exI [of _ e] exI [of _ "Suc k"] exI [of _ o2]) simp
      qed (unfold step, auto)
    qed
  qed simp
  then show thesis using all some by metis
qed

lemma destroy_loop_ok:
  assumes "distinct as" "set as \<subseteq> live o1"
  shows "destroy_loop as o1 = (Inr (), o1\<lparr>live := live o1 - set as\<rparr>)"
  using assms
proof (induction as arbitrary: o1)
  case (Cons a as)
  let ?o2 = "o1\<lparr>live := live o1 - {a}\<rparr>"
  have "destroy_loop as ?o2 = (Inr (), ?o2\<lparr>live := live ?o2 - set as\<rparr>)"
    using Cons.prems by (intro Cons.IH) auto
  moreover have "live o1 - {a} - set as = live o1 - set (a # as)" by auto
  ultimately show ?case using Cons.prems(2) by (simp add: destroy_def)
qed simp

lemma element_address_unat:
  assumes "unat p + n * unat sz < 2 ^ 64" "i \<le> n"
  shows "unat (element_address sz p i) = unat p + i * unat sz"
proof -
  have "i * unat sz \<le> n * unat sz" using assms(2) by simp
  then have b: "unat p + i * unat sz < 2 ^ 64" using assms(1) by linarith
  show ?thesis
  proof (cases "sz = 0")
    case False
    then have "unat sz \<noteq> 0" by (simp add: unat_eq_zero)
    then have "i \<le> i * unat sz" by simp
    then have lt: "i < 2 ^ 64" using b by linarith
    then have "unat (word_of_nat i :: size_t) = i" by (rule unat_of_nat_no_wrap)
    then show ?thesis using b by (simp add: element_address_def unat_add_no_wrap unat_mult_no_wrap)
  qed (simp add: element_address_def)
qed

lemma elements_ok:
  assumes "unat p + unat n * unat sz < 2 ^ 64" "sz \<noteq> 0"
  shows "distinct (elements sz p (unat n))" "set (elements sz p (unat n)) \<subseteq> object_bytes p (n * sz)"
    "length (elements sz p k) = k" "k \<le> unat n \<Longrightarrow> elements sz p k = take k (elements sz p (unat n))"
proof -
  have sz: "0 < unat sz" using assms(2) by (simp add: unat_gt_0)
  note u = element_address_unat [OF assms(1)]
  have "inj_on (element_address sz p) {0..<unat n}"
  proof (rule inj_onI)
    fix i j assume "i \<in> {0..<unat n}" "j \<in> {0..<unat n}" "element_address sz p i = element_address sz p j"
    then have "unat p + i * unat sz = unat p + j * unat sz" using u [of i] u [of j] by auto
    then show "i = j" using sz by simp
  qed
  then show "distinct (elements sz p (unat n))" by (simp add: elements_def distinct_map)
  have "unat (n * sz) = unat n * unat sz" using assms(1) by (simp add: unat_mult_no_wrap)
  moreover have "i * unat sz < unat n * unat sz" if "i < unat n" for i using that sz by simp
  ultimately show "set (elements sz p (unat n)) \<subseteq> object_bytes p (n * sz)"
    using u by (auto simp: elements_def object_bytes_def)
  show "length (elements sz p k) = k" by (simp add: elements_def)
  show "elements sz p k = take k (elements sz p (unat n))" if "k \<le> unat n"
    using that by (simp add: elements_def take_map)
qed

section \<open>Strong exception safety, from the contract of the allocator\<close>

context allocator
begin

text \<open>
  Objects at the addresses \<^verbatim>\<open>els\<close> of one allocation: destroying them and giving the memory back.
\<close>

lemma region_release:
  assumes "intact (store o1) p n" "distinct els" "set els \<subseteq> live o1"
  shows "\<exists>s. then_do (destroy_loop els) (on_store (dealloc p n)) o1
      = (Inr (), o1\<lparr>live := live o1 - set els, store := s\<rparr>)
    \<and> dealloc p n (store o1) = (Inr (), s) \<and> owned s = owned (store o1) - extent (store o1) p n"
proof -
  obtain s where "dealloc p n (store o1) = (Inr (), s)" "owned s = owned (store o1) - extent (store o1) p n"
    using dealloc_Inr [OF assms(1)] by blast
  then show ?thesis
    by (intro exI [of _ s]) (simp add: then_do_def on_store_def destroy_loop_ok [OF assms(2,3)])
qed

text \<open>
  Construction in new memory: complete, or stopped by an exception; then destroying what was
  constructed, in any order, and giving the memory back restores the state.
\<close>

lemma region_cases:
  assumes lo: "live o1 \<subseteq> owned (store o1)" and al: "alloc n (store o1) = (Inr p, s1)"
    and els: "distinct els" "set els \<subseteq> object_bytes p (n * element_size)"
  obtains (all) o2 where "construct_loop throws els (i, o1\<lparr>store := s1\<rparr>) = (Inr (), i + length els, o2)"
      "store o2 = s1" "live o2 = live o1 \<union> set els"
  | (some) e k o2 where "construct_loop throws els (i, o1\<lparr>store := s1\<rparr>) = (Inl e, i + k, o2)" "k < length els"
      "\<exists>c. e = ElementException c \<and> throws c"
      "\<And>ds. distinct ds \<Longrightarrow> set ds = set (take k els) \<Longrightarrow>
        \<exists>o3. then_do (destroy_loop ds) (on_store (dealloc p n)) o2 = (Inr (), o3)
          \<and> live o3 = live o1 \<and> owned (store o3) = owned (store o1)
          \<and> (\<forall>q j. intact (store o1) q j \<longrightarrow> intact (store o3) q j \<and> extent (store o3) q j = extent (store o1) q j)"
proof -
  have a: "intact s1 p n" "extent s1 p n \<inter> owned (store o1) = {}" "owned s1 = owned (store o1) \<union> extent s1 p n"
    using alloc_Inr [OF al] by auto
  have fresh: "set els \<inter> live (o1\<lparr>store := s1\<rparr>) = {}" using els(2) intactD [OF a(1)] a(2) lo by auto
  show thesis
  proof (cases rule: construct_loop_cases [OF els(1) fresh, of throws i])
    case (1 o2)
    then show thesis using all by simp
  next
    case (2 e k o2)
    have "\<exists>o3. then_do (destroy_loop ds) (on_store (dealloc p n)) o2 = (Inr (), o3)
          \<and> live o3 = live o1 \<and> owned (store o3) = owned (store o1)
          \<and> (\<forall>q j. intact (store o1) q j \<longrightarrow> intact (store o3) q j \<and> extent (store o3) q j = extent (store o1) q j)"
      if ds: "distinct ds" "set ds = set (take k els)" for ds
    proof -
      have i: "intact (store o2) p n" using a(1) 2(4) by simp
      have d: "set ds \<subseteq> live o2" using ds(2) 2(5) by simp
      obtain s where s: "then_do (destroy_loop ds) (on_store (dealloc p n)) o2
          = (Inr (), o2\<lparr>live := live o2 - set ds, store := s\<rparr>)" "dealloc p n s1 = (Inr (), s)"
          "owned s = owned (store o2) - extent (store o2) p n"
        using region_release [OF i ds(1) d] 2(4) by auto
      have "live o2 - set ds = live o1" using 2(5) ds(2) fresh set_take_subset [of k els] by auto
      moreover have "owned s = owned (store o1)" using s(3) 2(4) a(2,3) by auto
      moreover have "intact s q j \<and> extent s q j = extent (store o1) q j" if q: "intact (store o1) q j" for q j
      proof -
        have q1: "intact s1 q j" "extent s1 q j = extent (store o1) q j" using alloc_intact [OF al q] by auto
        then have "extent s1 p n \<inter> extent s1 q j = {}" using intactD [OF q] a(2) by blast
        then show ?thesis using dealloc_intact [OF a(1) q1(1) _ s(2)] q1(2) by simp
      qed
      ultimately show ?thesis using s(1) by auto
    qed
    then show thesis using some [of e k o2] 2(1-3) by simp
  qed
qed

text \<open>
  Objects live in memory that is in use. Then an array is allocated and constructed completely,
  or nothing has changed: the objects constructed before an exception are destroyed and the
  memory is given back.
\<close>

lemma allocate_array_cases:
  assumes lo: "live o1 \<subseteq> owned (store o1)" and sz: "element_size \<noteq> 0" and n: "unat n < 2 ^ 63"
    and nt: "isNothrow \<longrightarrow> (\<forall>k. \<not> throws k)"
  obtains (allocated) p o2 where "allocate_array isNothrow throws alloc dealloc element_size n o1 = (Inr p, o2)"
      "intact (store o2) p n" "extent (store o2) p n \<inter> owned (store o1) = {}"
      "owned (store o2) = owned (store o1) \<union> extent (store o2) p n"
      "distinct (elements element_size p (unat n))"
      "set (elements element_size p (unat n)) \<subseteq> extent (store o2) p n"
      "live o2 = live o1 \<union> set (elements element_size p (unat n))"
  | (failed) e o2 where "allocate_array isNothrow throws alloc dealloc element_size n o1 = (Inl e, o2)"
      "owned (store o2) = owned (store o1)" "live o2 = live o1"
      "(\<exists>c. e = ElementException c \<and> throws c) \<or> (\<exists>s'. alloc n (store o1) = (Inl e, s'))"
proof -
  obtain r s1 where r: "alloc n (store o1) = (r, s1)" by fastforce
  show thesis
  proof (cases r)
    case (Inl e)
    then show thesis using r alloc_Inl [of n "store o1" e s1]
      by (intro failed [of e "o1\<lparr>store := s1\<rparr>"]) (simp_all add: allocate_array_def on_store_def)
  next
    case (Inr p)
    let ?els = "elements element_size p (unat n)" and ?o = "o1\<lparr>store := s1\<rparr>"
    have a: "intact s1 p n" "extent s1 p n \<inter> owned (store o1) = {}" "owned s1 = owned (store o1) \<union> extent s1 p n"
      using alloc_Inr [of n "store o1" p s1] r Inr by auto
    have i: "unat p + unat n * unat element_size < 2 ^ 64" "object_bytes p (n * element_size) \<subseteq> extent s1 p n"
      using intactD [OF a(1)] by auto
    note el = elements_ok [OF i(1) sz]
    have al: "alloc n (store o1) = (Inr p, s1)" using r Inr by simp
    show thesis
    proof (cases rule: region_cases [OF lo al el(1,2), of throws 0])
      case (1 o2)
      show thesis
      proof (rule allocated [of p o2])
        show "allocate_array isNothrow throws alloc dealloc element_size n o1 = (Inr p, o2)"
          using al n 1(1) by (simp add: allocate_array_def on_store_def transaction_def)
        show "set ?els \<subseteq> extent (store o2) p n" using el(2) i(2) 1(2) by simp
      qed (use 1(2,3) a el(1) in simp_all)
    next
      case (2 e k o2)
      have "\<not> isNothrow" "is_exception e" using nt 2(3) by auto
      have k: "elements element_size p k = take k ?els" using 2(2) by (intro el(4)) (simp add: el(3))
      obtain o3 where o3: "then_do (destroy_loop (rev (elements element_size p k))) (on_store (dealloc p n)) o2 = (Inr (), o3)"
          "live o3 = live o1" "owned (store o3) = owned (store o1)"
        using 2(4) [of "rev (take k ?els)"] el(1) by (auto simp: k)
      have "allocate_array isNothrow throws alloc dealloc element_size n o1 = (Inl e, o3)"
        using al n 2(1) o3(1) \<open>\<not> isNothrow\<close> \<open>is_exception e\<close>
        by (simp add: allocate_array_def on_store_def transaction_def)
      then show thesis using failed o3(2,3) 2(3) by simp
    qed
  qed
qed

lemma delete_array_ok:
  assumes "intact (store o1) p n" "element_size \<noteq> 0" "set (elements element_size p (unat n)) \<subseteq> live o1"
  shows "\<exists>s. delete_array dealloc element_size n p o1
      = (Inr (), o1\<lparr>live := live o1 - set (elements element_size p (unat n)), store := s\<rparr>)
    \<and> owned s = owned (store o1) - extent (store o1) p n"
proof -
  have "unat p + unat n * unat element_size < 2 ^ 64" using intactD [OF assms(1)] by simp
  then have "distinct (elements element_size p (unat n))" using elements_ok(1) [OF _ assms(2)] by simp
  then show ?thesis using region_release [OF assms(1) _ assms(3)] by (auto simp: delete_array_def)
qed

text \<open>A \<^verbatim>\<open>unique_ptr\<close> to an array: what is allocated is deleted, and an exception leaves nothing behind.\<close>

lemma unique_array_life:
  assumes "live o1 \<subseteq> owned (store o1)" "element_size \<noteq> 0" "unat n < 2 ^ 63" "isNothrow \<longrightarrow> (\<forall>k. \<not> throws k)"
  shows "case allocate_unique_array isNothrow throws alloc dealloc element_size n o1 of
      (Inr u, o2) \<Rightarrow> \<exists>p o3. u = UniqueArray p n \<and> card (live o2 - live o1) = unat n
        \<and> live o1 \<subseteq> live o2 \<and> live o2 \<subseteq> owned (store o2)
        \<and> delete_unique dealloc element_size u o2 = (Inr (), o3)
        \<and> live o3 = live o1 \<and> owned (store o3) = owned (store o1)
    | (Inl e, o2) \<Rightarrow> live o2 = live o1 \<and> owned (store o2) = owned (store o1)
        \<and> ((\<exists>c. e = ElementException c \<and> throws c) \<or> (\<exists>s'. alloc n (store o1) = (Inl e, s')))"
proof (cases rule: allocate_array_cases [OF assms])
  case (1 p o2)
  let ?els = "set (elements element_size p (unat n))"
  have fresh: "?els \<inter> live o1 = {}" using 1(3,6) assms(1) by blast
  then have "live o2 - live o1 = ?els" using 1(7) by blast
  then have "card (live o2 - live o1) = unat n" using distinct_card [OF 1(5)] by (simp add: elements_def)
  moreover have "live o2 - ?els = live o1" using 1(7) fresh by blast
  moreover have "owned (store o2) - extent (store o2) p n = owned (store o1)" using 1(3,4) by blast
  moreover obtain s where "delete_array dealloc element_size n p o2 = (Inr (), o2\<lparr>live := live o2 - ?els, store := s\<rparr>)"
      "owned s = owned (store o2) - extent (store o2) p n"
    using delete_array_ok [OF 1(2) assms(2)] 1(7) by blast
  moreover have "live o2 \<subseteq> owned (store o2)" using 1(4,6,7) assms(1) by blast
  ultimately show ?thesis using 1(1,7) by (auto simp: allocate_unique_array_def)
next
  case (2 e o2)
  then show ?thesis by (simp add: allocate_unique_array_def)
qed

text \<open>A single object.\<close>

lemma unique_object_life:
  assumes lo: "live o1 \<subseteq> owned (store o1)" and sz: "element_size \<noteq> 0" and nt: "isNothrow \<longrightarrow> (\<forall>k. \<not> throws k)"
  shows "case allocate_unique_object isNothrow throws alloc dealloc o1 of
      (Inr u, o2) \<Rightarrow> \<exists>p o3. u = UniqueObject p \<and> p \<notin> live o1 \<and> live o2 = insert p (live o1)
        \<and> live o2 \<subseteq> owned (store o2)
        \<and> delete_unique dealloc element_size u o2 = (Inr (), o3)
        \<and> live o3 = live o1 \<and> owned (store o3) = owned (store o1)
    | (Inl e, o2) \<Rightarrow> live o2 = live o1 \<and> owned (store o2) = owned (store o1)
        \<and> ((\<exists>c. e = ElementException c \<and> throws c) \<or> (\<exists>s'. alloc 1 (store o1) = (Inl e, s')))"
proof -
  obtain r s1 where r: "alloc 1 (store o1) = (r, s1)" by fastforce
  show ?thesis
  proof (cases r)
    case (Inl e)
    then show ?thesis using r alloc_Inl [of 1 "store o1" e s1]
      by (simp add: allocate_unique_object_def allocate_def on_store_def)
  next
    case (Inr p)
    have a: "intact s1 p 1" "extent s1 p 1 \<inter> owned (store o1) = {}" "owned s1 = owned (store o1) \<union> extent s1 p 1"
      using alloc_Inr [of 1 "store o1" p s1] r Inr by auto
    have "p \<in> object_bytes p (1 * element_size)" using sz by (simp add: object_bytes_def unat_gt_0)
    then have p: "p \<in> extent s1 p 1" "p \<notin> live o1" using intactD [OF a(1)] a(2) lo by auto
    obtain s3 where s3: "dealloc p 1 s1 = (Inr (), s3)" "owned s3 = owned (store o1)"
      using dealloc_Inr [OF a(1)] a(2,3) by (metis Diff_Un Diff_cancel Diff_triv inf_commute Un_Diff Un_empty_right)
    show ?thesis
    proof (cases "throws (constructions o1)")
      case True
      then show ?thesis using r Inr p s3 nt
        by (auto simp: allocate_unique_object_def allocate_def on_store_def transaction_def construct_def)
    next
      case False
      then show ?thesis using r Inr p s3 a lo
        by (auto simp: allocate_unique_object_def allocate_def on_store_def transaction_def construct_def
            delete_object_def then_do_def destroy_def)
    qed
  qed
qed

end

end
