(* ===== verification/Heap_Alloc.thy ===== *)
theory Heap_Alloc
  imports Construct Alignment
begin

text \<open>
  The allocators on the heap of the language: \<^verbatim>\<open>aligned_alloc\<close> and \<^verbatim>\<open>aligned_free\<close> of
  \<^verbatim>\<open>src/src/memory.cpp\<close>, \<^verbatim>\<open>aligned_allocator<T, Alignment>\<close> and \<^verbatim>\<open>zero_init_allocator<T>\<close> of
  \<^verbatim>\<open>include/patton/memory.hpp\<close>. The heap is what the language says of it: the live blocks with the
  size and the alignment they were allocated with, and the contents of memory. Which address an
  allocation gets is a parameter, a choice that counts only if it is a legal one.
\<close>

section \<open>The heap\<close>

record heap =
  blocks :: "size_t \<Rightarrow> (size_t \<times> size_t) option"
  contents :: memory

definition set_contents :: "memory \<Rightarrow> heap \<Rightarrow> heap" where
  "set_contents m h = h\<lparr>contents := m\<rparr>"

text \<open>A block of no bytes has an address of its own.\<close>

definition block_bytes :: "size_t \<Rightarrow> size_t \<Rightarrow> size_t set" where
  "block_bytes p n = {q. unat p \<le> unat q \<and> unat q < unat p + max 1 (unat n)}"

definition heap_owned :: "heap \<Rightarrow> size_t set" where
  "heap_owned h = {q. \<exists>p n a. blocks h p = Some (n, a) \<and> q \<in> block_bytes p n}"

text \<open>An address that an allocation may get. No object is larger than \<^verbatim>\<open>PTRDIFF_MAX\<close> bytes.\<close>

definition legal :: "heap \<Rightarrow> size_t \<Rightarrow> size_t \<Rightarrow> size_t \<Rightarrow> bool" where
  "legal h n a p \<longleftrightarrow> p \<noteq> 0 \<and> unat a dvd unat p \<and> unat p + max 1 (unat n) < 2 ^ 64
     \<and> unat n < 2 ^ 63 \<and> block_bytes p n \<inter> heap_owned h = {}"

type_synonym heap_choice = "heap \<Rightarrow> size_t \<Rightarrow> size_t \<Rightarrow> size_t option"

text \<open>
  \<^verbatim>\<open>::operator new(size, align_val_t(alignment))\<close> and its \<^verbatim>\<open>::operator delete\<close>, which must be given
  the same size and alignment.
\<close>

definition operator_new :: "heap_choice \<Rightarrow> size_t \<Rightarrow> size_t \<Rightarrow> heap \<Rightarrow> size_t res \<times> heap" where
  "operator_new pick a n h =
     (case pick h n a of
        None \<Rightarrow> (Inl BadAlloc, h)
      | Some p \<Rightarrow> if legal h n a p then (Inr p, h\<lparr>blocks := (blocks h)(p \<mapsto> (n, a))\<rparr>) else (Inl BadAlloc, h))"

definition operator_delete :: "size_t \<Rightarrow> size_t \<Rightarrow> size_t \<Rightarrow> heap \<Rightarrow> unit res \<times> heap" where
  "operator_delete a p n h =
     (if blocks h p = Some (n, a) then (Inr (), h\<lparr>blocks := (blocks h)(p := None)\<rparr>) else (Inl UndefinedBehaviour, h))"

text \<open>\<^verbatim>\<open>std::calloc\<close> and \<^verbatim>\<open>std::free\<close>; the alignment is the fundamental one.\<close>

definition std_calloc :: "heap_choice \<Rightarrow> size_t \<Rightarrow> size_t \<Rightarrow> heap \<Rightarrow> size_t \<times> heap" where
  "std_calloc pick n sz h =
     (if unat n * unat sz < 2 ^ 64 then
        (case operator_new pick 16 (n * sz) h of
           (Inl e, h') \<Rightarrow> (0, h')
         | (Inr p, h') \<Rightarrow> (p, h'\<lparr>contents := (\<lambda>q. if q \<in> block_bytes p (n * sz) then 0 else contents h' q)\<rparr>))
      else (0, h))"

definition std_free :: "size_t \<Rightarrow> heap \<Rightarrow> unit res \<times> heap" where
  "std_free p h =
     (if blocks h p = None then (Inl UndefinedBehaviour, h)
      else (Inr (), h\<lparr>blocks := (blocks h)(p := None)\<rparr>))"

section \<open>The allocators\<close>

definition aligned_alloc :: "heap_choice \<Rightarrow> size_t \<Rightarrow> size_t \<Rightarrow> heap \<Rightarrow> size_t res \<times> heap" where
  "aligned_alloc pick n alignment h = operator_new pick alignment n h"

definition aligned_free :: "size_t \<Rightarrow> size_t \<Rightarrow> size_t \<Rightarrow> heap \<Rightarrow> unit res \<times> heap" where
  "aligned_free p n alignment h = operator_delete alignment p n h"

definition aligned_allocator_allocate ::
  "heap_choice \<Rightarrow> hardware_sizes \<Rightarrow> size_t \<Rightarrow> size_t \<Rightarrow> size_t \<Rightarrow> size_t \<Rightarrow> heap \<Rightarrow> size_t res \<times> heap" where
  "aligned_allocator_allocate pick hw alignment alignof_T sizeof_T n h =
     (let a = alignment_in_bytes hw (alignment OR alignof_T) in
      if n \<ge> - 1 div sizeof_T then (Inl BadAlloc, h)
      else let nbData = n * sizeof_T in aligned_alloc pick nbData a h)"

definition aligned_allocator_deallocate ::
  "hardware_sizes \<Rightarrow> size_t \<Rightarrow> size_t \<Rightarrow> size_t \<Rightarrow> size_t \<Rightarrow> size_t \<Rightarrow> heap \<Rightarrow> unit res \<times> heap" where
  "aligned_allocator_deallocate hw alignment alignof_T sizeof_T p n h =
     (let a = alignment_in_bytes hw (alignment OR alignof_T);
          nbData = n * sizeof_T
      in aligned_free p nbData a h)"

definition zero_init_allocate :: "heap_choice \<Rightarrow> size_t \<Rightarrow> size_t \<Rightarrow> heap \<Rightarrow> size_t res \<times> heap" where
  "zero_init_allocate pick sizeof_T n h =
     (let (mem, h') = std_calloc pick n sizeof_T h in
      if mem = 0 then (Inl BadAlloc, h') else (Inr mem, h'))"

definition zero_init_deallocate :: "size_t \<Rightarrow> size_t \<Rightarrow> heap \<Rightarrow> unit res \<times> heap" where
  "zero_init_deallocate p n h = std_free p h"

section \<open>They keep the allocator contract\<close>

definition heap_intact :: "size_t \<Rightarrow> heap \<Rightarrow> size_t \<Rightarrow> size_t \<Rightarrow> bool" where
  "heap_intact a h p n \<longleftrightarrow> blocks h p = Some (n, a) \<and> p \<noteq> 0 \<and> unat p + max 1 (unat n) < 2 ^ 64
     \<and> (\<forall>q k b. blocks h q = Some (k, b) \<longrightarrow> q \<noteq> p \<longrightarrow> block_bytes p n \<inter> block_bytes q k = {})"

definition heap_extent :: "heap \<Rightarrow> size_t \<Rightarrow> size_t \<Rightarrow> size_t set" where
  "heap_extent h p n = block_bytes p n"

lemma block_address: "p \<in> block_bytes p n"
  by (simp add: block_bytes_def)

lemma operator_new_Inr:
  assumes "operator_new pick a n h = (Inr p, h')"
  shows "legal h n a p" "h' = h\<lparr>blocks := (blocks h)(p \<mapsto> (n, a))\<rparr>"
  using assms by (auto simp: operator_new_def split: option.splits if_splits)

lemma operator_new_Inl: "operator_new pick a n h = (Inl e, h') \<Longrightarrow> h' = h"
  by (auto simp: operator_new_def split: option.splits if_splits)

lemma legal_fresh: "legal h n a p \<Longrightarrow> blocks h p = None"
proof (rule ccontr)
  assume l: "legal h n a p" and "blocks h p \<noteq> None"
  then obtain k b where "blocks h p = Some (k, b)" by auto
  then have "p \<in> heap_owned h" using block_address unfolding heap_owned_def by blast
  then show False using l block_address [of p n] by (auto simp: legal_def)
qed

lemma heap_new_intact:
  assumes l: "legal h n a p"
  shows "heap_intact a (h\<lparr>blocks := (blocks h)(p \<mapsto> (n, a))\<rparr>) p n"
    "heap_owned (h\<lparr>blocks := (blocks h)(p \<mapsto> (n, a))\<rparr>) = heap_owned h \<union> block_bytes p n"
proof -
  show "heap_intact a (h\<lparr>blocks := (blocks h)(p \<mapsto> (n, a))\<rparr>) p n"
    using l by (fastforce simp: heap_intact_def legal_def heap_owned_def)
  show "heap_owned (h\<lparr>blocks := (blocks h)(p \<mapsto> (n, a))\<rparr>) = heap_owned h \<union> block_bytes p n"
    using legal_fresh [OF l] by (auto simp: heap_owned_def split: if_splits) (metis option.distinct(1))
qed

lemma heap_keep_intact:
  assumes l: "legal h n a p" and i: "heap_intact b h q k"
  shows "heap_intact b (h\<lparr>blocks := (blocks h)(p \<mapsto> (n, a))\<rparr>) q k"
proof -
  have "block_bytes q k \<subseteq> heap_owned h" using i by (auto simp: heap_intact_def heap_owned_def)
  then have "block_bytes p n \<inter> block_bytes q k = {}" using l by (auto simp: legal_def)
  moreover have "q \<noteq> p" using legal_fresh [OF l] i by (auto simp: heap_intact_def)
  ultimately show ?thesis using i by (auto simp: heap_intact_def)
qed

lemma heap_delete:
  assumes i: "heap_intact a h p n"
  shows "heap_owned (h\<lparr>blocks := (blocks h)(p := None)\<rparr>) = heap_owned h - block_bytes p n"
proof (rule set_eqI)
  fix x
  have own: "blocks h p = Some (n, a)"
    and other: "\<And>q k b. blocks h q = Some (k, b) \<Longrightarrow> q \<noteq> p \<Longrightarrow> block_bytes p n \<inter> block_bytes q k = {}"
    using i by (auto simp: heap_intact_def)
  have "x \<in> heap_owned (h\<lparr>blocks := (blocks h)(p := None)\<rparr>)
      \<longleftrightarrow> (\<exists>q k b. q \<noteq> p \<and> blocks h q = Some (k, b) \<and> x \<in> block_bytes q k)"
    by (auto simp: heap_owned_def)
  also have "\<dots> \<longleftrightarrow> x \<in> heap_owned h - block_bytes p n"
    unfolding heap_owned_def using own other by fastforce
  finally show "x \<in> heap_owned (h\<lparr>blocks := (blocks h)(p := None)\<rparr>) \<longleftrightarrow> x \<in> heap_owned h - block_bytes p n" .
qed

lemma heap_delete_intact:
  assumes "heap_intact a h p n" "heap_intact b h q k" "block_bytes p n \<inter> block_bytes q k = {}"
  shows "heap_intact b (h\<lparr>blocks := (blocks h)(p := None)\<rparr>) q k"
proof -
  have "q \<noteq> p" using assms(3) block_address by blast
  then show ?thesis using assms(2) by (auto simp: heap_intact_def)
qed

interpretation heap: byte_allocator "operator_new pick a" "operator_delete a" contents set_contents
  heap_owned "heap_intact a" heap_extent sizeof_T
  for pick a sizeof_T
proof (unfold_locales, goal_cases)
  case (3 s p n)
  then show ?case
    by (auto simp: heap_intact_def heap_extent_def heap_owned_def object_bytes_def block_bytes_def)
next
  case (4 n s p s')
  then show ?case
    using operator_new_Inr [OF 4] heap_new_intact [of s n a p] by (auto simp: heap_extent_def legal_def)
next
  case (6 n s r s' q)
  then show ?case by (auto simp: operator_new_def split: option.splits if_splits)
next
  case (7 n s r s' p k)
  then show ?case using heap_keep_intact [of s n a _ a p k]
    by (auto simp: operator_new_def heap_extent_def split: option.splits if_splits)
next
  case (9 s p n)
  then show ?case using heap_delete [OF 9]
    by (simp add: operator_delete_def heap_extent_def) (simp add: heap_intact_def)
next
  case (10 s p n q k r s')
  then show ?case using heap_delete_intact [of a s p n a q k]
    by (simp add: operator_delete_def heap_extent_def) (simp add: heap_intact_def)
qed (auto simp: set_contents_def heap_owned_def heap_intact_def heap_extent_def dest: operator_new_Inl)

lemma aligned_allocator_typed:
  "aligned_allocator_allocate pick hw alignment alignof_T sizeof_T
     = typed_allocate sizeof_T (operator_new pick (alignment_in_bytes hw (alignment OR alignof_T)))"
  "aligned_allocator_deallocate hw alignment alignof_T sizeof_T
     = typed_deallocate sizeof_T (operator_delete (alignment_in_bytes hw (alignment OR alignof_T)))"
  by (intro ext; simp add: aligned_allocator_allocate_def aligned_allocator_deallocate_def typed_defs
      aligned_alloc_def aligned_free_def)+

end
