(* ===== verification/Page_Alloc.thy ===== *)
theory Page_Alloc
  imports Checked_Arith Write_Trap Os_Errors
begin

text \<open>
  Allocation of whole pages from the operating system (\<^verbatim>\<open>page_alloc\<close>, \<^verbatim>\<open>page_free\<close>,
  \<^verbatim>\<open>large_page_alloc\<close> and \<^verbatim>\<open>large_page_free\<close> of \<^verbatim>\<open>src/src/memory.cpp\<close>, the Linux branches).

  The operating system is a parameter: its page sizes, the address that \<^verbatim>\<open>mmap\<close> chooses, the
  result of \<^verbatim>\<open>madvise\<close>. \<^verbatim>\<open>os_ok\<close> states the documented behaviour that the code relies on. Which
  pages are mapped is part of the state, so that a leak is visible.
\<close>

section \<open>The operating system\<close>

record os_state =
  mapped :: "nat set"   \<comment> \<open>the numbers of the mapped pages\<close>
  bytes :: memory

record os =
  page_size :: size_t          \<comment> \<open>\<^verbatim>\<open>hardware_page_size()\<close>\<close>
  large_page_size :: size_t    \<comment> \<open>\<^verbatim>\<open>hardware_large_page_size()\<close>\<close>
  mmap :: "size_t \<Rightarrow> os_state \<Rightarrow> size_t \<times> os_state"
  mmap_errno :: int
  munmap :: "size_t \<Rightarrow> size_t \<Rightarrow> os_state \<Rightarrow> bool \<times> os_state"
  munmap_errno :: int
  madvise_errno :: "size_t \<Rightarrow> size_t \<Rightarrow> int"   \<comment> \<open>0: the call succeeds\<close>

definition MAP_FAILED :: size_t where
  "MAP_FAILED = - 1"

text \<open>The numbers of the pages that \<^verbatim>\<open>len\<close> bytes at \<^verbatim>\<open>p\<close> touch.\<close>

definition pages_of :: "nat \<Rightarrow> nat \<Rightarrow> nat \<Rightarrow> nat set" where
  "pages_of ps p len = {p div ps ..< (p + len + ps - 1) div ps}"

text \<open>
  The documented behaviour that the code relies on: \<^verbatim>\<open>mmap\<close> fails or maps fresh pages at an
  aligned address and leaves all other memory alone; \<^verbatim>\<open>munmap\<close> fails for an empty or misaligned
  range and otherwise unmaps every page that the range touches; \<^verbatim>\<open>madvise\<close> fails for
  \<^verbatim>\<open>MAP_FAILED\<close>, which is not aligned.
\<close>

definition mmap_ok :: "os \<Rightarrow> size_t \<Rightarrow> os_state \<Rightarrow> size_t \<Rightarrow> os_state \<Rightarrow> bool" where
  "mmap_ok os len s p s' \<longleftrightarrow>
     (let ps = unat (page_size os); new = pages_of ps (unat p) (unat len) in
      len \<noteq> 0 \<and> p \<noteq> 0 \<and> ps dvd unat p \<and> unat p + unat len < 2 ^ 64 \<and> new \<inter> mapped s = {}
    \<and> mapped s' = mapped s \<union> new \<and> (\<forall>q. unat q div ps \<notin> new \<longrightarrow> bytes s' q = bytes s q))"

definition os_ok :: "os \<Rightarrow> bool" where
  "os_ok os \<longleftrightarrow>
     page_size os \<noteq> 0 \<and> unat (page_size os) dvd unat (large_page_size os)
   \<and> (\<forall>len s. mmap os len s = (MAP_FAILED, s) \<or> mmap_ok os len s (fst (mmap os len s)) (snd (mmap os len s)))
   \<and> (\<forall>p len s. if len = 0 \<or> \<not> unat (page_size os) dvd unat p then munmap os p len s = (False, s)
        else \<exists>s'. munmap os p len s = (True, s')
               \<and> mapped s' = mapped s - pages_of (unat (page_size os)) (unat p) (unat len)
               \<and> (\<forall>q. unat q div unat (page_size os) \<in> mapped s' \<longrightarrow> bytes s' q = bytes s q))
   \<and> (\<forall>len. madvise_errno os MAP_FAILED len \<noteq> 0)
   \<and> \<not> unat (page_size os) dvd unat MAP_FAILED"

section \<open>The operations\<close>

text \<open>
  What \<^verbatim>\<open>page_alloc\<close> and \<^verbatim>\<open>large_page_alloc\<close> do once the granularity is known: round up, map, advise
  (undoing the mapping when that fails), set the write trap.
\<close>

definition map_pages :: "os \<Rightarrow> size_t \<Rightarrow> size_t \<Rightarrow> os_state \<Rightarrow> size_t res \<times> os_state" where
  "map_pages os granularity sz s =
     (case try_ceili sz granularity of
        Inl e \<Rightarrow> (Inl e, s)
      | Inr full \<Rightarrow>
          if arith_ec full \<noteq> NoError then (Inl BadAlloc, s)
          else
            let (p, s1) = mmap os (arith_value full) s in
            case posix_assert (mmap_errno os) (p \<noteq> 0) of Inl e \<Rightarrow> (Inl e, s1) | Inr _ \<Rightarrow>
              let ec = madvise_errno os p (arith_value full) in
              if ec \<noteq> 0 then (posix_raise ec, snd (munmap os p (arith_value full) s1))
              else (Inr p, s1\<lparr>bytes := set_out_of_bounds_write_trap p sz (arith_value full) (bytes s1)\<rparr>))"

definition page_alloc :: "os \<Rightarrow> size_t \<Rightarrow> os_state \<Rightarrow> size_t res \<times> os_state" where
  "page_alloc os sz s =
     (if page_size os = 0 then (Inl ContractViolation, s)
      else map_pages os (page_size os) sz s)"

definition large_page_alloc :: "os \<Rightarrow> size_t \<Rightarrow> os_state \<Rightarrow> size_t res \<times> os_state" where
  "large_page_alloc os sz s =
     (if large_page_size os \<noteq> 0 then map_pages os (large_page_size os) sz s
      else (Inl NotSupported, s))"

text \<open>The two functions that release memory are \<^verbatim>\<open>noexcept\<close>; both pass the size as it was requested.\<close>

definition unmap_pages :: "os \<Rightarrow> size_t \<Rightarrow> size_t \<Rightarrow> size_t \<Rightarrow> os_state \<Rightarrow> unit res \<times> os_state" where
  "unmap_pages os granularity p sz s =
     (case try_ceili sz granularity of
        Inl e \<Rightarrow> (Inl e, s)
      | Inr full \<Rightarrow>
          if arith_ec full \<noteq> NoError then (Inl ContractViolation, s)
          else if \<not> check_out_of_bounds_write_trap p sz (arith_value full) (bytes s) then (Inl ContractViolation, s)
          else
            let (success, s1) = munmap os p sz s in
            (no_throw (posix_assert (munmap_errno os) success), s1))"

definition page_free :: "os \<Rightarrow> size_t \<Rightarrow> size_t \<Rightarrow> os_state \<Rightarrow> unit res \<times> os_state" where
  "page_free os p sz s = unmap_pages os (page_size os) p sz s"

definition large_page_free :: "os \<Rightarrow> size_t \<Rightarrow> size_t \<Rightarrow> os_state \<Rightarrow> unit res \<times> os_state" where
  "large_page_free os p sz s = unmap_pages os (large_page_size os) p sz s"

section \<open>Lemmas\<close>

definition granularity_ok :: "os \<Rightarrow> size_t \<Rightarrow> bool" where
  "granularity_ok os g \<longleftrightarrow> os_ok os \<and> g \<noteq> 0 \<and> unat (page_size os) dvd unat g"

lemma pages_of_aligned: "ps dvd p \<Longrightarrow> 0 < ps \<Longrightarrow> pages_of ps p len = {p div ps ..< p div ps + (len + ps - 1) div ps}"
proof -
  assume a: "ps dvd p" "0 < ps"
  have "p + len + ps - 1 = p + (len + ps - 1)" using a(2) by simp
  then have "(p + len + ps - 1) div ps = p div ps + (len + ps - 1) div ps"
    using a(1) by (simp add: div_plus_div_distrib_dvd_left)
  then show ?thesis by (simp add: pages_of_def)
qed

lemma os_okD:
  assumes "granularity_ok os g"
  shows "page_size os \<noteq> 0" "g \<noteq> 0" "madvise_errno os MAP_FAILED len \<noteq> 0"
    "munmap os MAP_FAILED len s = (False, s)"
    "mmap os len s = (MAP_FAILED, s) \<or> mmap_ok os len s (fst (mmap os len s)) (snd (mmap os len s))"
    "len \<noteq> 0 \<Longrightarrow> unat (page_size os) dvd unat p \<Longrightarrow>
      \<exists>s'. munmap os p len s = (True, s') \<and> mapped s' = mapped s - pages_of (unat (page_size os)) (unat p) (unat len)
        \<and> (\<forall>q. unat q div unat (page_size os) \<in> mapped s' \<longrightarrow> bytes s' q = bytes s q)"
  using assms unfolding granularity_ok_def os_ok_def by (blast, blast, blast, metis, blast, metis)

lemma mmap_okD:
  assumes "mmap_ok os len s p s'"
  shows "len \<noteq> 0" "p \<noteq> 0" "unat (page_size os) dvd unat p" "unat p + unat len < 2 ^ 64"
    "pages_of (unat (page_size os)) (unat p) (unat len) \<inter> mapped s = {}"
    "mapped s' = mapped s \<union> pages_of (unat (page_size os)) (unat p) (unat len)"
    "unat q div unat (page_size os) \<notin> pages_of (unat (page_size os)) (unat p) (unat len) \<Longrightarrow> bytes s' q = bytes s q"
  using assms unfolding mmap_ok_def Let_def by blast+

lemma map_pages_Inr:
  assumes g: "granularity_ok os g" and m: "map_pages os g sz s = (Inr p, s')"
  obtains len s1 where "unat len = ceil_multiple (unat sz) (unat g)"
    "try_ceili sz g = Inr \<lparr>arith_value = len, arith_ec = NoError\<rparr>"
    "sz \<le> len" "mmap_ok os len s p s1" "mapped s' = mapped s1"
    "bytes s' = set_out_of_bounds_write_trap p sz len (bytes s1)"
proof -
  let ?c = "ceil_multiple (unat sz) (unat g)"
  define len where "len = (word_of_nat ?c :: size_t)"
  have c: "?c < 2 ^ 64"
    using m by (auto simp: map_pages_def try_ceili_exact [OF os_okD(2) [OF g]] split: if_splits)
  then have ul: "unat len = ?c" by (simp add: len_def unat_of_nat_no_wrap)
  then have le: "sz \<le> len" using os_okD(2) [OF g] by (simp add: word_le_nat_alt ceil_multiple_ge unat_gt_0)
  have t: "try_ceili sz g = Inr \<lparr>arith_value = len, arith_ec = NoError\<rparr>"
    using c by (simp add: try_ceili_exact [OF os_okD(2) [OF g]] len_def)
  obtain q s1 where q: "mmap os len s = (q, s1)" by fastforce
  have m': "q \<noteq> 0" "madvise_errno os q len = 0" "q = p"
      "s' = s1\<lparr>bytes := set_out_of_bounds_write_trap p sz len (bytes s1)\<rparr>"
    using m by (auto simp: map_pages_def t q Let_def split: if_splits)
  have "mmap_ok os len s p s1" using os_okD(5) [OF g, of len s] m'(2,3) os_okD(3) [OF g, of len] by (auto simp: q)
  then show thesis using that [OF ul t le] m'(4) by simp
qed

lemma map_pages_Inl:
  assumes g: "granularity_ok os g" and m: "map_pages os g sz s = (Inl e, s')"
  shows "mapped s' = mapped s"
proof (cases "ceil_multiple (unat sz) (unat g) < 2 ^ 64")
  case True
  define len where "len = (word_of_nat (ceil_multiple (unat sz) (unat g)) :: size_t)"
  have t: "try_ceili sz g = Inr \<lparr>arith_value = len, arith_ec = NoError\<rparr>"
    using True by (simp add: try_ceili_exact [OF os_okD(2) [OF g]] len_def)
  obtain q s1 where q: "mmap os len s = (q, s1)" by fastforce
  from os_okD(5) [OF g, of len s] consider "q = MAP_FAILED" "s1 = s" | "mmap_ok os len s q s1" by (auto simp: q)
  then show ?thesis
  proof cases
    case 1
    then show ?thesis
      using m os_okD(3,4) [OF g, of len] by (simp add: map_pages_def t q Let_def MAP_FAILED_def)
  next
    case 2
    obtain s2 where "munmap os q len s1 = (True, s2)" "mapped s2 = mapped s"
      using os_okD(6) [OF g, of len q s1] mmap_okD [OF 2] by (auto simp: Un_Diff Diff_triv inf_commute)
    then show ?thesis using m mmap_okD(2) [OF 2] by (auto simp: map_pages_def t q Let_def split: if_splits)
  qed
next
  case False
  then show ?thesis using m by (auto simp: map_pages_def try_ceili_exact [OF os_okD(2) [OF g]])
qed

text \<open>Releasing an allocation of \<^verbatim>\<open>map_pages\<close> whose guarded bytes are intact.\<close>

lemma unmap_pages_Inr:
  assumes g: "granularity_ok os g" and m: "map_pages os g sz s = (Inr p, s1)"
    and "mapped s2 = mapped s1" and "sz \<noteq> 0"
    and "\<forall>j<16. unat sz + j < ceil_multiple (unat sz) (unat g) \<longrightarrow>
      bytes s2 (p + sz + word_of_nat j) = bytes s1 (p + sz + word_of_nat j)"
  shows "\<exists>s3. unmap_pages os g p sz s2 = (Inr (), s3)
    \<and> mapped s3 = mapped s1 - pages_of (unat (page_size os)) (unat p) (unat sz)"
proof -
  obtain len s0 where len: "unat len = ceil_multiple (unat sz) (unat g)"
      "try_ceili sz g = Inr \<lparr>arith_value = len, arith_ec = NoError\<rparr>" "sz \<le> len" "mmap_ok os len s p s0"
      "bytes s1 = set_out_of_bounds_write_trap p sz len (bytes s0)"
    using map_pages_Inr [OF g m] by metis
  have "check_out_of_bounds_write_trap p sz len (bytes s2)"
    unfolding check_iff
  proof (intro allI impI)
    fix j assume j: "j < 4 * trap_count sz len"
    then have j16: "j < 16" "unat sz + j < unat len"
      using trap_count_le [of sz len] trap_within [OF len(3)] by auto
    then have "bytes s2 (p + sz + word_of_nat j) = bytes s1 (p + sz + word_of_nat j)"
      using assms(5) len(1) by auto
    then show "bytes s2 (p + sz + word_of_nat j) = trap_byte j"
      using j j16 by (simp add: len(5) set_trap_apply)
  qed
  moreover obtain s3 where "munmap os p sz s2 = (True, s3)"
      "mapped s3 = mapped s2 - pages_of (unat (page_size os)) (unat p) (unat sz)"
    using os_okD(6) [OF g assms(4) mmap_okD(3) [OF len(4)]] by blast
  ultimately show ?thesis using assms(3) len(2) by (simp add: unmap_pages_def)
qed

lemma ceil_multiple_pages:
  assumes "0 < ps" shows "(ceil_multiple x ps + ps - 1) div ps = (x + ps - 1) div ps"
proof -
  have "ceil_multiple x ps + ps - 1 = (x + ps - 1) div ps * ps + (ps - 1)" using assms by (simp add: ceil_multiple_def)
  moreover have "((x + ps - 1) div ps * ps + (ps - 1)) div ps = (x + ps - 1) div ps + (ps - 1) div ps"
    by (simp add: div_plus_div_distrib_dvd_left)
  ultimately show ?thesis using assms by simp
qed

lemma page_size_granularity: "os_ok os \<Longrightarrow> granularity_ok os (page_size os)"
  by (simp add: granularity_ok_def os_ok_def)

lemma large_page_size_granularity: "os_ok os \<Longrightarrow> large_page_size os \<noteq> 0 \<Longrightarrow> granularity_ok os (large_page_size os)"
  by (simp add: granularity_ok_def os_ok_def)

lemma page_alloc_eq: "os_ok os \<Longrightarrow> page_alloc os sz s = map_pages os (page_size os) sz s"
  by (simp add: page_alloc_def os_ok_def)

text \<open>A mapping is never empty, so the size requested was not 0.\<close>

lemma map_pages_size:
  assumes g: "granularity_ok os g" and m: "map_pages os g sz s = (Inr p, s')"
  shows "sz \<noteq> 0"
proof
  assume "sz = 0"
  obtain len s1 where len: "unat len = ceil_multiple (unat sz) (unat g)" "mmap_ok os len s p s1"
    using map_pages_Inr [OF g m] by metis
  have "unat len = 0" using len(1) \<open>sz = 0\<close> os_okD(2) [OF g] by (simp add: ceil_multiple_def unat_gt_0)
  then show False using mmap_okD(1) [OF len(2)] by (simp add: unat_eq_zero)
qed

text \<open>The addresses that the trap guards lie behind the object, without wrapping around.\<close>

lemma guarded_outside:
  assumes g: "granularity_ok os g" and m: "map_pages os g sz s = (Inr p, s')"
    and j: "unat sz + j < ceil_multiple (unat sz) (unat g)"
  shows "unat (p + sz + word_of_nat j) = unat p + unat sz + j"
proof -
  obtain len s1 where len: "unat len = ceil_multiple (unat sz) (unat g)" "mmap_ok os len s p s1"
    using map_pages_Inr [OF g m] by metis
  then have b: "unat p + unat sz + j < 2 ^ 64" using mmap_okD(4) [OF len(2)] j by linarith
  then have "unat (p + sz) = unat p + unat sz" by (intro unat_add_no_wrap) simp
  moreover have "unat (word_of_nat j :: size_t) = j" using b by (intro unat_of_nat_no_wrap) simp
  ultimately show ?thesis using b by (subst unat_add_no_wrap) auto
qed

lemma user_writes_keep_trap:
  assumes "granularity_ok os g" "map_pages os g sz s = (Inr p, s1)"
    and "\<forall>q. q \<notin> object_bytes p sz \<longrightarrow> bytes s2 q = bytes s1 q"
  shows "\<forall>j<16. unat sz + j < ceil_multiple (unat sz) (unat g) \<longrightarrow>
      bytes s2 (p + sz + word_of_nat j) = bytes s1 (p + sz + word_of_nat j)"
  using assms guarded_outside [OF assms(1,2)] by (auto simp: object_bytes_def)

text \<open>A concrete operating system for the witnesses: it has room for one mapping.\<close>

definition demo_pages :: "size_t \<Rightarrow> nat set" where
  "demo_pages len = pages_of 4096 0x10000000 (unat len)"

definition demo_os :: os where
  "demo_os = \<lparr>page_size = 4096, large_page_size = 2097152,
     mmap = (\<lambda>len s. if len \<noteq> 0 \<and> len \<le> 4294967296 \<and> mapped s = {}
       then (0x10000000, s\<lparr>mapped := demo_pages len\<rparr>) else (MAP_FAILED, s)),
     mmap_errno = 12,
     munmap = (\<lambda>p len s. if len = 0 \<or> \<not> 4096 dvd unat p then (False, s)
       else (True, s\<lparr>mapped := mapped s - pages_of 4096 (unat p) (unat len)\<rparr>)),
     munmap_errno = 22,
     madvise_errno = (\<lambda>p len. if p = MAP_FAILED then 22 else 0)\<rparr>"

definition demo_state :: os_state where
  "demo_state = \<lparr>mapped = {}, bytes = (\<lambda>_. 0)\<rparr>"

lemma demo_os_ok: "os_ok demo_os"
proof -
  have "unat (- 1 :: size_t) mod 4096 = 4095" by (simp add: unat_max_size_t)
  then have a: "\<not> (4096 :: nat) dvd unat (- 1 :: size_t)" by (simp add: dvd_eq_mod_eq_0)
  have "unat len \<le> 4294967296" if "len \<le> (4294967296 :: size_t)" for len
    using that by (simp add: word_le_nat_alt)
  then have b: "mmap demo_os len s = (MAP_FAILED, s) \<or> mmap_ok demo_os len s (fst (mmap demo_os len s)) (snd (mmap demo_os len s))"
    for len s
    by (force simp: demo_os_def mmap_ok_def demo_pages_def)
  show ?thesis
    unfolding os_ok_def using a b by (simp add: demo_os_def MAP_FAILED_def)
qed

lemma demo_map:
  assumes "unat g dvd 4294967296" "g \<noteq> 0" "0 < unat sz" "unat sz \<le> unat g"
  shows "\<exists>s'. map_pages demo_os g sz demo_state = (Inr 0x10000000, s')"
proof -
  have "(unat sz + unat g - 1) div unat g = 1" using assms(3,4) by (intro div_nat_eqI) auto
  then have c: "ceil_multiple (unat sz) (unat g) = unat g" by (simp add: ceil_multiple_def)
  have "unat g \<le> 4294967296" using assms(1) by (rule dvd_imp_le) simp
  then have "g \<le> 4294967296" by (simp add: word_le_nat_alt)
  then show ?thesis
    using assms(2) unat_size_t_bound [of g]
    by (simp add: map_pages_def try_ceili_exact c demo_os_def demo_state_def MAP_FAILED_def Let_def)
qed

section \<open>Properties\<close>

text \<open>
  C25: Pages that were allocated are given back completely: if the program has written only
  to the bytes of the object in the meantime, \<^verbatim>\<open>page_free\<close> succeeds and leaves mapped exactly the
  pages that were mapped before the allocation, none of which the allocation had touched.
\<close>

theorem page_alloc_free_roundtrip:
  assumes ok: "os_ok os" and alloc: "page_alloc os sz s = (Inr p, s1)"
    and "mapped s2 = mapped s1" "\<forall>q. q \<notin> object_bytes p sz \<longrightarrow> bytes s2 q = bytes s1 q"
  shows "mapped s \<subset> mapped s1 \<and> unat (page_size os) dvd unat p \<and> unat p + unat sz < 2 ^ 64
    \<and> (\<exists>s3. page_free os p sz s2 = (Inr (), s3) \<and> mapped s3 = mapped s)"
proof -
  note g = page_size_granularity [OF ok]
  have m: "map_pages os (page_size os) sz s = (Inr p, s1)" using alloc by (simp add: page_alloc_eq [OF ok])
  let ?ps = "unat (page_size os)"
  have ps: "0 < ?ps" using os_okD(1) [OF g] by (simp add: unat_gt_0)
  obtain len s0 where len: "unat len = ceil_multiple (unat sz) ?ps" "sz \<le> len" "mmap_ok os len s p s0"
      "mapped s1 = mapped s0"
    using map_pages_Inr [OF g m] by metis
  note p = mmap_okD [OF len(3)]
  have "?ps \<le> unat len + ?ps - 1" using p(1) by (simp add: unat_gt_0 Suc_le_eq flip: unat_gt_0)
  then have "0 < (unat len + ?ps - 1) div ?ps" using ps by (simp add: div_greater_zero_iff)
  then have ne: "pages_of ?ps (unat p) (unat len) \<noteq> {}" using p(3) ps by (simp add: pages_of_aligned)
  have same: "pages_of ?ps (unat p) (unat sz) = pages_of ?ps (unat p) (unat len)"
    using p(3) ps by (simp only: pages_of_aligned len(1) ceil_multiple_pages)
  obtain s3 where s3: "unmap_pages os (page_size os) p sz s2 = (Inr (), s3)"
      "mapped s3 = mapped s1 - pages_of ?ps (unat p) (unat sz)"
    using unmap_pages_Inr [OF g m assms(3) map_pages_size [OF g m] user_writes_keep_trap [OF g m assms(4)]] by blast
  have "mapped s3 = mapped s" using s3(2) same p(5,6) len(4) by auto
  moreover have "mapped s \<subset> mapped s1" using p(5,6) len(4) ne by auto
  moreover have "unat p + unat sz < 2 ^ 64" using p(4) len(2) by (simp add: word_le_nat_alt)
  ultimately show ?thesis using s3(1) p(3) by (auto simp: page_free_def)
qed

lemma page_alloc_free_roundtrip_witness:
  "\<exists>p s1 s3. page_alloc demo_os 1 demo_state = (Inr p, s1) \<and> page_free demo_os p 1 s1 = (Inr (), s3) \<and> mapped s3 = {}"
proof -
  have "\<exists>s1. page_alloc demo_os 1 demo_state = (Inr 0x10000000, s1)"
    using demo_map [of 4096 1]
    by (simp add: page_alloc_eq [OF demo_os_ok]) (simp add: demo_os_def)
  then obtain s1 where s1: "page_alloc demo_os 1 demo_state = (Inr 0x10000000, s1)" ..
  from page_alloc_free_roundtrip [OF demo_os_ok s1 refl] s1 show ?thesis by (auto simp: demo_state_def)
qed

text \<open>
  A failed allocation leaks nothing: whatever goes wrong (the size overflows, \<^verbatim>\<open>mmap\<close> or
  \<^verbatim>\<open>madvise\<close> fails), the mapped pages are the ones from before.
\<close>

theorem page_alloc_failure_no_leak:
  assumes "os_ok os" "page_alloc os sz s = (Inl e, s')"
  shows "mapped s' = mapped s"
  using map_pages_Inl [OF page_size_granularity [OF assms(1)]] assms by (simp add: page_alloc_eq)

lemma page_alloc_failure_no_leak_witness:
  "\<exists>e s'. page_alloc demo_os 0 demo_state = (Inl e, s') \<and> mapped s' = {}"
proof -
  have "\<exists>e s'. page_alloc demo_os 0 demo_state = (Inl e, s')"
    using map_pages_size [OF page_size_granularity [OF demo_os_ok], of 0 demo_state]
    by (simp add: page_alloc_eq [OF demo_os_ok]) (metis old.prod.exhaust sum.exhaust)
  then obtain e s' where a: "page_alloc demo_os 0 demo_state = (Inl e, s')" by blast
  with page_alloc_failure_no_leak [OF demo_os_ok a] show ?thesis by (auto simp: demo_state_def)
qed

text \<open>
  A write behind the object is detected: if a guarded byte has changed when the
  allocation is released, \<^verbatim>\<open>page_free\<close> ends the program and unmaps nothing.
\<close>

theorem page_free_detects_overrun:
  assumes ok: "os_ok os" and alloc: "page_alloc os sz s = (Inr p, s1)"
    and j: "j < 4 * trap_count sz (word_of_nat (ceil_multiple (unat sz) (unat (page_size os))))"
    and bad: "bytes s2 (p + sz + word_of_nat j) \<noteq> bytes s1 (p + sz + word_of_nat j)"
  shows "page_free os p sz s2 = (Inl ContractViolation, s2)"
proof -
  note g = page_size_granularity [OF ok]
  have m: "map_pages os (page_size os) sz s = (Inr p, s1)" using alloc by (simp add: page_alloc_eq [OF ok])
  obtain len and s0 :: os_state where len: "unat len = ceil_multiple (unat sz) (unat (page_size os))"
      "try_ceili sz (page_size os) = Inr \<lparr>arith_value = len, arith_ec = NoError\<rparr>"
      "bytes s1 = set_out_of_bounds_write_trap p sz len (bytes s0)"
    using map_pages_Inr [OF g m] by metis
  have "len = word_of_nat (ceil_multiple (unat sz) (unat (page_size os)))" by (simp flip: len(1))
  then have j': "j < 4 * trap_count sz len" using j by simp
  then have "bytes s2 (p + sz + word_of_nat j) \<noteq> trap_byte j"
    using bad trap_count_le [of sz len] by (simp add: len(3) set_trap_apply)
  then have "\<not> check_out_of_bounds_write_trap p sz len (bytes s2)" using j' by (auto simp: check_iff)
  then show ?thesis using len(2) by (simp add: page_free_def unmap_pages_def)
qed

lemma page_free_detects_overrun_witness:
  "\<exists>p s1. page_alloc demo_os 1 demo_state = (Inr p, s1)
    \<and> (let s2 = s1\<lparr>bytes := (bytes s1)(p + 1 := bytes s1 (p + 1) + 1)\<rparr> in page_free demo_os p 1 s2 = (Inl ContractViolation, s2))"
proof -
  have "\<exists>s1. page_alloc demo_os 1 demo_state = (Inr 0x10000000, s1)"
    using demo_map [of 4096 1]
    by (simp add: page_alloc_eq [OF demo_os_ok]) (simp add: demo_os_def)
  then obtain s1 where s1: "page_alloc demo_os 1 demo_state = (Inr 0x10000000, s1)" ..
  have c: "0 < trap_count 1 (word_of_nat (ceil_multiple (unat (1 :: size_t)) (unat (page_size demo_os))))"
    by (simp add: demo_os_def ceil_multiple_def trap_count_def maxTrapCount_def)
  show ?thesis
    using page_free_detects_overrun [OF demo_os_ok s1, of 0
        "s1\<lparr>bytes := (bytes s1)(0x10000000 + 1 := bytes s1 (0x10000000 + 1) + 1)\<rparr>"] s1 c by (auto simp: Let_def)
qed

text \<open>
  C39: \<^verbatim>\<open>large_page_free\<close> does not give back what \<^verbatim>\<open>large_page_alloc\<close> took: it unmaps the pages of
  the requested size only, so all pages between that size and the next multiple of the large
  page size stay mapped for ever.
\<close>

theorem large_page_free_leaks:
  assumes ok: "os_ok os" and alloc: "large_page_alloc os sz s = (Inr p, s1)"
    and "mapped s2 = mapped s1" "\<forall>q. q \<notin> object_bytes p sz \<longrightarrow> bytes s2 q = bytes s1 q"
    and ps: "ps = unat (page_size os)"
  shows "\<exists>s3. large_page_free os p sz s2 = (Inr (), s3)
    \<and> mapped s3 = mapped s \<union> {unat p div ps + (unat sz + ps - 1) div ps
                             ..< unat p div ps + ceil_multiple (unat sz) (unat (large_page_size os)) div ps}"
proof -
  have l: "large_page_size os \<noteq> 0" using alloc by (auto simp: large_page_alloc_def)
  note g = large_page_size_granularity [OF ok l]
  have m: "map_pages os (large_page_size os) sz s = (Inr p, s1)" using alloc l by (simp add: large_page_alloc_def)
  have ps0: "0 < ps" using os_okD(1) [OF g] by (simp add: ps unat_gt_0)
  obtain len s0 where len: "unat len = ceil_multiple (unat sz) (unat (large_page_size os))" "sz \<le> len"
      "mmap_ok os len s p s0" "mapped s1 = mapped s0"
    using map_pages_Inr [OF g m] by metis
  note p = mmap_okD [OF len(3)]
  have dv: "ps dvd unat len"
    unfolding len(1) ps using ceil_multiple_dvd g by (metis dvd_trans granularity_ok_def)
  then have full: "(unat len + ps - 1) div ps = unat len div ps"
    using ps0 div_plus_div_distrib_dvd_left [OF dv, of "ps - 1"] by simp
  have m1: "mapped s1 = mapped s \<union> {unat p div ps ..< unat p div ps + unat len div ps}"
    using len(4) p(3,6) ps0 full by (simp add: pages_of_aligned ps)
  have free: "pages_of ps (unat p) (unat sz) = {unat p div ps ..< unat p div ps + (unat sz + ps - 1) div ps}"
    using p(3) ps0 by (simp add: pages_of_aligned ps)
  have dis: "{unat p div ps ..< unat p div ps + unat len div ps} \<inter> mapped s = {}"
    using p(3,5) ps0 full by (simp add: pages_of_aligned ps)
  have le: "(unat sz + ps - 1) div ps \<le> unat len div ps"
    unfolding full [symmetric] using len(2) by (intro div_le_mono) (simp add: word_le_nat_alt)
  obtain s3 where s3: "unmap_pages os (large_page_size os) p sz s2 = (Inr (), s3)"
      "mapped s3 = mapped s1 - pages_of ps (unat p) (unat sz)"
    using unmap_pages_Inr [OF g m assms(3) map_pages_size [OF g m] user_writes_keep_trap [OF g m assms(4)]] ps by blast
  have "mapped s3 = mapped s \<union> {unat p div ps + (unat sz + ps - 1) div ps ..< unat p div ps + unat len div ps}"
    using s3(2) le dis by (simp add: m1 free Un_Diff) (fastforce simp: disjoint_iff)
  with s3(1) show ?thesis by (simp add: large_page_free_def len(1))
qed

lemma large_page_free_leaks_witness:
  "\<exists>p s1 s3. large_page_alloc demo_os 1 demo_state = (Inr p, s1) \<and> large_page_free demo_os p 1 s1 = (Inr (), s3)
    \<and> mapped s3 = {65537 ..< 66048}"
proof -
  have "\<exists>s1. large_page_alloc demo_os 1 demo_state = (Inr 0x10000000, s1)"
    using demo_map [of 2097152 1] by (simp add: large_page_alloc_def) (simp add: demo_os_def)
  then obtain s1 where s1: "large_page_alloc demo_os 1 demo_state = (Inr 0x10000000, s1)" ..
  from large_page_free_leaks [OF demo_os_ok s1 refl] s1 show ?thesis
    by (auto simp: demo_state_def demo_os_def ceil_multiple_def)
qed

end
