(* ===== verification/Page_Allocators.thy ===== *)
theory Page_Allocators
  imports Page_Alloc Construct
begin

text \<open>
  \<^verbatim>\<open>page_allocator<T>\<close> and \<^verbatim>\<open>large_page_allocator<T>\<close> of \<^verbatim>\<open>include/patton/memory.hpp\<close>. The page
  allocation of the operating system keeps the allocator contract, for every operating system
  with the documented behaviour, and so does \<^verbatim>\<open>page_allocator<T>\<close> for every element type.
\<close>

section \<open>The operations\<close>

definition page_allocator_allocate :: "os \<Rightarrow> size_t \<Rightarrow> size_t \<Rightarrow> os_state \<Rightarrow> size_t res \<times> os_state" where
  "page_allocator_allocate os sizeof_T = typed_allocate sizeof_T (page_alloc os)"

definition page_allocator_deallocate :: "os \<Rightarrow> size_t \<Rightarrow> size_t \<Rightarrow> size_t \<Rightarrow> os_state \<Rightarrow> unit res \<times> os_state" where
  "page_allocator_deallocate os sizeof_T = typed_deallocate sizeof_T (page_free os)"

definition large_page_allocator_allocate :: "os \<Rightarrow> size_t \<Rightarrow> size_t \<Rightarrow> os_state \<Rightarrow> size_t res \<times> os_state" where
  "large_page_allocator_allocate os sizeof_T = typed_allocate sizeof_T (large_page_alloc os)"

definition large_page_allocator_deallocate :: "os \<Rightarrow> size_t \<Rightarrow> size_t \<Rightarrow> size_t \<Rightarrow> os_state \<Rightarrow> unit res \<times> os_state" where
  "large_page_allocator_deallocate os sizeof_T = typed_deallocate sizeof_T (large_page_free os)"

section \<open>Pages keep the contract\<close>

definition page_owned :: "os \<Rightarrow> os_state \<Rightarrow> size_t set" where
  "page_owned os s = {q. unat q div unat (page_size os) \<in> mapped s}"

definition page_extent :: "os \<Rightarrow> os_state \<Rightarrow> size_t \<Rightarrow> size_t \<Rightarrow> size_t set" where
  "page_extent os s p n = {q. unat q div unat (page_size os) \<in> pages_of (unat (page_size os)) (unat p) (unat n)}"

definition page_intact :: "os \<Rightarrow> os_state \<Rightarrow> size_t \<Rightarrow> size_t \<Rightarrow> bool" where
  "page_intact os s p n \<longleftrightarrow>
     (let ps = unat (page_size os); full = ceil_multiple (unat n) ps in
      n \<noteq> 0 \<and> p \<noteq> 0 \<and> ps dvd unat p \<and> unat p + full < 2 ^ 64
    \<and> pages_of ps (unat p) (unat n) \<subseteq> mapped s
    \<and> check_out_of_bounds_write_trap p n (word_of_nat full) (bytes s))"

definition set_bytes :: "memory \<Rightarrow> os_state \<Rightarrow> os_state" where
  "set_bytes m s = s\<lparr>bytes := m\<rparr>"

lemma pages_of_iff:
  assumes "ps dvd p" "0 < ps"
  shows "q div ps \<in> pages_of ps p n \<longleftrightarrow> p \<le> q \<and> q < p + ceil_multiple n ps"
proof -
  obtain k where k: "p = k * ps" using assms(1) by (metis dvdE mult.commute)
  have "q < p + ceil_multiple n ps \<longleftrightarrow> q div ps < p div ps + (n + ps - 1) div ps"
    using assms(2) by (simp add: k ceil_multiple_def div_less_iff_less_mult add_mult_distrib)
  moreover have "p \<le> q \<longleftrightarrow> p div ps \<le> q div ps"
    using assms(2) by (simp add: k less_eq_div_iff_mult_less_eq)
  ultimately show ?thesis using assms by (simp add: pages_of_aligned)
qed

lemma page_intact_extent:
  assumes "os_ok os" "page_intact os s p n"
  shows "page_extent os s p n = {q. unat p \<le> unat q \<and> unat q < unat p + ceil_multiple (unat n) (unat (page_size os))}"
  using assms pages_of_iff [of "unat (page_size os)" "unat p"]
  by (auto simp: page_extent_def page_intact_def Let_def os_ok_def unat_gt_0)

lemma page_guarded:
  assumes ok: "os_ok os" and i: "page_intact os s p n"
    and j: "j < 4 * trap_count n (word_of_nat (ceil_multiple (unat n) (unat (page_size os))))"
  shows "p + n + word_of_nat j \<in> page_extent os s p n - object_bytes p n"
proof -
  let ?full = "ceil_multiple (unat n) (unat (page_size os))"
  have ps: "0 < unat (page_size os)" using ok by (simp add: os_ok_def unat_gt_0)
  have b: "unat p + ?full < 2 ^ 64" using i by (simp add: page_intact_def Let_def)
  then have f: "unat (word_of_nat ?full :: size_t) = ?full" by (intro unat_of_nat_no_wrap) simp
  have "n \<le> word_of_nat ?full" using ceil_multiple_ge [OF ps] by (simp add: word_le_nat_alt f)
  from trap_within [OF this j] have j': "unat n + j < ?full" by (simp add: f)
  then have "unat (p + n) = unat p + unat n" using b by (intro unat_add_no_wrap) simp
  moreover have "unat (word_of_nat j :: size_t) = j" using b j' by (intro unat_of_nat_no_wrap) simp
  ultimately have "unat (p + n + word_of_nat j) = unat p + unat n + j"
    using b j' by (subst unat_add_no_wrap) auto
  then show ?thesis using j' by (simp add: page_intact_extent [OF ok i] object_bytes_def)
qed

lemma page_intact_cong:
  assumes "os_ok os" "page_intact os s p n" "mapped s \<subseteq> mapped s' \<or> pages_of (unat (page_size os)) (unat p) (unat n) \<subseteq> mapped s'"
    and "\<forall>q \<in> page_extent os s p n - object_bytes p n. bytes s' q = bytes s q"
  shows "page_intact os s' p n \<and> page_extent os s' p n = page_extent os s p n"
  using assms(2-4) page_guarded [OF assms(1,2)]
  by (auto simp: page_intact_def page_extent_def Let_def check_iff)

lemma map_pages_frame:
  assumes g: "granularity_ok os g" and m: "map_pages os g sz s = (r, s')"
    and q: "unat q div unat (page_size os) \<in> mapped s"
  shows "bytes s' q = bytes s q"
proof (cases "ceil_multiple (unat sz) (unat g) < 2 ^ 64")
  case True
  define len where "len = (word_of_nat (ceil_multiple (unat sz) (unat g)) :: size_t)"
  have ul: "unat len = ceil_multiple (unat sz) (unat g)" using True by (simp add: len_def unat_of_nat_no_wrap)
  then have le: "sz \<le> len" using os_okD(2) [OF g] by (simp add: word_le_nat_alt ceil_multiple_ge unat_gt_0)
  have t: "try_ceili sz g = Inr \<lparr>arith_value = len, arith_ec = NoError\<rparr>"
    using True by (simp add: try_ceili_exact [OF os_okD(2) [OF g]] len_def)
  obtain p s1 where p: "mmap os len s = (p, s1)" by fastforce
  from os_okD(5) [OF g, of len s] consider "p = MAP_FAILED" "s1 = s" | "mmap_ok os len s p s1" by (auto simp: p)
  then show ?thesis
  proof cases
    case 1
    then show ?thesis
      using m os_okD(3,4) [OF g, of len] by (auto simp: map_pages_def t p Let_def MAP_FAILED_def)
  next
    case 2
    note d = mmap_okD [OF 2]
    have ps: "0 < unat (page_size os)" using os_okD(1) [OF g] by (simp add: unat_gt_0)
    have s1: "bytes s1 q = bytes s q" using d(5,7) q by blast
    obtain s2 where s2: "munmap os p len s1 = (True, s2)" "mapped s2 = mapped s"
        "unat q div unat (page_size os) \<in> mapped s2 \<longrightarrow> bytes s2 q = bytes s1 q"
      using os_okD(6) [OF g, of len p s1] d(1,3,5,6) by (auto simp: Un_Diff Diff_triv inf_commute)
    have "set_out_of_bounds_write_trap p sz len (bytes s1) q = bytes s1 q"
    proof (rule ccontr)
      assume "\<not> ?thesis"
      from set_trap_inside [OF le this] obtain j where j: "q = p + sz + word_of_nat j" "unat sz + j < unat len" by blast
      have "unat (p + sz) = unat p + unat sz" using d(4) j(2) by (intro unat_add_no_wrap) simp
      moreover have "unat (word_of_nat j :: size_t) = j" using d(4) j(2) by (intro unat_of_nat_no_wrap) simp
      ultimately have "unat q = unat p + unat sz + j" using d(4) j unat_add_no_wrap [of "p + sz" "word_of_nat j"] by simp
      moreover have "unat len \<le> ceil_multiple (unat len) (unat (page_size os))" by (rule ceil_multiple_ge [OF ps])
      ultimately have "unat q div unat (page_size os) \<in> pages_of (unat (page_size os)) (unat p) (unat len)"
        using j(2) by (simp add: pages_of_iff [OF d(3) ps])
      then show False using d(5) q by blast
    qed
    then show ?thesis using m s1 s2 q d(2) by (auto simp: map_pages_def t p Let_def split: if_splits)
  qed
next
  case False
  then show ?thesis using m by (auto simp: map_pages_def try_ceili_exact [OF os_okD(2) [OF g]])
qed

lemma page_alloc_Inr:
  assumes ok: "os_ok os" and a: "page_alloc os n s = (Inr p, s')"
  shows "page_intact os s' p n" "page_extent os s' p n \<inter> page_owned os s = {}"
    "page_owned os s' = page_owned os s \<union> page_extent os s' p n"
proof -
  note g = page_size_granularity [OF ok]
  have m: "map_pages os (page_size os) n s = (Inr p, s')" using a by (simp add: page_alloc_eq [OF ok])
  let ?ps = "unat (page_size os)"
  have ps: "0 < ?ps" using os_okD(1) [OF g] by (simp add: unat_gt_0)
  obtain len and s1 :: os_state where len: "unat len = ceil_multiple (unat n) ?ps" "n \<le> len" "mmap_ok os len s p s1"
      "mapped s' = mapped s1" "bytes s' = set_out_of_bounds_write_trap p n len (bytes s1)"
    using map_pages_Inr [OF g m] by metis
  note d = mmap_okD [OF len(3)]
  have same: "pages_of ?ps (unat p) (unat n) = pages_of ?ps (unat p) (unat len)"
    using d(3) ps by (simp only: pages_of_aligned len(1) ceil_multiple_pages)
  have "word_of_nat (ceil_multiple (unat n) ?ps) = len" by (simp flip: len(1))
  moreover have "check_out_of_bounds_write_trap p n len (bytes s')"
    using trap_count_le [of n len] by (auto simp: check_iff len(5) set_trap_apply)
  ultimately show "page_intact os s' p n"
    using d len(1,4) same map_pages_size [OF g m] by (simp add: page_intact_def Let_def)
  show "page_extent os s' p n \<inter> page_owned os s = {}"
    using d(5) by (auto simp: page_extent_def page_owned_def same)
  show "page_owned os s' = page_owned os s \<union> page_extent os s' p n"
    by (auto simp: page_extent_def page_owned_def same len(4) d(6))
qed

lemma page_alloc_frame:
  assumes "os_ok os" "page_alloc os n s = (r, s')" "q \<in> page_owned os s"
  shows "bytes s' q = bytes s q"
  using map_pages_frame [OF page_size_granularity [OF assms(1)], of n s r s' q] assms
  by (simp add: page_alloc_eq page_owned_def)

lemma page_alloc_mapped:
  assumes "os_ok os" "page_alloc os n s = (r, s')"
  shows "mapped s \<subseteq> mapped s'"
proof (cases r)
  case (Inl e)
  then show ?thesis using map_pages_Inl [OF page_size_granularity [OF assms(1)]] assms by (simp add: page_alloc_eq)
next
  case (Inr p)
  note g = page_size_granularity [OF assms(1)]
  have m: "map_pages os (page_size os) n s = (Inr p, s')" using assms Inr by (simp add: page_alloc_eq)
  show ?thesis using map_pages_Inr [OF g m] mmap_okD(6) by (metis Un_upper1)
qed

lemma page_intact_subset: "page_intact os s p n \<Longrightarrow> page_extent os s p n \<subseteq> page_owned os s"
  by (auto simp: page_intact_def page_extent_def page_owned_def Let_def)

lemma page_free_Inr:
  assumes ok: "os_ok os" and i: "page_intact os s p n"
  shows "\<exists>s'. page_free os p n s = (Inr (), s') \<and> mapped s' = mapped s - pages_of (unat (page_size os)) (unat p) (unat n)
    \<and> (\<forall>q \<in> page_owned os s'. bytes s' q = bytes s q)"
proof -
  note g = page_size_granularity [OF ok]
  let ?full = "ceil_multiple (unat n) (unat (page_size os))"
  have i': "n \<noteq> 0" "unat (page_size os) dvd unat p" "?full < 2 ^ 64"
      "check_out_of_bounds_write_trap p n (word_of_nat ?full) (bytes s)"
    using i by (simp_all add: page_intact_def Let_def)
  obtain s' where "munmap os p n s = (True, s')" "mapped s' = mapped s - pages_of (unat (page_size os)) (unat p) (unat n)"
      "\<forall>q. unat q div unat (page_size os) \<in> mapped s' \<longrightarrow> bytes s' q = bytes s q"
    using os_okD(6) [OF g i'(1,2)] by blast
  then show ?thesis using i'
    by (simp add: page_free_def unmap_pages_def try_ceili_exact [OF os_okD(2) [OF g]] page_owned_def)
qed

lemma page_extents_disjoint:
  assumes ok: "os_ok os" and i: "page_intact os s p n" "page_intact os s q k"
    and e: "page_extent os s p n \<inter> page_extent os s q k = {}"
  shows "pages_of (unat (page_size os)) (unat p) (unat n) \<inter> pages_of (unat (page_size os)) (unat q) (unat k) = {}"
proof (rule equals0I)
  let ?ps = "unat (page_size os)"
  fix x assume x: "x \<in> pages_of ?ps (unat p) (unat n) \<inter> pages_of ?ps (unat q) (unat k)"
  have ps: "0 < ?ps" using ok by (simp add: os_ok_def unat_gt_0)
  have p: "?ps dvd unat p" "unat p + ceil_multiple (unat n) ?ps < 2 ^ 64"
    using i(1) by (simp_all add: page_intact_def Let_def)
  have "(x * ?ps) div ?ps = x" using ps by simp
  then have "x * ?ps < 2 ^ 64" using x p(2) pages_of_iff [OF p(1) ps, of "x * ?ps"] by auto
  then have "unat (word_of_nat (x * ?ps) :: size_t) = x * ?ps" by (rule unat_of_nat_no_wrap)
  then have "word_of_nat (x * ?ps) \<in> page_extent os s p n \<inter> page_extent os s q k"
    using x ps by (simp add: page_extent_def)
  with e show False by blast
qed

text \<open>The operating systems with the documented behaviour.\<close>

typedef good_os = "{os. os_ok os}"
  using demo_os_ok by blast

lemma good_os: "os_ok (Rep_good_os os)"
  using Rep_good_os by blast

interpretation page: byte_allocator "page_alloc (Rep_good_os os)" "page_free (Rep_good_os os)" bytes set_bytes
  "page_owned (Rep_good_os os)" "page_intact (Rep_good_os os)" "page_extent (Rep_good_os os)" sizeof_T
  for os sizeof_T
proof (unfold_locales, goal_cases)
  case (3 s p n)
  have "0 < unat (page_size (Rep_good_os os))" using good_os by (simp add: os_ok_def unat_gt_0)
  from ceil_multiple_ge [OF this, of "unat n"] 3 show ?case
    using page_intact_extent [OF good_os 3] page_intact_subset [OF 3]
    by (auto simp: object_bytes_def page_intact_def Let_def)
next
  case (4 n s p s')
  then show ?case using page_alloc_Inr [OF good_os 4] by blast
next
  case (5 n s e s')
  then show ?case
    using map_pages_Inl [OF page_size_granularity [OF good_os]] by (simp add: page_owned_def page_alloc_eq [OF good_os])
next
  case (6 n s r s' q)
  then show ?case by (rule page_alloc_frame [OF good_os])
next
  case (7 n s r s' p k)
  have "\<forall>q \<in> page_extent (Rep_good_os os) s p k. bytes s' q = bytes s q"
    using page_alloc_frame [OF good_os 7(1)] page_intact_subset [OF 7(2)] by blast
  then show ?case using page_intact_cong [OF good_os 7(2)] page_alloc_mapped [OF good_os 7(1)] by blast
next
  case (8 s p n m)
  then show ?case using page_intact_cong [OF good_os 8(1), of "set_bytes m s"] by (simp add: set_bytes_def)
next
  case (9 s p n)
  then show ?case using page_free_Inr [OF good_os 9] by (auto simp: page_owned_def page_extent_def)
next
  case (10 s p n q k r s')
  let ?ps = "unat (page_size (Rep_good_os os))"
  have "mapped s' = mapped s - pages_of ?ps (unat p) (unat n)" "\<forall>a \<in> page_owned (Rep_good_os os) s'. bytes s' a = bytes s a"
    using page_free_Inr [OF good_os 10(1)] 10(4) by auto
  moreover have "pages_of ?ps (unat p) (unat n) \<inter> pages_of ?ps (unat q) (unat k) = {}"
    by (rule page_extents_disjoint [OF good_os 10(1,2,3)])
  ultimately show ?case
    using page_intact_cong [OF good_os 10(2), of s'] 10(2) by (fastforce simp: page_intact_def page_extent_def page_owned_def Let_def)
qed (simp_all add: set_bytes_def page_owned_def)

end
