(* ===== verification/Windows_Pages.thy ===== *)
theory Windows_Pages
  imports Heap_Alloc Page_Allocators Os_Errors
begin

text \<open>
  The Windows branches of \<^verbatim>\<open>page_alloc\<close>, \<^verbatim>\<open>page_free\<close>, \<^verbatim>\<open>large_page_alloc\<close> and
  \<^verbatim>\<open>large_page_free\<close> (\<^verbatim>\<open>src/src/memory.cpp\<close>). The address space is a set of regions, kept like the blocks
  of a heap: \<^verbatim>\<open>VirtualFree\<close> with \<^verbatim>\<open>MEM_RELEASE\<close> takes the address of a region only, and releases
  all of it. So both pairs of functions keep the allocator contract, the one for large pages too, which
  on Linux does not (\<^verbatim>\<open>large_page_free_leaks\<close>).
\<close>

section \<open>The system\<close>

text \<open>The sizes of pages, the addresses that the system chooses, and its last error code.\<close>

record windows =
  win_page_size :: size_t            \<comment> \<open>\<^verbatim>\<open>hardware_page_size()\<close>\<close>
  win_large_page_size :: size_t      \<comment> \<open>\<^verbatim>\<open>hardware_large_page_size()\<close>\<close>
  choose_region :: heap_choice
  win_last_error :: "heap \<Rightarrow> 32 word"

definition allocation_granularity :: size_t where
  "allocation_granularity = 65536"

text \<open>
  \<^verbatim>\<open>VirtualAlloc(NULL, size, MEM_RESERVE | MEM_COMMIT | ..., PAGE_READWRITE)\<close>: null, or the address of
  a fresh region; a region is not empty.
\<close>

definition VirtualAlloc :: "windows \<Rightarrow> size_t \<Rightarrow> heap \<Rightarrow> size_t \<times> heap" where
  "VirtualAlloc w sz h =
     (if sz = 0 then (0, h)
      else case operator_new (choose_region w) allocation_granularity sz h of
          (Inl e, h') \<Rightarrow> (0, h') | (Inr p, h') \<Rightarrow> (p, h'))"

definition VirtualFree :: "size_t \<Rightarrow> heap \<Rightarrow> bool \<times> heap" where
  "VirtualFree p h = (if blocks h p = None then (False, h) else (True, h\<lparr>blocks := (blocks h)(p := None)\<rparr>))"

section \<open>The operations\<close>

definition win_map :: "windows \<Rightarrow> size_t \<Rightarrow> size_t \<Rightarrow> heap \<Rightarrow> size_t res \<times> heap" where
  "win_map w granularity sz h =
     (case try_ceili sz granularity of
        Inl e \<Rightarrow> (Inl e, h)
      | Inr full \<Rightarrow>
          if arith_ec full \<noteq> NoError then (Inl BadAlloc, h)
          else
            let (p, h1) = VirtualAlloc w (arith_value full) h in
            case win32_assert (win_last_error w h1) (p \<noteq> 0) of Inl e \<Rightarrow> (Inl e, h1) | Inr _ \<Rightarrow>
              (Inr p, set_contents (set_out_of_bounds_write_trap p sz (arith_value full) (contents h1)) h1))"

definition win_page_alloc :: "windows \<Rightarrow> size_t \<Rightarrow> heap \<Rightarrow> size_t res \<times> heap" where
  "win_page_alloc w sz h =
     (if win_page_size w = 0 then (Inl ContractViolation, h) else win_map w (win_page_size w) sz h)"

definition win_large_page_alloc :: "windows \<Rightarrow> size_t \<Rightarrow> heap \<Rightarrow> size_t res \<times> heap" where
  "win_large_page_alloc w sz h =
     (if win_large_page_size w \<noteq> 0 then win_map w (win_large_page_size w) sz h else (Inl NotSupported, h))"

text \<open>The functions that release memory are \<^verbatim>\<open>noexcept\<close>.\<close>

definition win_unmap :: "windows \<Rightarrow> size_t \<Rightarrow> size_t \<Rightarrow> size_t \<Rightarrow> heap \<Rightarrow> unit res \<times> heap" where
  "win_unmap w granularity p sz h =
     (case try_ceili sz granularity of
        Inl e \<Rightarrow> (Inl e, h)
      | Inr full \<Rightarrow>
          if arith_ec full \<noteq> NoError then (Inl ContractViolation, h)
          else if \<not> check_out_of_bounds_write_trap p sz (arith_value full) (contents h) then (Inl ContractViolation, h)
          else
            let (success, h1) = VirtualFree p h in
            (no_throw (win32_assert (win_last_error w h1) success), h1))"

definition win_page_free :: "windows \<Rightarrow> size_t \<Rightarrow> size_t \<Rightarrow> heap \<Rightarrow> unit res \<times> heap" where
  "win_page_free w p sz h = win_unmap w (win_page_size w) p sz h"

definition win_large_page_free :: "windows \<Rightarrow> size_t \<Rightarrow> size_t \<Rightarrow> heap \<Rightarrow> unit res \<times> heap" where
  "win_large_page_free w p sz h = win_unmap w (win_large_page_size w) p sz h"

section \<open>They keep the allocator contract\<close>

text \<open>The region of an allocation.\<close>

definition region_size :: "size_t \<Rightarrow> size_t \<Rightarrow> size_t" where
  "region_size g n = word_of_nat (ceil_multiple (unat n) (unat g))"

definition win_intact :: "size_t \<Rightarrow> heap \<Rightarrow> size_t \<Rightarrow> size_t \<Rightarrow> bool" where
  "win_intact g h p n \<longleftrightarrow>
     g \<noteq> 0 \<and> n \<noteq> 0 \<and> ceil_multiple (unat n) (unat g) < 2 ^ 64
   \<and> heap_intact allocation_granularity h p (region_size g n)
   \<and> check_out_of_bounds_write_trap p n (region_size g n) (contents h)"

definition win_extent :: "size_t \<Rightarrow> heap \<Rightarrow> size_t \<Rightarrow> size_t \<Rightarrow> size_t set" where
  "win_extent g h p n = block_bytes p (region_size g n)"

lemma region_size_ge:
  assumes "g \<noteq> 0" "ceil_multiple (unat n) (unat g) < 2 ^ 64"
  shows "n \<le> region_size g n" "unat (region_size g n) = ceil_multiple (unat n) (unat g)"
proof -
  show u: "unat (region_size g n) = ceil_multiple (unat n) (unat g)"
    using assms(2) by (simp add: region_size_def unat_of_nat_no_wrap)
  have "0 < unat g" using assms(1) by (simp add: unat_gt_0)
  then show "n \<le> region_size g n" using ceil_multiple_ge by (simp add: word_le_nat_alt u)
qed

lemma VirtualAlloc_region:
  assumes "VirtualAlloc w sz h = (p, h')" "p \<noteq> 0"
  shows "sz \<noteq> 0" "legal h sz allocation_granularity p"
    "h' = h\<lparr>blocks := (blocks h)(p \<mapsto> (sz, allocation_granularity))\<rparr>"
  using assms operator_new_Inr [of "choose_region w" allocation_granularity sz h p h']
  by (auto simp: VirtualAlloc_def split: if_splits prod.splits sum.splits)

lemma VirtualAlloc_null: "VirtualAlloc w sz h = (0, h') \<Longrightarrow> h' = h"
  using operator_new_Inl operator_new_Inr [of "choose_region w" allocation_granularity sz h 0 h']
  by (fastforce simp: VirtualAlloc_def legal_def split: if_splits prod.splits sum.splits)

text \<open>A successful allocation, taken apart.\<close>

lemma win_map_Inr:
  assumes "win_map w g n h = (Inr p, h')" "g \<noteq> 0"
  shows "n \<noteq> 0" "ceil_multiple (unat n) (unat g) < 2 ^ 64"
    "legal h (region_size g n) allocation_granularity p"
    "h' = set_contents (set_out_of_bounds_write_trap p n (region_size g n) (contents h))
      (h\<lparr>blocks := (blocks h)(p \<mapsto> (region_size g n, allocation_granularity))\<rparr>)"
proof -
  have c: "ceil_multiple (unat n) (unat g) < 2 ^ 64"
    using assms by (auto simp: win_map_def try_ceili_exact split: if_splits)
  moreover obtain h1 where h1: "VirtualAlloc w (region_size g n) h = (p, h1)" "p \<noteq> 0"
      "h' = set_contents (set_out_of_bounds_write_trap p n (region_size g n) (contents h1)) h1"
    using assms c by (auto simp: win_map_def try_ceili_exact region_size_def Let_def split: prod.splits if_splits)
  note v = VirtualAlloc_region [OF h1(1,2)]
  show "n \<noteq> 0"
  proof
    assume "n = 0"
    then have "region_size g n = 0" using assms(2) by (simp add: region_size_def ceil_multiple_def unat_gt_0)
    then show False using v(1) by simp
  qed
  show "ceil_multiple (unat n) (unat g) < 2 ^ 64" by (rule c)
  show "legal h (region_size g n) allocation_granularity p"
    "h' = set_contents (set_out_of_bounds_write_trap p n (region_size g n) (contents h))
      (h\<lparr>blocks := (blocks h)(p \<mapsto> (region_size g n, allocation_granularity))\<rparr>)"
    using v h1(3) by simp_all
qed

lemma win_map_Inl:
  assumes "win_map w g n h = (Inl e, h')"
  shows "h' = h"
  using assms VirtualAlloc_null
  by (fastforce simp: win_map_def Let_def split: sum.splits if_splits prod.splits)

text \<open>The write trap of an allocation lies in its region, behind the object.\<close>

lemma win_guarded:
  assumes i: "win_intact g h p n" and j: "j < 4 * trap_count n (region_size g n)"
  shows "p + n + word_of_nat j \<in> win_extent g h p n - object_bytes p n"
proof -
  have g: "g \<noteq> 0" "ceil_multiple (unat n) (unat g) < 2 ^ 64" and b: "unat p + max 1 (unat (region_size g n)) < 2 ^ 64"
    using i by (simp_all add: win_intact_def heap_intact_def)
  note r = region_size_ge [OF g]
  have j': "unat n + j < unat (region_size g n)" by (rule trap_within [OF r(1) j])
  then have "unat (p + n) = unat p + unat n" using b by (intro unat_add_no_wrap) simp
  moreover have "unat (word_of_nat j :: size_t) = j" using b j' by (intro unat_of_nat_no_wrap) simp
  ultimately have "unat (p + n + word_of_nat j) = unat p + unat n + j"
    using b j' by (subst unat_add_no_wrap) auto
  then show ?thesis using j' by (simp add: win_extent_def block_bytes_def object_bytes_def)
qed

text \<open>An allocation stays intact as long as its region is kept and its write trap is not damaged.\<close>

lemma win_intact_cong:
  assumes "win_intact g h p n" "heap_intact allocation_granularity h' p (region_size g n)"
    and "\<And>q. q \<in> win_extent g h p n - object_bytes p n \<Longrightarrow> contents h' q = contents h q"
  shows "win_intact g h' p n"
  using assms(1,2) assms(3) [OF win_guarded [OF assms(1)]]
  by (simp add: win_intact_def check_iff)

lemma win_map_trap:
  assumes g: "g \<noteq> 0" and m: "win_map w g n h = (Inr p, h')" and q: "q \<notin> block_bytes p (region_size g n)"
  shows "contents h' q = contents h q"
proof (rule ccontr)
  assume "contents h' q \<noteq> contents h q"
  note a = win_map_Inr [OF m g] and r = region_size_ge [OF g win_map_Inr(2) [OF m g]]
  then obtain j where j: "q = p + n + word_of_nat j" "j < 16" "unat n + j < unat (region_size g n)"
    using set_trap_inside [OF r(1), of p "contents h" q] \<open>contents h' q \<noteq> contents h q\<close>
    by (auto simp: set_contents_def)
  have b: "unat p + max 1 (unat (region_size g n)) < 2 ^ 64" using a(3) by (simp add: legal_def)
  then have "unat (p + n) = unat p + unat n" using j(3) by (intro unat_add_no_wrap) simp
  moreover have "unat (word_of_nat j :: size_t) = j" using b j(3) by (intro unat_of_nat_no_wrap) simp
  ultimately have "unat q = unat p + unat n + j" using b j by (simp add: unat_add_no_wrap)
  then show False using q j(3) by (simp add: block_bytes_def)
qed

lemma win_region_owned: "win_intact g h p n \<Longrightarrow> win_extent g h p n \<subseteq> heap_owned h"
  by (auto simp: win_intact_def win_extent_def heap_intact_def heap_owned_def)

lemma set_contents_heap [simp]:
  "heap_owned (set_contents m h) = heap_owned h" "heap_intact a (set_contents m h) p n = heap_intact a h p n"
  "contents (set_contents m h) = m" "blocks (set_contents m h) = blocks h"
  by (simp_all add: set_contents_def heap_owned_def heap_intact_def)

lemma win_new_intact:
  assumes g: "g \<noteq> 0" and m: "win_map w g n h = (Inr p, h')"
  shows "win_intact g h' p n" "win_extent g h' p n \<inter> heap_owned h = {}"
    "heap_owned h' = heap_owned h \<union> win_extent g h' p n"
proof -
  note a = win_map_Inr [OF m g]
  have "check_out_of_bounds_write_trap p n full (set_out_of_bounds_write_trap p n full m)" for full m
    using trap_count_le [of n full] by (simp add: check_iff set_trap_apply)
  then show "win_intact g h' p n"
    using a g heap_new_intact(1) [OF a(3)] by (simp add: win_intact_def)
  show "win_extent g h' p n \<inter> heap_owned h = {}" "heap_owned h' = heap_owned h \<union> win_extent g h' p n"
    using a heap_new_intact(2) [OF a(3)] by (auto simp: win_extent_def legal_def)
qed

lemma win_unmap_intact:
  assumes "win_intact g h p n"
  shows "win_unmap w g p n h = (Inr (), h\<lparr>blocks := (blocks h)(p := None)\<rparr>)"
proof -
  have g: "g \<noteq> 0" "ceil_multiple (unat n) (unat g) < 2 ^ 64"
    and t: "check_out_of_bounds_write_trap p n (region_size g n) (contents h)" and b: "blocks h p \<noteq> None"
    using assms by (auto simp: win_intact_def heap_intact_def)
  show ?thesis using g t b
    by (simp add: win_unmap_def try_ceili_exact VirtualFree_def region_size_def)
qed

interpretation win: byte_allocator "\<lambda>n h. if g = 0 then (Inl NotSupported, h) else win_map w g n h" "win_unmap w g" contents set_contents
  heap_owned "win_intact g" "win_extent g" sizeof_T
  for w g sizeof_T
proof (unfold_locales, goal_cases)
  case (3 s p n)
  have g: "g \<noteq> 0" "ceil_multiple (unat n) (unat g) < 2 ^ 64" using 3 by (simp_all add: win_intact_def)
  have "object_bytes p n \<subseteq> win_extent g s p n"
    using region_size_ge(1) [OF g] by (auto simp: object_bytes_def win_extent_def block_bytes_def word_le_nat_alt)
  moreover have "unat p + unat n < 2 ^ 64" "p \<noteq> 0"
    using 3 region_size_ge(1) [OF g] by (auto simp: win_intact_def heap_intact_def word_le_nat_alt)
  ultimately show ?case using win_region_owned [OF 3] by simp
next
  case (4 n s p s')
  then show ?case using win_new_intact [of g w n s p s'] by (auto split: if_splits)
next
  case (5 n s e s')
  then show ?case using win_map_Inl [of w g n s e s'] by (auto split: if_splits)
next
  case (6 n s r s' q)
  show ?case
  proof (cases "g = 0")
    case False
    then have m: "win_map w g n s = (r, s')" using 6(1) by simp
    show ?thesis
    proof (cases r)
      case (Inr p)
      then have "q \<notin> block_bytes p (region_size g n)"
        using win_map_Inr(3) [of w g n s p s'] m False 6(2) by (auto simp: legal_def)
      then show ?thesis using win_map_trap [OF False] m Inr by blast
    qed (use m win_map_Inl in blast)
  qed (use 6 in simp)
next
  case (7 n s r s' p k)
  have keep: "win_intact g s' p k" if m: "win_map w g n s = (Inr q, s')" and g: "g \<noteq> 0" for q
  proof (rule win_intact_cong [OF 7(2)])
    note a = win_map_Inr [OF m g]
    show "heap_intact allocation_granularity s' p (region_size g k)"
      using heap_keep_intact [OF a(3), of allocation_granularity p "region_size g k"] 7(2) a(4) by (simp add: win_intact_def)
    fix x assume "x \<in> win_extent g s p k - object_bytes p k"
    then have "x \<notin> block_bytes q (region_size g n)"
      using win_region_owned [OF 7(2)] a(3) by (auto simp: legal_def)
    then show "contents s' x = contents s x" by (rule win_map_trap [OF g m])
  qed
  show ?case
  proof (cases "g = 0")
    case False
    then have m: "win_map w g n s = (r, s')" using 7(1) by simp
    show ?thesis
    proof (cases r)
      case (Inl e)
      then show ?thesis using win_map_Inl [of w g n s e s'] m 7(2) by (simp add: win_extent_def)
    qed (use keep m False in \<open>auto simp: win_extent_def\<close>)
  qed (use 7 in \<open>auto simp: win_extent_def\<close>)
next
  case (8 s p n m)
  have "win_intact g (set_contents m s) p n"
    by (rule win_intact_cong [OF 8(1)]) (use 8 in \<open>auto simp: win_intact_def\<close>)
  then show ?case by (simp add: win_extent_def)
next
  case (9 s p n)
  then have "heap_intact allocation_granularity s p (region_size g n)" by (simp add: win_intact_def)
  from heap_delete [OF this] show ?case using win_unmap_intact [OF 9] by (simp add: win_extent_def)
next
  case (10 s p n q k r s')
  have s': "s' = s\<lparr>blocks := (blocks s)(p := None)\<rparr>" using win_unmap_intact [OF 10(1)] 10(4) by simp
  have "win_intact g s' q k"
    by (rule win_intact_cong [OF 10(2)])
      (use heap_delete_intact [of allocation_granularity s p "region_size g n" allocation_granularity q "region_size g k"] 10 s'
        in \<open>auto simp: win_intact_def win_extent_def\<close>)
  then show ?case by (simp add: win_extent_def)
qed auto


section \<open>The allocators on Windows\<close>

definition win_page_allocator_allocate :: "windows \<Rightarrow> size_t \<Rightarrow> size_t \<Rightarrow> heap \<Rightarrow> size_t res \<times> heap" where
  "win_page_allocator_allocate w sizeof_T = typed_allocate sizeof_T (win_page_alloc w)"

definition win_page_allocator_deallocate :: "windows \<Rightarrow> size_t \<Rightarrow> size_t \<Rightarrow> size_t \<Rightarrow> heap \<Rightarrow> unit res \<times> heap" where
  "win_page_allocator_deallocate w sizeof_T = typed_deallocate sizeof_T (win_page_free w)"

definition win_large_page_allocator_allocate :: "windows \<Rightarrow> size_t \<Rightarrow> size_t \<Rightarrow> heap \<Rightarrow> size_t res \<times> heap" where
  "win_large_page_allocator_allocate w sizeof_T = typed_allocate sizeof_T (win_large_page_alloc w)"

definition win_large_page_allocator_deallocate :: "windows \<Rightarrow> size_t \<Rightarrow> size_t \<Rightarrow> size_t \<Rightarrow> heap \<Rightarrow> unit res \<times> heap" where
  "win_large_page_allocator_deallocate w sizeof_T = typed_deallocate sizeof_T (win_large_page_free w)"

lemma win_large_typed:
  "win_large_page_allocator_allocate w sizeof_T n h = (Inr p, h') \<Longrightarrow>
    typed_allocate sizeof_T (\<lambda>n h. if win_large_page_size w = 0 then (Inl NotSupported, h)
      else win_map w (win_large_page_size w) n h) n h = (Inr p, h')"
  "win_large_page_allocator_deallocate w sizeof_T = typed_deallocate sizeof_T (win_unmap w (win_large_page_size w))"
  by (auto simp: win_large_page_allocator_allocate_def win_large_page_allocator_deallocate_def typed_defs
      win_large_page_alloc_def win_large_page_free_def intro!: ext split: if_splits)

lemma win_page_typed:
  "win_page_allocator_allocate w sizeof_T n h = (Inr p, h') \<Longrightarrow>
    typed_allocate sizeof_T (\<lambda>n h. if win_page_size w = 0 then (Inl NotSupported, h)
      else win_map w (win_page_size w) n h) n h = (Inr p, h')"
  "win_page_allocator_deallocate w sizeof_T = typed_deallocate sizeof_T (win_unmap w (win_page_size w))"
  by (auto simp: win_page_allocator_allocate_def win_page_allocator_deallocate_def typed_defs
      win_page_alloc_def win_page_free_def intro!: ext split: if_splits)

text \<open>A system with 4 KiB pages and 2 MiB large pages that has room for one region at a time.\<close>

definition demo_windows :: windows where
  "demo_windows = \<lparr>win_page_size = 4096, win_large_page_size = 2097152,
     choose_region = (\<lambda>h sz a. if blocks h 0x10000000 = None \<and> sz \<le> 4294967296 then Some 0x10000000 else None),
     win_last_error = (\<lambda>_. 8)\<rparr>"

definition demo_space :: heap where
  "demo_space = \<lparr>blocks = (\<lambda>_. None), contents = (\<lambda>_. 0)\<rparr>"

lemma demo_large_alloc:
  "\<exists>h'. win_large_page_allocator_allocate demo_windows 8 1000 demo_space = (Inr 0x10000000, h')"
proof -
  have c: "ceil_multiple 8000 2097152 = 2097152" by (simp add: ceil_multiple_def)
  have l: "legal demo_space 2097152 allocation_granularity 0x10000000"
    by (simp add: legal_def demo_space_def heap_owned_def allocation_granularity_def)
  show ?thesis using l
    by (simp add: win_large_page_allocator_allocate_def typed_defs win_large_page_alloc_def win_map_def try_ceili_exact
        demo_windows_def c VirtualAlloc_def operator_new_def demo_space_def)
qed

section \<open>The properties\<close>

text \<open>
  C28: On Windows, what \<^verbatim>\<open>large_page_allocator\<close> or \<^verbatim>\<open>page_allocator\<close> allocates is in no memory that
  was in use, and when only the elements were written, it is released without a trace: the same regions
  are in use as before, with the same contents.
\<close>

theorem windows_pages_roundtrip:
  assumes "win_large_page_allocator_allocate w sizeof_T n h = (Inr p, h1)
      \<and> free = win_large_page_allocator_deallocate w sizeof_T
    \<or> win_page_allocator_allocate w sizeof_T n h = (Inr p, h1) \<and> free = win_page_allocator_deallocate w sizeof_T"
    and "\<And>q. q \<notin> object_bytes p (n * sizeof_T) \<Longrightarrow> m q = contents h1 q"
  shows "\<exists>h2. free p n (set_contents m h1) = (Inr (), h2) \<and> heap_owned h2 = heap_owned h
    \<and> object_bytes p (n * sizeof_T) \<inter> heap_owned h = {} \<and> (\<forall>q \<in> heap_owned h. contents h2 q = contents h q)"
  using assms(1)
proof
  assume a: "win_large_page_allocator_allocate w sizeof_T n h = (Inr p, h1)
      \<and> free = win_large_page_allocator_deallocate w sizeof_T"
  then show ?thesis
    using win.typed.one_life [OF win_large_typed(1) [OF conjunct1 [OF a]] assms(2)] win_large_typed(2) by simp
next
  assume a: "win_page_allocator_allocate w sizeof_T n h = (Inr p, h1) \<and> free = win_page_allocator_deallocate w sizeof_T"
  then show ?thesis
    using win.typed.one_life [OF win_page_typed(1) [OF conjunct1 [OF a]] assms(2)] win_page_typed(2) by simp
qed

lemma windows_pages_roundtrip_witness:
  "\<exists>h1 h2. win_large_page_allocator_allocate demo_windows 8 1000 demo_space = (Inr 0x10000000, h1)
    \<and> win_large_page_allocator_deallocate demo_windows 8 0x10000000 1000
        (set_contents ((contents h1)(0x10000000 := 7)) h1) = (Inr (), h2) \<and> heap_owned h2 = {}"
proof -
  obtain h1 where h1: "win_large_page_allocator_allocate demo_windows 8 1000 demo_space = (Inr 0x10000000, h1)"
    using demo_large_alloc by blast
  have "(0x10000000 :: size_t) \<in> object_bytes 0x10000000 (1000 * 8)" by (simp add: object_bytes_def)
  then have "\<exists>h2. win_large_page_allocator_deallocate demo_windows 8 0x10000000 1000
        (set_contents ((contents h1)(0x10000000 := 7)) h1) = (Inr (), h2) \<and> heap_owned h2 = heap_owned demo_space
      \<and> object_bytes 0x10000000 (1000 * 8) \<inter> heap_owned demo_space = {}
      \<and> (\<forall>q \<in> heap_owned demo_space. contents h2 q = contents demo_space q)"
    using h1 by (intro windows_pages_roundtrip [where w = demo_windows and ?h1.0 = h1]) auto
  then show ?thesis using h1 by (auto simp: heap_owned_def demo_space_def)
qed

end
