(* ===== verification/Aligned_Adaptor.thy ===== *)
theory Aligned_Adaptor
  imports Construct Alignment Checked_Arith
begin

text \<open>
  \<^verbatim>\<open>aligned_allocator_adaptor\<close> (\<^verbatim>\<open>include/patton/detail/memory.hpp\<close>): an allocator that gets aligned
  memory from an allocator of bytes that does not align. It allocates some more bytes than
  needed, aligns the address, and keeps behind the object a write trap and the address of the
  actual allocation. The adaptor turns an allocator into an allocator: its contract is proved
  from the contract of the allocator it adapts.
\<close>

section \<open>The operations\<close>

text \<open>
  \<^verbatim>\<open>std::align\<close>: the first aligned address in the buffer with room for the object, and the space
  left from there.
\<close>

definition std_align :: "size_t \<Rightarrow> size_t \<Rightarrow> size_t \<Rightarrow> size_t \<Rightarrow> (size_t \<times> size_t) option" where
  "std_align a sz ptr space =
     (let aligned = ceil_multiple (unat ptr) (unat a);
          diff = aligned - unat ptr in
      if unat sz + diff \<le> unat space then Some (word_of_nat aligned, space - word_of_nat diff) else None)"

record element_type =
  sizeof_T :: size_t
  alignof_T :: size_t

definition adaptor_bytes :: "hardware_sizes \<Rightarrow> size_t \<Rightarrow> element_type \<Rightarrow> size_t \<Rightarrow> size_t" where
  "adaptor_bytes hw alignment T n =
     (let a = alignment_in_bytes hw (alignment OR alignof_T T);
          nbData = n * sizeof_T T
      in nbData + a + 8 - 1 + 2 * 4)"

definition adaptor_allocate ::
  "hardware_sizes \<Rightarrow> size_t \<Rightarrow> element_type \<Rightarrow> (size_t \<Rightarrow> 's \<Rightarrow> size_t res \<times> 's) \<Rightarrow> ('s \<Rightarrow> memory) \<Rightarrow>
     (memory \<Rightarrow> 's \<Rightarrow> 's) \<Rightarrow> size_t \<Rightarrow> 's \<Rightarrow> size_t res \<times> 's" where
  "adaptor_allocate hw alignment T alloc mem_of set_mem n s =
     (let a = alignment_in_bytes hw (alignment OR alignof_T T) in
      if n \<ge> - 1 div sizeof_T T then (Inl BadAlloc, s)
      else
        let nbData = n * sizeof_T T;
            nbAlloc = adaptor_bytes hw alignment T n in
        if nbAlloc < nbData then (Inl BadAlloc, s)
        else
          (case alloc nbAlloc s of
             (Inl e, s1) \<Rightarrow> (Inl e, s1)
           | (Inr mem, s1) \<Rightarrow>
               (case std_align a (nbData + 8) mem nbAlloc of
                  None \<Rightarrow> (Inl ContractViolation, s1)
                | Some (alignResult, space) \<Rightarrow>
                    if \<not> space \<ge> nbData + 8 then (Inl ContractViolation, s1)
                    else
                      let m1 = store64 (alignResult + nbData + 2 * 4) mem (mem_of s1);
                          m2 = set_out_of_bounds_write_trap alignResult nbData (nbData + 2 * 4) m1
                      in (Inr alignResult, set_mem m2 s1))))"

definition adaptor_deallocate ::
  "hardware_sizes \<Rightarrow> size_t \<Rightarrow> element_type \<Rightarrow> (size_t \<Rightarrow> size_t \<Rightarrow> 's \<Rightarrow> unit res \<times> 's) \<Rightarrow> ('s \<Rightarrow> memory) \<Rightarrow>
     size_t \<Rightarrow> size_t \<Rightarrow> 's \<Rightarrow> unit res \<times> 's" where
  "adaptor_deallocate hw alignment T dealloc mem_of p n s =
     (let nbData = n * sizeof_T T;
          nbAlloc = adaptor_bytes hw alignment T n;
          mem = load64 (p + nbData + 2 * 4) (mem_of s) in
      if \<not> check_out_of_bounds_write_trap p nbData (nbData + 2 * 4) (mem_of s) then (Inl ContractViolation, s)
      else dealloc mem nbAlloc s)"

section \<open>The bytes behind the object\<close>

definition guard_byte :: "size_t \<Rightarrow> nat \<Rightarrow> byte" where
  "guard_byte mem j = (if j < 8 then trap_byte j else value_byte (j - 8) mem)"

definition guarded :: "size_t \<Rightarrow> size_t \<Rightarrow> size_t \<Rightarrow> memory \<Rightarrow> bool" where
  "guarded mem p nb m \<longleftrightarrow> (\<forall>j<16. m (p + nb + word_of_nat j) = guard_byte mem j)"

lemma two_traps: "trap_count nb (nb + 8) = 2"
proof -
  have "(nb + 8 - nb) div 4 = (2 :: size_t)" by simp
  then show ?thesis by (simp add: trap_count_def maxTrapCount_def min_def)
qed

lemma guarded_iff:
  "guarded mem p nb m \<longleftrightarrow> check_out_of_bounds_write_trap p nb (nb + 8) m \<and> load64 (p + nb + 8) m = mem"
proof -
  have shift: "p + nb + 8 + word_of_nat j = p + nb + word_of_nat (8 + j)" for j
    by (simp add: algebra_simps)
  have "load64 (p + nb + 8) m = mem \<longleftrightarrow> (\<forall>j<8. m (p + nb + word_of_nat (8 + j)) = value_byte j mem)"
    unfolding shift [symmetric] by (rule load_eq_iff) simp
  also have "\<dots> \<longleftrightarrow> (\<forall>j<16. 8 \<le> j \<longrightarrow> m (p + nb + word_of_nat j) = value_byte (j - 8) mem)"
    by (metis (no_types, opaque_lifting) add.commute add_diff_cancel_left' add_less_cancel_left le_add1
        le_add_diff_inverse numeral_Bit0)
  finally show ?thesis
    by (auto simp: guarded_def guard_byte_def check_iff two_traps not_less)
qed

lemma guard_stored:
  "guarded mem p nb (set_out_of_bounds_write_trap p nb (nb + 8) (store64 (p + nb + 8) mem m))"
  unfolding guarded_def
proof (intro allI impI)
  fix j :: nat assume j: "j < 16"
  have "store64 (p + nb + 8) mem m (p + nb + word_of_nat j) = value_byte (j - 8) mem" if "8 \<le> j"
  proof -
    have e: "p + nb + word_of_nat j = p + nb + 8 + word_of_nat (j - 8)" using that by (simp add: of_nat_diff)
    show ?thesis unfolding e by (subst store_bytes_apply) (use that j in auto)
  qed
  then show "set_out_of_bounds_write_trap p nb (nb + 8) (store64 (p + nb + 8) mem m) (p + nb + word_of_nat j)
      = guard_byte mem j"
    using j by (simp add: set_trap_apply two_traps guard_byte_def)
qed

lemma guard_elsewhere:
  assumes "\<And>j. j < 16 \<Longrightarrow> q \<noteq> p + nb + word_of_nat j"
  shows "set_out_of_bounds_write_trap p nb (nb + 8) (store64 (p + nb + 8) mem m) q = m q"
proof -
  let ?j = "unat (q - (p + nb))"
  have q: "q = p + nb + word_of_nat ?j" by simp
  have j: "\<not> ?j < 16" using assms q by blast
  have b: "?j < 2 ^ 64" by (rule unat_size_t_bound)
  have e: "q = p + nb + 8 + word_of_nat (?j - 8)" using j by (simp add: of_nat_diff)
  have "store64 (p + nb + 8) mem m (p + nb + 8 + word_of_nat (?j - 8)) = m (p + nb + 8 + word_of_nat (?j - 8))"
    using j b by (subst store_bytes_apply) auto
  then have "store64 (p + nb + 8) mem m q = m q" by (simp flip: e)
  moreover have "set_out_of_bounds_write_trap p nb (nb + 8) m' q = m' q" for m'
    using set_trap_apply [OF b, of p nb "nb + 8" m'] j by (simp add: two_traps flip: q)
  ultimately show ?thesis by simp
qed


section \<open>The contract of the adaptor\<close>

definition adaptor_intact ::
  "hardware_sizes \<Rightarrow> size_t \<Rightarrow> element_type \<Rightarrow> ('s \<Rightarrow> memory) \<Rightarrow> ('s \<Rightarrow> size_t \<Rightarrow> size_t \<Rightarrow> bool) \<Rightarrow>
     's \<Rightarrow> size_t \<Rightarrow> size_t \<Rightarrow> bool" where
  "adaptor_intact hw alignment T mem_of intact s p n \<longleftrightarrow>
     (let nb = n * sizeof_T T; nbAlloc = adaptor_bytes hw alignment T n; mem = load64 (p + nb + 8) (mem_of s) in
      \<not> n \<ge> - 1 div sizeof_T T \<and> intact s mem nbAlloc \<and> guarded mem p nb (mem_of s)
    \<and> unat mem \<le> unat p \<and> unat p + unat nb + 16 \<le> unat mem + unat nbAlloc
    \<and> unat (alignment_in_bytes hw (alignment OR alignof_T T)) dvd unat p)"

definition adaptor_extent ::
  "hardware_sizes \<Rightarrow> size_t \<Rightarrow> element_type \<Rightarrow> ('s \<Rightarrow> memory) \<Rightarrow> ('s \<Rightarrow> size_t \<Rightarrow> size_t \<Rightarrow> size_t set) \<Rightarrow>
     's \<Rightarrow> size_t \<Rightarrow> size_t \<Rightarrow> size_t set" where
  "adaptor_extent hw alignment T mem_of extent s p n =
     extent s (load64 (p + n * sizeof_T T + 8) (mem_of s)) (adaptor_bytes hw alignment T n)"

text \<open>The number of bytes to allocate is exact if the test for overflow succeeds.\<close>

lemma adaptor_bytes_exact:
  assumes "\<not> adaptor_bytes hw alignment T n < n * sizeof_T T"
  shows "unat (adaptor_bytes hw alignment T n)
    = unat (n * sizeof_T T) + unat (alignment_in_bytes hw (alignment OR alignof_T T)) + 15"
proof -
  let ?a = "alignment_in_bytes hw (alignment OR alignof_T T)" and ?nb = "n * sizeof_T T"
  obtain m where m: "m < 61" "unat ?a = 2 ^ m" using alignment_in_bytes_exp by blast
  have "(2 :: nat) ^ m \<le> 2 ^ 60" using m(1) by (intro power_increasing) auto
  then have a: "unat ?a + 15 < 2 ^ 64" using m(2) by simp
  have e: "adaptor_bytes hw alignment T n = ?nb + (?a + 15)" by (simp add: adaptor_bytes_def Let_def)
  have a15: "unat (?a + 15) = unat ?a + 15" using a by (subst unat_add_no_wrap) simp_all
  have "unat ?nb + unat (?a + 15) < 2 ^ 64"
    using assms no_olen_add_nat [of ?nb "?a + 15"] by (simp add: e not_less)
  then show ?thesis by (simp add: e unat_add_no_wrap a15)
qed

text \<open>The aligned address leaves room for the object and the guard.\<close>

lemma std_align_fits:
  assumes a: "0 < unat a" and sp: "unat space = unat sz + unat a + 7" and r: "unat ptr + unat space < 2 ^ 64"
  obtains q where "std_align a sz ptr space = Some (q, space - word_of_nat (unat q - unat ptr))"
    "unat ptr \<le> unat q" "unat q + unat sz + 8 \<le> unat ptr + unat space" "unat a dvd unat q"
    "sz \<le> space - word_of_nat (unat q - unat ptr)"
proof -
  let ?al = "ceil_multiple (unat ptr) (unat a)"
  define q where "q = (word_of_nat ?al :: size_t)"
  have al: "unat ptr \<le> ?al" "?al < unat ptr + unat a" using ceil_multiple_ge [OF a] ceil_multiple_less [OF a] by auto
  then have q: "unat q = ?al" using r sp by (simp add: q_def unat_of_nat_no_wrap)
  have d: "?al - unat ptr < unat a" using al a by linarith
  then have "std_align a sz ptr space = Some (q, space - word_of_nat (?al - unat ptr))"
    using sp by (simp add: std_align_def Let_def q_def)
  moreover have ud: "unat (word_of_nat (?al - unat ptr) :: size_t) = ?al - unat ptr"
    using d unat_size_t_bound [of a] by (intro unat_of_nat_no_wrap) simp
  have "word_of_nat (?al - unat ptr) \<le> space" using d sp by (simp add: word_le_nat_alt ud)
  then have "sz \<le> space - word_of_nat (?al - unat ptr)"
    using d sp by (simp add: word_le_nat_alt unat_sub ud)
  ultimately show thesis
    using that [of q] al sp d q by (simp add: ceil_multiple_dvd)
qed

text \<open>The guard lies behind the object and inside the allocation of bytes.\<close>

lemma guard_address:
  assumes "unat mem \<le> unat p" "unat p + unat nb + 16 \<le> unat mem + unat nbAlloc" "unat mem + unat nbAlloc < 2 ^ 64" "j < 16"
  shows "p + nb + word_of_nat j \<in> object_bytes mem nbAlloc - object_bytes p nb"
proof -
  have "unat (p + nb) = unat p + unat nb" using assms by (intro unat_add_no_wrap) simp
  moreover have "unat (word_of_nat j :: size_t) = j" using assms by (intro unat_of_nat_no_wrap) simp
  ultimately have "unat (p + nb + word_of_nat j) = unat p + unat nb + j"
    using assms by (subst unat_add_no_wrap) auto
  then show ?thesis using assms by (simp add: object_bytes_def)
qed

lemma guarded_cong:
  "(\<And>j. j < 16 \<Longrightarrow> m' (p + nb + word_of_nat j) = m (p + nb + word_of_nat j)) \<Longrightarrow> guarded mem p nb m \<Longrightarrow> guarded mem p nb m'"
  by (simp add: guarded_def)

lemma guarded_load: "guarded mem p nb m \<Longrightarrow> load64 (p + nb + 8) m = mem"
  by (simp add: guarded_iff)

locale aligned_adaptor = allocator 1 alloc dealloc mem_of set_mem owned intact extent
  for alloc :: "size_t \<Rightarrow> 's \<Rightarrow> size_t res \<times> 's" and dealloc mem_of set_mem owned intact extent +
  fixes hw :: hardware_sizes and alignment :: size_t and T :: element_type
begin

lemma adaptor_intactD:
  assumes "adaptor_intact hw alignment T mem_of intact s p n"
  obtains mem where "load64 (p + n * sizeof_T T + 8) (mem_of s) = mem" "intact s mem (adaptor_bytes hw alignment T n)"
    "guarded mem p (n * sizeof_T T) (mem_of s)" "\<not> n \<ge> - 1 div sizeof_T T"
    "unat mem \<le> unat p" "unat p + unat (n * sizeof_T T) + 16 \<le> unat mem + unat (adaptor_bytes hw alignment T n)"
    "unat mem + unat (adaptor_bytes hw alignment T n) < 2 ^ 64"
    "unat (alignment_in_bytes hw (alignment OR alignof_T T)) dvd unat p" "mem \<noteq> 0"
    "adaptor_extent hw alignment T mem_of extent s p n = extent s mem (adaptor_bytes hw alignment T n)"
  using assms intactD [of s "load64 (p + n * sizeof_T T + 8) (mem_of s)" "adaptor_bytes hw alignment T n"]
  by (simp add: adaptor_intact_def adaptor_extent_def Let_def)

lemma adaptor_intactI:
  assumes "intact s mem (adaptor_bytes hw alignment T n)"
    "guarded mem p (n * sizeof_T T) (mem_of s)" "\<not> n \<ge> - 1 div sizeof_T T"
    "unat mem \<le> unat p" "unat p + unat (n * sizeof_T T) + 16 \<le> unat mem + unat (adaptor_bytes hw alignment T n)"
    "unat (alignment_in_bytes hw (alignment OR alignof_T T)) dvd unat p"
  shows "adaptor_intact hw alignment T mem_of intact s p n"
    "adaptor_extent hw alignment T mem_of extent s p n = extent s mem (adaptor_bytes hw alignment T n)"
  using assms guarded_load [OF assms(2)] by (simp_all add: adaptor_intact_def adaptor_extent_def Let_def)

text \<open>What a successful allocation does; the checks of the result of \<^verbatim>\<open>std::align\<close> never fail.\<close>

lemma adaptor_allocate_cases:
  obtains (overflow) "adaptor_allocate hw alignment T alloc mem_of set_mem n s = (Inl BadAlloc, s)"
  | (failed) e s1 where "alloc (adaptor_bytes hw alignment T n) s = (Inl e, s1)"
      "adaptor_allocate hw alignment T alloc mem_of set_mem n s = (Inl e, s1)"
  | (allocated) mem s1 p where "alloc (adaptor_bytes hw alignment T n) s = (Inr mem, s1)"
      "adaptor_allocate hw alignment T alloc mem_of set_mem n s
        = (Inr p, set_mem (set_out_of_bounds_write_trap p (n * sizeof_T T) (n * sizeof_T T + 8)
              (store64 (p + n * sizeof_T T + 8) mem (mem_of s1))) s1)"
      "\<not> n \<ge> - 1 div sizeof_T T" "unat mem \<le> unat p"
      "unat p + unat (n * sizeof_T T) + 16 \<le> unat mem + unat (adaptor_bytes hw alignment T n)"
      "unat (alignment_in_bytes hw (alignment OR alignof_T T)) dvd unat p"
proof -
  let ?a = "alignment_in_bytes hw (alignment OR alignof_T T)" and ?nb = "n * sizeof_T T"
    and ?na = "adaptor_bytes hw alignment T n"
  show thesis
  proof (cases "n \<ge> - 1 div sizeof_T T \<or> ?na < ?nb")
    case True
    then show thesis by (intro overflow) (auto simp: adaptor_allocate_def Let_def)
  next
    case False
    obtain r s1 where r: "alloc ?na s = (r, s1)" by fastforce
    show thesis
    proof (cases r)
      case (Inl e)
      then show thesis using False r by (intro failed [of e s1]) (auto simp: adaptor_allocate_def Let_def)
    next
      case (Inr mem)
      have na: "unat ?na = unat ?nb + unat ?a + 15" using False by (intro adaptor_bytes_exact) blast
      then have "unat ?nb + 8 < 2 ^ 64" using unat_size_t_bound [of ?na] by simp
      then have nb8: "unat (?nb + 8) = unat ?nb + 8" by (subst unat_add_no_wrap) simp_all
      have "unat mem + unat ?na < 2 ^ 64"
        using alloc_Inr [of ?na s mem s1] intactD [of s1 mem ?na] r Inr by simp
      moreover have "0 < unat ?a" using alignment_in_bytes_exp [of hw "alignment OR alignof_T T"] by auto
      ultimately obtain p where p: "std_align ?a (?nb + 8) mem ?na = Some (p, ?na - word_of_nat (unat p - unat mem))"
          "unat mem \<le> unat p" "unat p + unat (?nb + 8) + 8 \<le> unat mem + unat ?na" "unat ?a dvd unat p"
          "?nb + 8 \<le> ?na - word_of_nat (unat p - unat mem)"
        using std_align_fits [of ?a ?na "?nb + 8" mem] na nb8 by auto
      show thesis
        by (rule allocated [of mem s1 p]) (use False r Inr p nb8 in \<open>simp_all add: adaptor_allocate_def Let_def\<close>)
    qed
  qed
qed

text \<open>The adaptor writes only into the allocation of bytes it got.\<close>

lemma adaptor_store:
  assumes "unat mem \<le> unat p" "unat p + unat nb + 16 \<le> unat mem + unat nbAlloc" "unat mem + unat nbAlloc < 2 ^ 64"
    and "q \<notin> object_bytes mem nbAlloc"
  shows "set_out_of_bounds_write_trap p nb (nb + 8) (store64 (p + nb + 8) mem m) q = m q"
  using guard_address [OF assms(1-3)] assms(4) by (intro guard_elsewhere) blast

text \<open>An allocation of the adaptor stays intact while its allocation of bytes and its guard do.\<close>

lemma adaptor_intact_cong:
  assumes i: "adaptor_intact hw alignment T mem_of intact s p n"
    and "\<And>mem k. intact s mem k \<Longrightarrow> extent s mem k = adaptor_extent hw alignment T mem_of extent s p n \<Longrightarrow>
      object_bytes p (n * sizeof_T T) \<subseteq> object_bytes mem k \<Longrightarrow> intact s' mem k \<and> extent s' mem k = extent s mem k"
    and "\<forall>q \<in> adaptor_extent hw alignment T mem_of extent s p n - object_bytes p (n * sizeof_T T). mem_of s' q = mem_of s q"
  shows "adaptor_intact hw alignment T mem_of intact s' p n
    \<and> adaptor_extent hw alignment T mem_of extent s' p n = adaptor_extent hw alignment T mem_of extent s p n"
proof -
  let ?nb = "n * sizeof_T T" and ?na = "adaptor_bytes hw alignment T n"
  obtain mem where mem: "intact s mem ?na" "guarded mem p ?nb (mem_of s)" "\<not> n \<ge> - 1 div sizeof_T T"
      "unat mem \<le> unat p" "unat p + unat ?nb + 16 \<le> unat mem + unat ?na" "unat mem + unat ?na < 2 ^ 64"
      "unat (alignment_in_bytes hw (alignment OR alignof_T T)) dvd unat p"
      "adaptor_extent hw alignment T mem_of extent s p n = extent s mem ?na"
    using adaptor_intactD [OF i] by metis
  have "object_bytes p ?nb \<subseteq> object_bytes mem ?na" using mem(4,5) by (auto simp: object_bytes_def)
  then have s': "intact s' mem ?na" "extent s' mem ?na = extent s mem ?na" using assms(2) [OF mem(1)] mem(8) by simp_all
  have "object_bytes mem ?na \<subseteq> extent s mem ?na" using intactD [OF mem(1)] by simp
  then have "guarded mem p ?nb (mem_of s')"
    using guard_address [OF mem(4-6)] assms(3) by (intro guarded_cong [OF _ mem(2)]) (auto simp: mem(8))
  then show ?thesis using adaptor_intactI [OF s'(1) _ mem(3-5,7)] s'(2) mem(8) by simp
qed

lemma adaptor_extent_owned:
  assumes "adaptor_intact hw alignment T mem_of intact s p n"
  shows "adaptor_extent hw alignment T mem_of extent s p n \<subseteq> owned s"
  using adaptor_intactD [OF assms] intactD by metis

lemma adaptor_alloc_Inr:
  assumes "adaptor_allocate hw alignment T alloc mem_of set_mem n s = (Inr p, s')"
  shows "adaptor_intact hw alignment T mem_of intact s' p n
    \<and> adaptor_extent hw alignment T mem_of extent s' p n \<inter> owned s = {}
    \<and> owned s' = owned s \<union> adaptor_extent hw alignment T mem_of extent s' p n"
proof (cases rule: adaptor_allocate_cases [of n s])
  case (allocated mem s1 p')
  let ?nb = "n * sizeof_T T" and ?na = "adaptor_bytes hw alignment T n"
  define m2 where "m2 = set_out_of_bounds_write_trap p ?nb (?nb + 8) (store64 (p + ?nb + 8) mem (mem_of s1))"
  have eq: "p' = p" "s' = set_mem m2 s1" using assms allocated(2) by (auto simp: m2_def)
  note base = alloc_Inr [OF allocated(1)]
  have r: "unat mem + unat ?na < 2 ^ 64" using base intactD [of s1 mem ?na] by simp
  note fits = allocated(4,5) [unfolded eq(1)] r
  have "intact s' mem ?na \<and> extent s' mem ?na = extent s1 mem ?na"
    unfolding eq(2) using base adaptor_store [OF fits] by (intro write_intact) (auto simp: m2_def)
  moreover have "guarded mem p ?nb (mem_of s')" by (simp add: eq(2) m2_def guard_stored)
  ultimately show ?thesis
    using adaptor_intactI [OF _ _ allocated(3) fits(1,2) allocated(6) [unfolded eq(1)], of s'] base by (simp add: eq(2))
qed (use assms in simp_all)

lemma adaptor_alloc_Inl:
  assumes "adaptor_allocate hw alignment T alloc mem_of set_mem n s = (Inl e, s')"
  shows "owned s' = owned s"
  using assms alloc_Inl by (cases rule: adaptor_allocate_cases [of n s]) auto

lemma adaptor_alloc_frame:
  assumes a: "adaptor_allocate hw alignment T alloc mem_of set_mem n s = (r, s')" and q: "q \<in> owned s"
  shows "mem_of s' q = mem_of s q"
proof (cases rule: adaptor_allocate_cases [of n s])
  case (allocated mem s1 p)
  have "intact s1 mem (adaptor_bytes hw alignment T n)" "q \<notin> extent s1 mem (adaptor_bytes hw alignment T n)"
    using alloc_Inr [OF allocated(1)] q by auto
  then have "q \<notin> object_bytes mem (adaptor_bytes hw alignment T n)" "unat mem + unat (adaptor_bytes hw alignment T n) < 2 ^ 64"
    using intactD [of s1 mem "adaptor_bytes hw alignment T n"] by auto
  then show ?thesis
    using a allocated(2) adaptor_store [OF allocated(4,5)] alloc_frame [OF allocated(1) q] by auto
qed (use a q alloc_frame in auto)

lemma adaptor_alloc_intact:
  assumes a: "adaptor_allocate hw alignment T alloc mem_of set_mem n s = (r, s')"
    and i: "adaptor_intact hw alignment T mem_of intact s p k"
  shows "adaptor_intact hw alignment T mem_of intact s' p k
    \<and> adaptor_extent hw alignment T mem_of extent s' p k = adaptor_extent hw alignment T mem_of extent s p k"
proof (rule adaptor_intact_cong [OF i])
  show "\<forall>q \<in> adaptor_extent hw alignment T mem_of extent s p k - object_bytes p (k * sizeof_T T). mem_of s' q = mem_of s q"
    using adaptor_alloc_frame [OF a] adaptor_extent_owned [OF i] by blast
  fix m j assume m: "intact s m j" and e: "extent s m j = adaptor_extent hw alignment T mem_of extent s p k"
  show "intact s' m j \<and> extent s' m j = extent s m j"
  proof (cases rule: adaptor_allocate_cases [of n s])
    case overflow
    then show ?thesis using a m by simp
  next
    case (failed e' s1)
    then show ?thesis using a alloc_intact [OF failed(1) m] by simp
  next
    case (allocated mem s1 p')
    let ?na = "adaptor_bytes hw alignment T n"
    define m2 where "m2 = set_out_of_bounds_write_trap p' (n * sizeof_T T) (n * sizeof_T T + 8)
        (store64 (p' + n * sizeof_T T + 8) mem (mem_of s1))"
    have s': "s' = set_mem m2 s1" using a allocated(2) by (simp add: m2_def)
    have base: "intact s1 mem ?na" "extent s1 mem ?na \<inter> owned s = {}" using alloc_Inr [OF allocated(1)] by auto
    have old: "intact s1 m j" "extent s1 m j = extent s m j" using alloc_intact [OF allocated(1) m] by auto
    have na: "object_bytes mem ?na \<subseteq> extent s1 mem ?na" "unat mem + unat ?na < 2 ^ 64"
      using intactD [OF base(1)] by auto
    have "m2 q = mem_of s1 q" if "q \<in> extent s1 m j" for q
      unfolding m2_def using that base(2) old(2) intactD [OF m] na by (intro adaptor_store [OF allocated(4,5)]) auto
    then show ?thesis using write_intact [OF old(1), of m2] old(2) by (simp add: s')
  qed
qed

lemma adaptor_dealloc_eq:
  assumes "adaptor_intact hw alignment T mem_of intact s p n"
  obtains mem where "adaptor_deallocate hw alignment T dealloc mem_of p n s = dealloc mem (adaptor_bytes hw alignment T n) s"
    "intact s mem (adaptor_bytes hw alignment T n)"
    "adaptor_extent hw alignment T mem_of extent s p n = extent s mem (adaptor_bytes hw alignment T n)"
proof -
  obtain mem where mem: "load64 (p + n * sizeof_T T + 8) (mem_of s) = mem" "intact s mem (adaptor_bytes hw alignment T n)"
      "guarded mem p (n * sizeof_T T) (mem_of s)"
      "adaptor_extent hw alignment T mem_of extent s p n = extent s mem (adaptor_bytes hw alignment T n)"
    using adaptor_intactD [OF assms] by metis
  then show thesis using that [of mem] by (simp add: adaptor_deallocate_def Let_def guarded_iff)
qed

end

sublocale aligned_adaptor \<subseteq> adaptor: allocator "sizeof_T T" "adaptor_allocate hw alignment T alloc mem_of set_mem"
  "adaptor_deallocate hw alignment T dealloc mem_of" mem_of set_mem owned
  "adaptor_intact hw alignment T mem_of intact" "adaptor_extent hw alignment T mem_of extent"
proof (unfold_locales, goal_cases)
  case (3 s p n)
  obtain mem where mem: "intact s mem (adaptor_bytes hw alignment T n)" "\<not> n \<ge> - 1 div sizeof_T T"
      "unat mem \<le> unat p" "unat p + unat (n * sizeof_T T) + 16 \<le> unat mem + unat (adaptor_bytes hw alignment T n)"
      "unat mem + unat (adaptor_bytes hw alignment T n) < 2 ^ 64" "mem \<noteq> 0"
      "adaptor_extent hw alignment T mem_of extent s p n = extent s mem (adaptor_bytes hw alignment T n)"
    using adaptor_intactD [OF 3] by metis
  have "object_bytes p (n * sizeof_T T) \<subseteq> object_bytes mem (adaptor_bytes hw alignment T n)"
    using mem(3,4) by (auto simp: object_bytes_def)
  moreover have "p \<noteq> 0" using mem(3,6) by (auto simp: unat_eq_zero)
  ultimately show ?case
    using intactD [OF mem(1)] mem(4,5,7) element_count_no_overflow(2) [OF mem(2)] by auto
next
  case (4 n s p s')
  then show ?case by (rule adaptor_alloc_Inr)
next
  case (5 n s e s')
  then show ?case by (rule adaptor_alloc_Inl)
next
  case (6 n s r s' q)
  then show ?case by (rule adaptor_alloc_frame)
next
  case (7 n s r s' p k)
  then show ?case by (rule adaptor_alloc_intact)
next
  case (8 s p n m)
  have "intact (set_mem m s) mem k \<and> extent (set_mem m s) mem k = extent s mem k"
    if "intact s mem k" "extent s mem k = adaptor_extent hw alignment T mem_of extent s p n"
      "object_bytes p (n * sizeof_T T) \<subseteq> object_bytes mem k" for mem k
    using write_intact [OF that(1), of m] 8(2) that(2,3) by auto
  then show ?case using adaptor_intact_cong [OF 8(1), of "set_mem m s"] 8(2) by simp
next
  case (9 s p n)
  then show ?case using adaptor_dealloc_eq [OF 9] dealloc_Inr by metis
next
  case (10 s p n q k r s')
  obtain mem where mem: "adaptor_deallocate hw alignment T dealloc mem_of p n s = dealloc mem (adaptor_bytes hw alignment T n) s"
      "intact s mem (adaptor_bytes hw alignment T n)"
      "adaptor_extent hw alignment T mem_of extent s p n = extent s mem (adaptor_bytes hw alignment T n)"
    using adaptor_dealloc_eq [OF 10(1)] by metis
  obtain s1 where s1: "dealloc mem (adaptor_bytes hw alignment T n) s = (Inr (), s1)"
      "owned s1 = owned s - extent s mem (adaptor_bytes hw alignment T n)" "\<forall>a \<in> owned s1. mem_of s1 a = mem_of s a"
    using dealloc_Inr [OF mem(2)] by blast
  then have s': "s' = s1" using 10(4) mem(1) by simp
  show ?case
  proof (rule adaptor_intact_cong [OF 10(2)])
    show "\<forall>a \<in> adaptor_extent hw alignment T mem_of extent s q k - object_bytes q (k * sizeof_T T). mem_of s' a = mem_of s a"
      using s1(2,3) s' 10(3) mem(3) adaptor_extent_owned [OF 10(2)] by blast
    fix m j assume "intact s m j" "extent s m j = adaptor_extent hw alignment T mem_of extent s q k"
    then show "intact s' m j \<and> extent s' m j = extent s m j"
      using dealloc_intact [OF mem(2) _ _ s1(1)] 10(3) mem(3) s' by auto
  qed
qed simp_all

end
