(* ===== verification/Allocator_Stack.thy ===== *)
theory Allocator_Stack
  imports Page_Allocators Heap_Alloc Aligned_Adaptor
begin

text \<open>
  The allocators of \<^verbatim>\<open>include/patton/memory.hpp\<close> on top of each other: which of the two
  implementations \<^verbatim>\<open>aligned_allocator_adaptor\<close> chooses for an allocator, the adaptor over
  \<^verbatim>\<open>page_allocator<char>\<close> and over the default allocator, and what all this means for the user of
  the allocators. Everything rests on the interpretations of the allocator contract.
\<close>

section \<open>Choice of the implementation\<close>

text \<open>
  \<^verbatim>\<open>aligned_allocator_traits<A>::provides_static_alignment(a)\<close>: an allocator without the member
  function promises the alignment of \<^verbatim>\<open>std::max_align_t\<close>.
\<close>

definition traits_provides_static_alignment :: "size_t \<Rightarrow> (size_t \<Rightarrow> bool) option \<Rightarrow> size_t \<Rightarrow> bool" where
  "traits_provides_static_alignment constructive_size member a =
     (case member of
        None \<Rightarrow> provides_static_alignment constructive_size 16 a
      | Some f \<Rightarrow> f a)"

text \<open>
  \<^verbatim>\<open>page_allocator\<close> and \<^verbatim>\<open>large_page_allocator\<close>, which promises page alignment only.
\<close>

definition large_page_allocator_provides_static_alignment :: "size_t \<Rightarrow> size_t \<Rightarrow> bool" where
  "large_page_allocator_provides_static_alignment constructive_size a =
     provides_static_alignment constructive_size page_alignment a"

definition page_allocator_provides_static_alignment :: "size_t \<Rightarrow> size_t \<Rightarrow> bool" where
  "page_allocator_provides_static_alignment constructive_size a =
     provides_static_alignment constructive_size page_alignment a"

text \<open>\<^verbatim>\<open>aligned_allocator_adaptor<T, Alignment, page_allocator<T>>\<close>.\<close>

definition aligned_page_allocate ::
  "os \<Rightarrow> hardware_sizes \<Rightarrow> size_t \<Rightarrow> size_t \<Rightarrow> element_type \<Rightarrow> size_t \<Rightarrow> os_state \<Rightarrow> size_t res \<times> os_state" where
  "aligned_page_allocate os hw constructive_size alignment T n s =
     (if \<not> traits_provides_static_alignment constructive_size
           (Some (page_allocator_provides_static_alignment constructive_size)) (alignment OR alignof_T T)
      then adaptor_allocate hw alignment T (page_allocator_allocate os 1) bytes set_bytes n s
      else page_allocator_allocate os (sizeof_T T) n s)"

definition aligned_page_deallocate ::
  "os \<Rightarrow> hardware_sizes \<Rightarrow> size_t \<Rightarrow> size_t \<Rightarrow> element_type \<Rightarrow> size_t \<Rightarrow> size_t \<Rightarrow> os_state \<Rightarrow> unit res \<times> os_state" where
  "aligned_page_deallocate os hw constructive_size alignment T p n s =
     (if \<not> traits_provides_static_alignment constructive_size
           (Some (page_allocator_provides_static_alignment constructive_size)) (alignment OR alignof_T T)
      then adaptor_deallocate hw alignment T (page_allocator_deallocate os 1) bytes p n s
      else page_allocator_deallocate os (sizeof_T T) p n s)"

section \<open>Interpretations\<close>

interpretation page_adaptor: aligned_adaptor "typed_allocate 1 (page_alloc (Rep_good_os os))"
  "typed_deallocate 1 (page_free (Rep_good_os os))" bytes set_bytes "page_owned (Rep_good_os os)"
  "typed_intact 1 (page_intact (Rep_good_os os))" "typed_extent 1 (page_extent (Rep_good_os os))" hw alignment T
  for os hw alignment T
  by (rule aligned_adaptor.intro) (rule page.typed.allocator_axioms)

interpretation heap_adaptor: aligned_adaptor "typed_allocate 1 (operator_new pick a)"
  "typed_deallocate 1 (operator_delete a)" contents set_contents heap_owned
  "typed_intact 1 (heap_intact a)" "typed_extent 1 heap_extent" hw alignment T
  for pick a hw alignment T
  by (rule aligned_adaptor.intro) (rule heap.typed.allocator_axioms)


section \<open>Lemmas\<close>

lemma good_os_rep: "os_ok os \<Longrightarrow> Rep_good_os (Abs_good_os os) = os"
  by (simp add: Abs_good_os_inverse)

lemma floor_2p_exp: "m < 63 \<Longrightarrow> unat x = 2 ^ m \<Longrightarrow> floor_2p x = x"
proof -
  assume m: "m < 63" "unat x = 2 ^ m"
  have "(2 :: nat) ^ m < 2 ^ 63" using m(1) by (rule power_strict_increasing) simp
  moreover have "x \<noteq> 0" using m(2) by auto
  ultimately obtain j where j: "unat (floor_2p x) = 2 ^ j" "2 ^ j \<le> unat x" "unat x < 2 ^ (j + 1)"
    using floor_2p_bounds [of x] m(2) by metis
  have "j \<le> m" "m < j + 1"
    using j(2,3) m(2) by (metis one_less_numeral_iff power_le_imp_le_exp semiring_norm(76),
        metis one_less_numeral_iff power_less_imp_less_exp semiring_norm(76))
  then have "unat (floor_2p x) = unat x" using j(1) m(2) by simp
  then show "floor_2p x = x" by (simp add: word_unat_eq_iff)
qed

lemma page_alignment_in_bytes:
  assumes "hw_in_range hw" "m < 61" "unat (hw_page_size hw) = 2 ^ m"
  shows "unat (alignment_in_bytes hw page_alignment) = 2 ^ m"
proof -
  have b: "basic_part page_alignment = 0" "\<not> bit page_alignment 63" "bit page_alignment 62" "\<not> bit page_alignment 61"
    by code_simp+
  have f: "floor_2p (hw_page_size hw) = hw_page_size hw" using assms(2,3) by (intro floor_2p_exp [of m]) simp_all
  have "1 \<le> hw_page_size hw" using assms(3) by (simp add: word_le_nat_alt)
  then show ?thesis
    using assms(3) by (simp add: alignment_parts [OF assms(1)] floor_2p_special_part [OF assms(1)] b f max_def)
qed

text \<open>Addresses of allocations of both page allocators are aligned to the page size.\<close>

lemma page_allocator_aligned:
  assumes "os_ok os" "page_allocator_allocate os sz n s = (Inr p, s')"
  shows "unat (page_size os) dvd unat p"
  using assms page_alloc_Inr(1) [OF assms(1)]
  by (auto simp: page_allocator_allocate_def typed_allocate_def page_intact_def Let_def split: if_splits)

lemma large_page_allocator_aligned:
  assumes ok: "os_ok os" and p: "large_page_allocator_allocate os sz n s = (Inr p, s')"
  shows "unat (page_size os) dvd unat p"
proof -
  have l: "large_page_size os \<noteq> 0" "map_pages os (large_page_size os) (n * sz) s = (Inr p, s')"
    using p by (auto simp: large_page_allocator_allocate_def typed_allocate_def large_page_alloc_def split: if_splits)
  then have "granularity_ok os (large_page_size os)" using ok by (simp add: granularity_ok_def os_ok_def)
  from this l(2) show ?thesis by (rule map_pages_Inr) (use mmap_okD(3) in blast)
qed

text \<open>What they promise at compile time they keep at run time.\<close>

lemma page_promise_kept:
  assumes hw: "hw_consistent cs hw" "unat (hw_page_size hw) = 2 ^ m" "m < 61"
    and a: "provides_static_alignment cs page_alignment a" and p: "2 ^ m dvd unat p"
  shows "unat (alignment_in_bytes hw a) dvd unat p"
proof -
  have "provides_dynamic_alignment hw page_alignment a" by (rule static_implies_dynamic [OF hw(1) a])
  then have "unat (alignment_in_bytes hw a) \<le> 2 ^ m"
    using page_alignment_in_bytes [of hw m] hw by (simp add: provides_dynamic_alignment_def word_le_nat_alt hw_consistent_def)
  moreover obtain j where "unat (alignment_in_bytes hw a) = 2 ^ j" using alignment_in_bytes_exp by blast
  ultimately show ?thesis
    using p by (metis dvd_trans le_imp_power_dvd one_less_numeral_iff power_le_imp_le_exp semiring_norm(76))
qed

lemma large_page_allocator_keeps_promise:
  assumes "os_ok os" "large_page_allocator_allocate os sz n s = (Inr p, s')"
    and "hw_consistent cs hw" "hw_page_size hw = page_size os" "unat (page_size os) = 2 ^ m" "m < 61"
    and "large_page_allocator_provides_static_alignment cs a"
  shows "unat (alignment_in_bytes hw a) dvd unat p"
  by (rule page_promise_kept [where m = m])
    (use assms large_page_allocator_aligned [OF assms(1,2)] in \<open>simp_all add: large_page_allocator_provides_static_alignment_def\<close>)

section \<open>Properties\<close>

text \<open>
  C27: Every allocation through the adaptor over \<^verbatim>\<open>page_allocator\<close> is released without a trace:
  if the program wrote only to the bytes of its elements, \<^verbatim>\<open>deallocate\<close> finds the trap and the
  stored address as \<^verbatim>\<open>allocate\<close> left them, the pages in use are those from before, and the
  contents of all other pages in use are untouched. The elements never lie in memory that was in
  use before.
\<close>

theorem aligned_page_roundtrip:
  assumes ok: "os_ok os" and p: "aligned_page_allocate os hw cs alignment T n s = (Inr p, s1)"
    and m1: "\<And>a. a \<notin> object_bytes p (n * sizeof_T T) \<Longrightarrow> m1 a = bytes s1 a"
  shows "\<exists>s3. aligned_page_deallocate os hw cs alignment T p n (set_bytes m1 s1) = (Inr (), s3)
    \<and> page_owned os s3 = page_owned os s \<and> object_bytes p (n * sizeof_T T) \<inter> page_owned os s = {}
    \<and> (\<forall>a \<in> page_owned os s. bytes s3 a = bytes s a)"
proof (cases "traits_provides_static_alignment cs
    (Some (page_allocator_provides_static_alignment cs)) (alignment OR alignof_T T)")
  case True
  have "typed_allocate (sizeof_T T) (page_alloc os) n s = (Inr p, s1)"
    using p True by (simp add: aligned_page_allocate_def page_allocator_allocate_def)
  then show ?thesis
    using page.typed.one_life [of "sizeof_T T" "Abs_good_os os" n s p s1 m1] m1 True
    by (simp add: good_os_rep [OF ok] aligned_page_deallocate_def page_allocator_deallocate_def)
next
  case False
  have "adaptor_allocate hw alignment T (typed_allocate 1 (page_alloc os)) bytes set_bytes n s = (Inr p, s1)"
    using p False by (simp add: aligned_page_allocate_def page_allocator_allocate_def)
  then show ?thesis
    using page_adaptor.adaptor.one_life [of hw alignment T "Abs_good_os os" n s p s1 m1] m1 False
    by (simp add: good_os_rep [OF ok] aligned_page_deallocate_def page_allocator_deallocate_def)
qed

definition demo_hw :: hardware_sizes where
  "demo_hw = \<lparr>hw_large_page_size = 2097152, hw_page_size = 4096, hw_cache_line_size = 64\<rparr>"

definition demo_element :: element_type where
  "demo_element = \<lparr>sizeof_T = 24, alignof_T = 8\<rparr>"

text \<open>Ten elements with an alignment of 8192 bytes, which a page does not promise.\<close>

lemma demo_aligned_page:
  "\<exists>s'. aligned_page_allocate demo_os demo_hw 64 8192 demo_element 10 demo_state = (Inr 0x10000000, s')"
proof -
  have sel: "\<not> provides_static_alignment 64 page_alignment 8200"
    and a: "alignment_in_bytes demo_hw 8200 = 8192" by code_simp+
  have g: "adaptor_bytes demo_hw 8192 demo_element 10 = 8447" by (simp add: adaptor_bytes_def a demo_element_def)
  have "ceil_multiple 8447 4096 = 12288" by (simp add: ceil_multiple_def)
  then have "\<exists>s'. map_pages demo_os 4096 8447 demo_state = (Inr 0x10000000, s')"
    by (simp add: map_pages_def try_ceili_exact demo_os_def demo_state_def MAP_FAILED_def Let_def)
  then obtain s' where s': "page_alloc demo_os 8447 demo_state = (Inr 0x10000000, s')"
    unfolding page_alloc_eq [OF demo_os_ok] by (auto simp: demo_os_def)
  have al: "std_align 8192 248 0x10000000 8447 = Some (0x10000000, 8447)"
    by (simp add: std_align_def ceil_multiple_def Let_def)
  have e: "sizeof_T demo_element = 24" "alignof_T demo_element = 8" by (simp_all add: demo_element_def)
  have le: "\<not> (- 1 :: size_t) \<le> 8447" by code_simp
  show ?thesis
    by (simp add: aligned_page_allocate_def traits_provides_static_alignment_def page_allocator_provides_static_alignment_def
        e sel adaptor_allocate_def page_allocator_allocate_def typed_allocate_def a g s' al le Let_def)
qed

lemma aligned_page_roundtrip_witness:
  "\<exists>s1 s3. aligned_page_allocate demo_os demo_hw 64 8192 demo_element 10 demo_state = (Inr 0x10000000, s1)
    \<and> aligned_page_deallocate demo_os demo_hw 64 8192 demo_element 0x10000000 10
        (set_bytes ((bytes s1)(0x10000000 := 7)) s1) = (Inr (), s3) \<and> page_owned demo_os s3 = {}"
proof -
  obtain s1 where s1: "aligned_page_allocate demo_os demo_hw 64 8192 demo_element 10 demo_state = (Inr 0x10000000, s1)"
    using demo_aligned_page by blast
  have "0x10000000 \<in> object_bytes 0x10000000 (10 * sizeof_T demo_element)"
    by (simp add: object_bytes_def demo_element_def)
  moreover have "page_owned demo_os demo_state = {}" by (simp add: page_owned_def demo_state_def)
  ultimately have "\<exists>s3. aligned_page_deallocate demo_os demo_hw 64 8192 demo_element 0x10000000 10
        (set_bytes ((bytes s1)(0x10000000 := 7)) s1) = (Inr (), s3) \<and> page_owned demo_os s3 = {}"
    using aligned_page_roundtrip [OF demo_os_ok s1, of "(bytes s1)(0x10000000 := 7)"] by fastforce
  with s1 show ?thesis by blast
qed

text \<open>
  C29: The adaptor over \<^verbatim>\<open>page_allocator\<close> always returns memory of the requested alignment,
  whether it aligns the address itself or relies on the static promise of the page allocator, for
  special alignments and combined ones too, if the page size is a power of two and the cache
  line size reported is consistent.
\<close>

theorem aligned_page_is_aligned:
  assumes ok: "os_ok os" and p: "aligned_page_allocate os hw cs alignment T n s = (Inr p, s1)"
    and hw: "hw_consistent cs hw" "hw_page_size hw = page_size os" "unat (page_size os) = 2 ^ m" "m < 61"
  shows "unat (alignment_in_bytes hw (alignment OR alignof_T T)) dvd unat p"
proof (cases "traits_provides_static_alignment cs
    (Some (page_allocator_provides_static_alignment cs)) (alignment OR alignof_T T)")
  case True
  then have "page_allocator_allocate os (sizeof_T T) n s = (Inr p, s1)" using p by (simp add: aligned_page_allocate_def)
  then have "2 ^ m dvd unat p" using page_allocator_aligned [OF ok] hw(3) by metis
  moreover have "provides_static_alignment cs page_alignment (alignment OR alignof_T T)"
    using True by (simp add: traits_provides_static_alignment_def page_allocator_provides_static_alignment_def)
  ultimately show ?thesis using page_promise_kept [OF hw(1) _ hw(4)] hw(2,3) by simp
next
  case False
  have "adaptor_allocate hw alignment T (typed_allocate 1 (page_alloc os)) bytes set_bytes n s = (Inr p, s1)"
    using p False by (simp add: aligned_page_allocate_def page_allocator_allocate_def)
  then have "adaptor_intact hw alignment T bytes (typed_intact 1 (page_intact os)) s1 p n"
    using page_adaptor.adaptor_alloc_Inr [of hw alignment T "Abs_good_os os" n s p s1]
    by (simp add: good_os_rep [OF ok])
  then show ?thesis by (simp add: adaptor_intact_def Let_def)
qed


lemma aligned_page_is_aligned_witness:
  "unat (alignment_in_bytes demo_hw (8192 OR alignof_T demo_element)) dvd unat (0x10000000 :: size_t)"
proof -
  obtain s1 where s1: "aligned_page_allocate demo_os demo_hw 64 8192 demo_element 10 demo_state = (Inr 0x10000000, s1)"
    using demo_aligned_page by blast
  show ?thesis
    by (rule aligned_page_is_aligned [OF demo_os_ok s1, where m = 12])
      (simp_all add: hw_consistent_def hw_in_range_def demo_hw_def demo_os_def)
qed

text \<open>
  \<^verbatim>\<open>aligned_allocator<T, Alignment>\<close> keeps overlapping allocations apart: two arrays that live
  at the same time do not overlap, are aligned as requested, keep what was stored in them while
  the other one is allocated and released, and both are released to the heap with the size and
  the alignment they were allocated with, which leaves nothing behind.
\<close>

theorem aligned_allocator_two_lives:
  assumes "aligned_allocator_allocate pick hw alignment al sz n h = (Inr p, h1)"
    and "\<And>a. a \<notin> object_bytes p (n * sz) \<Longrightarrow> m1 a = contents h1 a"
    and "aligned_allocator_allocate pick hw alignment al sz k (set_contents m1 h1) = (Inr q, h2)"
    and "\<And>a. a \<notin> object_bytes q (k * sz) \<Longrightarrow> m2 a = contents h2 a"
  shows "\<exists>h3 h4. aligned_allocator_deallocate hw alignment al sz p n (set_contents m2 h2) = (Inr (), h3)
    \<and> aligned_allocator_deallocate hw alignment al sz q k h3 = (Inr (), h4)
    \<and> object_bytes p (n * sz) \<inter> object_bytes q (k * sz) = {}
    \<and> (\<forall>a \<in> object_bytes p (n * sz). contents h2 a = m1 a)
    \<and> (\<forall>a \<in> object_bytes q (k * sz). contents h3 a = m2 a) \<and> heap_owned h4 = heap_owned h
    \<and> unat (alignment_in_bytes hw (alignment OR al)) dvd unat p
    \<and> unat (alignment_in_bytes hw (alignment OR al)) dvd unat q"
proof -
  have al: "unat (alignment_in_bytes hw (alignment OR al)) dvd unat r"
    if "aligned_allocator_allocate pick hw alignment al sz j g = (Inr r, g')" for j g r g'
    using that operator_new_Inr(1) unfolding aligned_allocator_typed
    by (fastforce simp: typed_allocate_def legal_def Let_def split: if_splits)
  show ?thesis
    using heap.typed.two_lives [OF assms [unfolded aligned_allocator_typed]] al [OF assms(1)] al [OF assms(3)]
    unfolding aligned_allocator_typed by blast
qed

definition demo_pick :: heap_choice where
  "demo_pick h n a = (if blocks h 4096 = None then Some 4096 else Some 8192)"

definition demo_heap :: heap where
  "demo_heap = \<lparr>blocks = (\<lambda>_. None), contents = (\<lambda>_. 170)\<rparr>"

lemma aligned_allocator_two_lives_witness:
  "\<exists>h1 h2 h3 h4. aligned_allocator_allocate demo_pick demo_hw 256 8 24 10 demo_heap = (Inr 4096, h1)
    \<and> aligned_allocator_allocate demo_pick demo_hw 256 8 24 3 h1 = (Inr 8192, h2)
    \<and> aligned_allocator_deallocate demo_hw 256 8 24 4096 10 h2 = (Inr (), h3)
    \<and> aligned_allocator_deallocate demo_hw 256 8 24 8192 3 h3 = (Inr (), h4) \<and> heap_owned h4 = {}"
proof -
  have a: "alignment_in_bytes demo_hw 264 = 256" by code_simp
  define h1 where "h1 = demo_heap\<lparr>blocks := [4096 \<mapsto> (240, 256)]\<rparr>"
  define h2 where "h2 = h1\<lparr>blocks := [4096 \<mapsto> (240, 256), 8192 \<mapsto> (72, 256)]\<rparr>"
  have own: "heap_owned demo_heap = {}" "heap_owned h1 = block_bytes 4096 240"
    by (auto simp: heap_owned_def demo_heap_def h1_def split: if_splits)
  have l1: "legal demo_heap 240 256 4096" by (simp add: legal_def own)
  have l2: "legal h1 72 256 8192" by (auto simp: legal_def own block_bytes_def)
  have s1: "aligned_allocator_allocate demo_pick demo_hw 256 8 24 10 demo_heap = (Inr 4096, h1)"
    by (simp add: aligned_allocator_allocate_def a aligned_alloc_def operator_new_def demo_pick_def l1 Let_def)
      (simp add: h1_def demo_heap_def)
  have s2: "aligned_allocator_allocate demo_pick demo_hw 256 8 24 3 h1 = (Inr 8192, h2)"
    by (simp add: aligned_allocator_allocate_def a aligned_alloc_def operator_new_def demo_pick_def l2 Let_def)
      (simp add: h1_def h2_def l2 [unfolded h1_def])
  have e: "set_contents (contents h) h = h" for h by (simp add: set_contents_def)
  show ?thesis
    using aligned_allocator_two_lives [OF s1 refl, unfolded e, OF s2 refl, unfolded e] s1 s2 own(1) by auto
qed

text \<open>
  \<^verbatim>\<open>zero_init_allocator\<close> returns memory in which every byte of every element is 0, fails with
  \<^verbatim>\<open>bad_alloc\<close> when the size does not fit, and releases the allocation.
\<close>

theorem zero_init_zeroes:
  "case zero_init_allocate pick sz n h of
     (Inr p, h') \<Rightarrow> p \<noteq> 0 \<and> (\<forall>a \<in> object_bytes p (n * sz). contents h' a = 0)
       \<and> unat (n * sz) = unat n * unat sz
       \<and> (\<forall>q k b. blocks h q = Some (k, b) \<longrightarrow> block_bytes q k \<inter> object_bytes p (n * sz) = {})
       \<and> (\<exists>h''. zero_init_deallocate p n h' = (Inr (), h'') \<and> blocks h'' = blocks h)
   | (Inl e, h') \<Rightarrow> e = BadAlloc \<and> h' = h"
proof (cases "unat n * unat sz < 2 ^ 64")
  case True
  obtain r h1 where new: "operator_new pick 16 (n * sz) h = (r, h1)" by fastforce
  show ?thesis
  proof (cases r)
    case (Inl e)
    then show ?thesis using True new operator_new_Inl [of pick 16 "n * sz" h e h1]
      by (simp add: zero_init_allocate_def std_calloc_def)
  next
    case (Inr p)
    then have l: "legal h (n * sz) 16 p" and h1: "h1 = h\<lparr>blocks := (blocks h)(p \<mapsto> (n * sz, 16))\<rparr>"
      using operator_new_Inr new by auto
    have sub: "object_bytes p (n * sz) \<subseteq> block_bytes p (n * sz)" by (auto simp: object_bytes_def block_bytes_def)
    have "block_bytes q k \<inter> object_bytes p (n * sz) = {}" if "blocks h q = Some (k, b)" for q k b
    proof -
      have "block_bytes q k \<subseteq> heap_owned h" using that unfolding heap_owned_def by blast
      then show ?thesis using l sub unfolding legal_def by blast
    qed
    moreover have "(blocks h)(p := None) = blocks h" using legal_fresh [OF l] by auto
    ultimately show ?thesis using True new Inr l sub
      by (auto simp: zero_init_allocate_def std_calloc_def zero_init_deallocate_def std_free_def h1 legal_def unat_mult_no_wrap)
  qed
next
  case False
  then show ?thesis by (simp add: zero_init_allocate_def std_calloc_def)
qed

lemma zero_init_zeroes_witness:
  "\<exists>h'. zero_init_allocate demo_pick 24 10 demo_heap = (Inr 4096, h') \<and> contents h' 4100 = 0 \<and> contents demo_heap 4100 = 170"
proof -
  have "heap_owned demo_heap = {}" by (auto simp: heap_owned_def demo_heap_def)
  then have "legal demo_heap 240 16 4096" by (simp add: legal_def)
  then obtain h' where h': "zero_init_allocate demo_pick 24 10 demo_heap = (Inr 4096, h')"
    by (simp add: zero_init_allocate_def std_calloc_def operator_new_def demo_pick_def demo_heap_def)
  have "4100 \<in> object_bytes 4096 (10 * 24)" by (simp add: object_bytes_def)
  then show ?thesis using zero_init_zeroes [where pick = demo_pick and sz = 24 and n = 10 and h = demo_heap] h' by (auto simp: demo_heap_def)
qed

end
