(* ===== verification/Unique_Ptr.thy ===== *)
theory Unique_Ptr
  imports Allocator_Stack
begin

text \<open>
  \<^verbatim>\<open>allocate_unique\<close> with the allocators of the library: what the contract of an allocator gives
  in the theory \<^verbatim>\<open>Construct\<close>, for \<^verbatim>\<open>aligned_allocator\<close> on the heap and for \<^verbatim>\<open>page_allocator\<close>.
\<close>

text \<open>
  C30: \<^verbatim>\<open>allocate_unique<T[]>\<close> with an \<^verbatim>\<open>aligned_allocator\<close> either returns a pointer to that many
  newly constructed objects, whose deleter destroys each of them once and gives the memory back,
  or it throws \<^verbatim>\<open>bad_alloc\<close> or what the constructor of an element threw; then all elements
  constructed so far are destroyed, the memory is given back, and no other object is touched.
\<close>

theorem unique_array_roundtrip:
  assumes "live o1 \<subseteq> heap_owned (store o1)" "sz \<noteq> 0" "unat n < 2 ^ 63" "isNothrow \<longrightarrow> (\<forall>k. \<not> throws k)"
  shows "case allocate_unique_array isNothrow throws (aligned_allocator_allocate pick hw alignment al sz)
        (aligned_allocator_deallocate hw alignment al sz) sz n o1 of
      (Inr u, o2) \<Rightarrow> \<exists>p o3. u = UniqueArray p n \<and> card (live o2 - live o1) = unat n
        \<and> live o1 \<subseteq> live o2 \<and> live o2 \<subseteq> heap_owned (store o2)
        \<and> delete_unique (aligned_allocator_deallocate hw alignment al sz) sz u o2 = (Inr (), o3)
        \<and> live o3 = live o1 \<and> heap_owned (store o3) = heap_owned (store o1)
    | (Inl e, o2) \<Rightarrow> live o2 = live o1 \<and> heap_owned (store o2) = heap_owned (store o1)
        \<and> ((\<exists>c. e = ElementException c \<and> throws c) \<or> e = BadAlloc)"
proof -
  have bad: "e = BadAlloc" if "typed_allocate sz (operator_new pick a) n h = (Inl e, h')" for a h e h'
    using that by (auto simp: typed_allocate_def operator_new_def Let_def split: if_splits option.splits)
  show ?thesis
    using heap.typed.unique_array_life [OF assms, of pick "alignment_in_bytes hw (alignment OR al)"] bad
    unfolding aligned_allocator_typed by (fastforce split: prod.splits sum.splits)
qed

definition demo_objects :: "heap objects" where
  "demo_objects = \<lparr>store = demo_heap, live = {}, constructions = 0\<rparr>"

lemma unique_array_roundtrip_witness:
  "case allocate_unique_array False (\<lambda>k. k = 2) (aligned_allocator_allocate demo_pick demo_hw 256 8 24)
        (aligned_allocator_deallocate demo_hw 256 8 24) 24 3 demo_objects of
      (Inr u, o2) \<Rightarrow> False
    | (Inl e, o2) \<Rightarrow> e = ElementException 2 \<and> live o2 = {} \<and> heap_owned (store o2) = {}"
proof -
  have h: "heap_owned demo_heap = {}" by (auto simp: heap_owned_def demo_heap_def)
  have a: "alignment_in_bytes demo_hw 264 = 256" by code_simp
  have l: "legal demo_heap 72 256 4096" by (simp add: legal_def h)
  define o2 where "o2 = \<lparr>store = demo_heap\<lparr>blocks := [4096 \<mapsto> (72, 256)]\<rparr>, live = {}, constructions = 0\<rparr>"
  have al: "aligned_allocator_allocate demo_pick demo_hw 256 8 24 3 demo_heap = (Inr 4096, store o2)"
    by (simp add: aligned_allocator_allocate_def a aligned_alloc_def operator_new_def demo_pick_def l Let_def)
      (simp add: demo_heap_def o2_def)
  have els: "elements 24 4096 3 = [4096, 4120, 4144]" by code_simp
  have els2: "elements 24 4096 (Suc (Suc 0)) = [4096, 4120]" by code_simp
  let ?r = "allocate_unique_array False (\<lambda>k. k = 2) (aligned_allocator_allocate demo_pick demo_hw 256 8 24)
        (aligned_allocator_deallocate demo_hw 256 8 24) 24 3 demo_objects"
  have r: "fst ?r = Inl (ElementException 2)"
    by (simp add: allocate_unique_array_def allocate_array_def on_store_def demo_objects_def al els els2 construct_def
        transaction_def then_do_def destroy_def aligned_allocator_deallocate_def a aligned_free_def operator_delete_def o2_def)
  show ?thesis
    using unique_array_roundtrip [where ?o1.0 = demo_objects and sz = 24 and n = 3 and isNothrow = False
        and throws = "\<lambda>k. k = 2" and pick = demo_pick and hw = demo_hw and alignment = 256 and al = 8] r h
    by (simp add: demo_objects_def split: prod.splits sum.splits)
qed

end
