(* ===== verification/Buffer_Loops.thy ===== *)
theory Buffer_Loops
  imports Construct
begin

text \<open>
  The loops of \<^verbatim>\<open>include/patton/detail/buffer.hpp\<close> that construct and destroy the elements of a
  buffer. They run over byte offsets of type \<^verbatim>\<open>std::ptrdiff_t\<close>. Overflow of a loop variable is
  undefined behaviour and part of the model; so is the counter of constructed elements, which
  the rollback of a constructor uses.
\<close>

section \<open>Counting loops\<close>

text \<open>
  \<^verbatim>\<open>for (std::ptrdiff_t i = ..., d = ..., e = ...; i != e; i += d) body\<close>. A failure of the body, or an
  early return, which are values of the type \<^verbatim>\<open>'e\<close>, leaves the loop. The overflow of \<^verbatim>\<open>i\<close> is \<^verbatim>\<open>ub\<close>, and
  so is a loop that makes no progress.
\<close>

definition in_ptrdiff :: "int \<Rightarrow> bool" where
  "in_ptrdiff i \<longleftrightarrow> - (2 ^ 63) \<le> i \<and> i < 2 ^ 63"

function ptr_loop :: "'e \<Rightarrow> (int \<Rightarrow> 'o \<Rightarrow> ('e + unit) \<times> 'o) \<Rightarrow> int \<Rightarrow> int \<Rightarrow> int \<Rightarrow> 'o \<Rightarrow> ('e + unit) \<times> 'o" where
  "ptr_loop ub body d e i o1 =
     (if i = e then (Inr (), o1)
      else case body i o1 of
          (Inl x, o2) \<Rightarrow> (Inl x, o2)
        | (Inr _, o2) \<Rightarrow>
            if d = 0 \<or> \<not> in_ptrdiff (i + d) then (Inl ub, o2) else ptr_loop ub body d e (i + d) o2)"
  by pat_completeness auto
termination
  by (relation "measure (\<lambda>(ub, body, d, e, i, o1). nat (if 0 < d then 2 ^ 63 - i else 2 ^ 63 + i))")
    (auto simp: in_ptrdiff_def split: if_splits)

declare ptr_loop.simps [simp del]

section \<open>The loops of a buffer\<close>

text \<open>A constructor call followed by \<^verbatim>\<open>++numElementsConstructed\<close>.\<close>

fun construct_counted :: "(nat \<Rightarrow> bool) \<Rightarrow> size_t \<Rightarrow> size_t \<times> 's objects \<Rightarrow> unit res \<times> size_t \<times> 's objects" where
  "construct_counted throws a (numElementsConstructed, o1) =
     (case construct throws a o1 of
        (Inl x, o2) \<Rightarrow> (Inl x, numElementsConstructed, o2)
      | (Inr _, o2) \<Rightarrow> (Inr (), numElementsConstructed + 1, o2))"

text \<open>
  \<^verbatim>\<open>construct_aligned_buffer\<close>, both overloads. The state includes \<^verbatim>\<open>numElementsConstructed\<close>. An
  exception that leaves the \<^verbatim>\<open>noexcept\<close> overload ends the program.
\<close>

definition construct_aligned_buffer ::
  "bool \<Rightarrow> (nat \<Rightarrow> bool) \<Rightarrow> size_t \<Rightarrow> size_t \<Rightarrow> size_t \<Rightarrow> size_t \<times> 's objects \<Rightarrow> unit res \<times> size_t \<times> 's objects" where
  "construct_aligned_buffer isNothrow throws p sz bytesPerElement c =
     (let d = sint bytesPerElement; e = sint (sz * bytesPerElement) in
      if isNothrow then
        (case ptr_loop UndefinedBehaviour (\<lambda>i. construct throws (p + word_of_int i)) d e 0 (snd c) of
           (Inl x, o2) \<Rightarrow> (Inl (if is_exception x then Terminated else x), fst c, o2)
         | (Inr _, o2) \<Rightarrow> (Inr (), sz, o2))
      else
        ptr_loop UndefinedBehaviour
          (\<lambda>i. construct_counted throws (p + word_of_int i)) d e 0 c)"

definition destroy_aligned_buffer :: "size_t \<Rightarrow> size_t \<Rightarrow> size_t \<Rightarrow> 's objects \<Rightarrow> unit res \<times> 's objects" where
  "destroy_aligned_buffer p sz bytesPerElement =
     ptr_loop UndefinedBehaviour (\<lambda>i. destroy (p + word_of_int i)) (sint bytesPerElement) (sint (sz * bytesPerElement)) 0"

section \<open>The loops of a row buffer\<close>

definition row_loop ::
  "'e \<Rightarrow> (size_t \<Rightarrow> 'o \<Rightarrow> ('e + unit) \<times> 'o) \<Rightarrow> size_t \<Rightarrow> size_t \<Rightarrow> size_t \<Rightarrow> size_t \<Rightarrow> size_t \<Rightarrow> 'o \<Rightarrow> ('e + unit) \<times> 'o" where
  "row_loop ub body sz p rows cols bytesPerRow =
     ptr_loop ub (\<lambda>i. ptr_loop ub (\<lambda>j. body (p + (word_of_int i + word_of_int j * sz))) 1 (sint cols) 0)
       (sint bytesPerRow) (sint (rows * bytesPerRow)) 0"

text \<open>\<^verbatim>\<open>construct_aligned_row_buffer\<close>, both overloads; the one that may throw sets the counter to 0.\<close>

definition construct_aligned_row_buffer ::
  "bool \<Rightarrow> (nat \<Rightarrow> bool) \<Rightarrow> size_t \<Rightarrow> size_t \<Rightarrow> size_t \<Rightarrow> size_t \<Rightarrow> size_t \<Rightarrow> size_t \<times> 's objects \<Rightarrow>
     unit res \<times> size_t \<times> 's objects" where
  "construct_aligned_row_buffer isNothrow throws sz p rows cols bytesPerRow c =
     (if isNothrow then
        (case row_loop UndefinedBehaviour (construct throws) sz p rows cols bytesPerRow (snd c) of
           (Inl x, o2) \<Rightarrow> (Inl (if is_exception x then Terminated else x), fst c, o2)
         | (Inr _, o2) \<Rightarrow> (Inr (), rows * cols, o2))
      else
        row_loop UndefinedBehaviour (construct_counted throws) sz p rows cols bytesPerRow (0, snd c))"

text \<open>
  \<^verbatim>\<open>destroy_aligned_row_buffer\<close>: the whole buffer, and the overload that returns when the given
  number of elements is destroyed. A return from within the loops is \<^verbatim>\<open>None\<close>.
\<close>

definition destroy_aligned_row_buffer ::
  "size_t \<Rightarrow> size_t \<Rightarrow> size_t \<Rightarrow> size_t \<Rightarrow> size_t \<Rightarrow> 's objects \<Rightarrow> unit res \<times> 's objects" where
  "destroy_aligned_row_buffer sz p rows cols bytesPerRow =
     row_loop UndefinedBehaviour destroy sz p rows cols bytesPerRow"

definition destroy_constructed_rows ::
  "size_t \<Rightarrow> size_t \<Rightarrow> size_t \<Rightarrow> size_t \<Rightarrow> size_t \<Rightarrow> size_t \<Rightarrow> 's objects \<Rightarrow> unit res \<times> 's objects" where
  "destroy_constructed_rows sz p rows cols bytesPerRow numElementsConstructed o1 =
     (case row_loop (Some UndefinedBehaviour)
        (\<lambda>a (count, o1).
           if count = 0 then (Inl None, count, o1)
           else
             (case destroy a o1 of
                (Inl x, o2) \<Rightarrow> (Inl (Some x), count - 1, o2)
              | (Inr _, o2) \<Rightarrow> (Inr (), count - 1, o2)))
        sz p rows cols bytesPerRow (numElementsConstructed, o1) of
        (Inl (Some x), _, o2) \<Rightarrow> (Inl x, o2)
      | (_, _, o2) \<Rightarrow> (Inr (), o2))"

section \<open>The loops as loops over lists of addresses\<close>

fun for_each :: "('x \<Rightarrow> 'o \<Rightarrow> ('e + unit) \<times> 'o) \<Rightarrow> 'x list \<Rightarrow> 'o \<Rightarrow> ('e + unit) \<times> 'o" where
  "for_each body [] o1 = (Inr (), o1)"
| "for_each body (x # xs) o1 =
     (case body x o1 of (Inl e, o2) \<Rightarrow> (Inl e, o2) | (Inr _, o2) \<Rightarrow> for_each body xs o2)"

lemma for_each_map: "for_each body (map f xs) = for_each (\<lambda>x. body (f x)) xs"
proof
  show "for_each body (map f xs) o1 = for_each (\<lambda>x. body (f x)) xs o1" for o1
    by (induction xs arbitrary: o1) (simp_all split: prod.split sum.split)
qed

lemma for_each_append:
  "for_each body (xs @ ys) o1 =
     (case for_each body xs o1 of (Inl e, o2) \<Rightarrow> (Inl e, o2) | (Inr _, o2) \<Rightarrow> for_each body ys o2)"
  by (induction xs arbitrary: o1) (simp_all split: prod.split sum.split)

lemma for_each_concat: "for_each body (concat xss) = for_each (for_each body) xss"
proof
  show "for_each body (concat xss) o1 = for_each (for_each body) xss o1" for o1
    by (induction xss arbitrary: o1) (simp_all add: for_each_append split: prod.split sum.split)
qed

lemma ptr_loop_for_each:
  assumes "0 < d" "- (2 ^ 63) \<le> i" "i + int m * d < 2 ^ 63"
  shows "ptr_loop ub body d (i + int m * d) i o1 = for_each body (map (\<lambda>k. i + int k * d) [0..<m]) o1"
  using assms
proof (induction m arbitrary: i o1)
  case 0
  show ?case by (subst ptr_loop.simps) simp
next
  case (Suc m)
  have e: "i + int (Suc m) * d = (i + d) + int m * d" by (simp add: algebra_simps)
  have "0 \<le> int m * d" using Suc.prems(1) by simp
  then have "i + d < 2 ^ 63" "i \<noteq> i + int (Suc m) * d" using Suc.prems(1,3) unfolding e by linarith+
  then have r: "in_ptrdiff (i + d)" "i \<noteq> i + int (Suc m) * d" using Suc.prems(1,2) by (simp_all add: in_ptrdiff_def)
  have l: "map (\<lambda>k. i + int k * d) [0..<Suc m] = i # map (\<lambda>k. (i + d) + int k * d) [0..<m]"
    unfolding upt_conv_Cons [OF zero_less_Suc] map_Suc_upt [symmetric] by (simp add: algebra_simps)
  have "ptr_loop ub body d ((i + d) + int m * d) (i + d) o2 = for_each body (map (\<lambda>k. (i + d) + int k * d) [0..<m]) o2" for o2
    using Suc.prems by (intro Suc.IH) (simp_all add: algebra_simps)
  then show ?case
    using Suc.prems(1) r unfolding l e by (subst ptr_loop.simps) (simp split: prod.split sum.split)
qed

text \<open>In terms of the code's \<^verbatim>\<open>size_t\<close> values.\<close>

lemma sint_small:
  assumes "unat (x :: size_t) < 2 ^ 63"
  shows "sint x = int (unat x)"
proof -
  have "int (unat x) < int (2 ^ 63)" using assms by (simp only: of_nat_less_iff)
  then have "uint x < 2 ^ 63" by simp
  then have "signed_take_bit 63 (uint x) = uint x" by (intro signed_take_bit_int_eq_self) (simp_all add: order_trans [OF _ uint_ge_0])
  then show ?thesis by (simp add: sint_uint)
qed

lemma size_t_loop:
  fixes d n :: size_t
  assumes "0 < unat d" "unat n * unat d < 2 ^ 63"
  shows "ptr_loop ub body (sint d) (sint (n * d)) 0 o1 = for_each body (map (\<lambda>k. int k * int (unat d)) [0..<unat n]) o1"
proof (cases "n = 0")
  case True
  then show ?thesis by (subst ptr_loop.simps) simp
next
  case False
  then have "0 < unat n" by (simp add: unat_gt_0)
  then have "unat d \<le> unat n * unat d" by simp
  then have d: "unat d < 2 ^ 63" using assms(2) by linarith
  have nd: "unat (n * d) = unat n * unat d" using assms(2) unat_mult_no_wrap [of n d] by simp
  have "int (unat n * unat d) < int (2 ^ 63)" using assms(2) by (simp only: of_nat_less_iff)
  then have b: "0 + int (unat n) * int (unat d) < 2 ^ 63" by simp
  have "(0 :: int) < int (unat d)" using assms(1) by (simp only: of_nat_0_less_iff)
  then have "ptr_loop ub body (int (unat d)) (0 + int (unat n) * int (unat d)) 0 o1
      = for_each body (map (\<lambda>k. 0 + int k * int (unat d)) [0..<unat n]) o1"
    using b by (intro ptr_loop_for_each) simp_all
  moreover have "sint (n * d) = int (unat n) * int (unat d)"
    using assms(2) nd sint_small [of "n * d"] by (simp only: of_nat_mult)
  ultimately show ?thesis by (simp only: sint_small [OF d] add_0)
qed

lemma word_of_int_nat: "word_of_int (int k) = (word_of_nat k :: size_t)"
  by simp

lemma for_each_destroy: "for_each destroy as = destroy_loop as"
proof
  show "for_each destroy as o1 = destroy_loop as o1" for o1 :: "'s objects"
    by (induction as arbitrary: o1) (simp_all split: prod.split sum.split)
qed

lemma for_each_construct:
  "for_each (construct throws) as o1 = (case construct_loop throws as (i, o1) of (r, k, o2) \<Rightarrow> (r, o2))"
proof (induction as arbitrary: i o1)
  case (Cons a as)
  show ?case using Cons.IH [where i = "Suc i"] by (simp split: prod.split sum.split)
qed simp

lemma for_each_counted:
  fixes o1 :: "'s objects"
  shows "for_each (construct_counted throws) as (c + word_of_nat i, o1)
   = (case construct_loop throws as (i, o1) of (r, k, o2) \<Rightarrow> (r, c + word_of_nat k, o2))"
proof (induction as arbitrary: i o1)
  case (Cons a as)
  have "for_each (construct_counted throws) as (c + word_of_nat i + 1, o2)
      = (case construct_loop throws as (Suc i, o2) of (r, k, o2) \<Rightarrow> (r, c + word_of_nat k, o2))" for o2 :: "'s objects"
    using Cons.IH [of "Suc i" o2] by (simp add: ac_simps)
  then show ?case by (simp split: prod.split sum.split)
qed simp

section \<open>The elements that the loops visit\<close>

lemma element_loop:
  assumes "0 < unat d" "unat n * unat d < 2 ^ 63"
  shows "ptr_loop ub (\<lambda>i. body (p + word_of_int i)) (sint d) (sint (n * d)) 0 o1 = for_each body (elements d p (unat n)) o1"
proof -
  have "map (\<lambda>i. p + word_of_int i) (map (\<lambda>k. int k * int (unat d)) [0..<unat n]) = elements d p (unat n)"
    by (simp add: elements_def element_address_def)
  then show ?thesis unfolding size_t_loop [OF assms] using for_each_map [of body] by metis
qed

lemma destroy_aligned_buffer_eq:
  assumes "0 < unat d" "unat n * unat d < 2 ^ 63"
  shows "destroy_aligned_buffer p n d o1 = destroy_loop (elements d p (unat n)) o1"
  by (simp add: destroy_aligned_buffer_def element_loop [OF assms] for_each_destroy)

lemma construct_aligned_buffer_eq:
  assumes "0 < unat d" "unat n * unat d < 2 ^ 63"
  shows "construct_aligned_buffer isNothrow throws p n d (c, o1) =
    (case construct_loop throws (elements d p (unat n)) (0, o1) of
       (Inl x, k, o2) \<Rightarrow>
         if isNothrow then (Inl (if is_exception x then Terminated else x), c, o2) else (Inl x, c + word_of_nat k, o2)
     | (Inr _, k, o2) \<Rightarrow> (Inr (), if isNothrow then n else c + word_of_nat k, o2))"
  using for_each_counted [of throws _ c 0 o1] for_each_construct [of throws _ o1 0]
  by (auto simp: construct_aligned_buffer_def element_loop [OF assms] split: prod.splits sum.splits)

definition row_elements :: "size_t \<Rightarrow> size_t \<Rightarrow> nat \<Rightarrow> nat \<Rightarrow> size_t \<Rightarrow> size_t list" where
  "row_elements sz p rows cols bytesPerRow =
     concat (map (\<lambda>r. elements sz (element_address bytesPerRow p r) cols) [0..<rows])"

lemma row_loop_eq:
  assumes "0 < unat d" "unat rows * unat d < 2 ^ 63" "unat cols < 2 ^ 63"
  shows "row_loop ub body sz p rows cols d o1 = for_each body (row_elements sz p (unat rows) (unat cols) d) o1"
proof -
  have inner: "ptr_loop ub (\<lambda>j. body (p + (word_of_int i + word_of_int j * sz))) 1 (sint cols) 0
      = for_each body (elements sz (p + word_of_int i) (unat cols))" (is "?l = ?r") for i
  proof
    fix o1
    have "(\<lambda>j. p + (word_of_int i + word_of_int j * sz)) (int k) = element_address sz (p + word_of_int i) k" for k
      by (simp add: element_address_def add.assoc)
    then have "map (\<lambda>j. p + (word_of_int i + word_of_int j * sz)) (map (\<lambda>k. int k * int (unat (1 :: size_t))) [0..<unat cols])
        = elements sz (p + word_of_int i) (unat cols)"
      by (simp add: elements_def)
    then have "for_each (\<lambda>j. body (p + (word_of_int i + word_of_int j * sz))) (map (\<lambda>k. int k * int (unat (1 :: size_t))) [0..<unat cols])
        = ?r"
      using for_each_map [of body "\<lambda>j. p + (word_of_int i + word_of_int j * sz)"] by metis
    then show "?l o1 = ?r o1"
      using size_t_loop [of 1 cols ub "\<lambda>j. body (p + (word_of_int i + word_of_int j * sz))" o1] assms(3) by simp
  qed
  show ?thesis
    using element_loop [OF assms(1,2), of ub "\<lambda>q. for_each body (elements sz q (unat cols))" p o1]
    by (simp add: row_loop_def inner row_elements_def for_each_concat for_each_map elements_def [of d])
qed

lemma destroy_aligned_row_buffer_eq:
  assumes "0 < unat d" "unat rows * unat d < 2 ^ 63" "unat cols < 2 ^ 63"
  shows "destroy_aligned_row_buffer sz p rows cols d o1 = destroy_loop (row_elements sz p (unat rows) (unat cols) d) o1"
  by (simp add: destroy_aligned_row_buffer_def row_loop_eq [OF assms] for_each_destroy)

lemma construct_aligned_row_buffer_eq:
  assumes "0 < unat d" "unat rows * unat d < 2 ^ 63" "unat cols < 2 ^ 63"
  shows "construct_aligned_row_buffer isNothrow throws sz p rows cols d (c, o1) =
    (case construct_loop throws (row_elements sz p (unat rows) (unat cols) d) (0, o1) of
       (Inl x, k, o2) \<Rightarrow>
         if isNothrow then (Inl (if is_exception x then Terminated else x), c, o2) else (Inl x, word_of_nat k, o2)
     | (Inr _, k, o2) \<Rightarrow> (Inr (), if isNothrow then rows * cols else word_of_nat k, o2))"
  using for_each_counted [of throws _ 0 0 o1] for_each_construct [of throws _ o1 0]
  by (auto simp: construct_aligned_row_buffer_def row_loop_eq [OF assms] split: prod.splits sum.splits)

text \<open>The overload that stops destroys the first elements, as many as it is told.\<close>

lemma for_each_stopping:
  fixes o1 :: "'s objects"
  assumes "k \<le> length as" "length as < 2 ^ 64" "destroy_loop (take k as) o1 = (Inr (), o3)"
  shows "for_each (\<lambda>a (count, o1). if count = 0 then (Inl None, count, o1)
      else (case destroy a o1 of (Inl x, o2) \<Rightarrow> (Inl (Some x), count - 1, o2) | (Inr _, o2) \<Rightarrow> (Inr (), count - 1, o2)))
    as (word_of_nat k :: size_t, o1) = (if k = length as then Inr () else Inl None, 0, o3)"
  using assms
proof (induction as arbitrary: k o1)
  case (Cons a as)
  show ?case
  proof (cases k)
    case (Suc j)
    have "(word_of_nat (Suc j) :: size_t) \<noteq> 0"
      using Cons.prems(1,2) Suc by (simp add: word_unat_eq_iff unat_of_nat_no_wrap del: of_nat_Suc)
    moreover have "(word_of_nat (Suc j) :: size_t) - 1 = word_of_nat j" by simp
    ultimately show ?thesis using Cons Suc by (auto split: prod.splits sum.splits simp del: of_nat_Suc)
  qed (use Cons.prems in simp)
qed simp

lemma destroy_constructed_rows_eq:
  assumes "0 < unat d" "unat rows * unat d < 2 ^ 63" "unat cols < 2 ^ 63"
    and "k \<le> length (row_elements sz p (unat rows) (unat cols) d)"
    and "length (row_elements sz p (unat rows) (unat cols) d) < 2 ^ 64"
    and "destroy_loop (take k (row_elements sz p (unat rows) (unat cols) d)) o1 = (Inr (), o3)"
  shows "destroy_constructed_rows sz p rows cols d (word_of_nat k) o1 = (Inr (), o3)"
  by (simp add: destroy_constructed_rows_def row_loop_eq [OF assms(1-3)] for_each_stopping [OF assms(4-6)])

end
