(* ===== verification/Buffer.thy ===== *)
theory Buffer
  imports Buffer_Loops Aligned_Adaptor
begin

text \<open>
  The class \<^verbatim>\<open>aligned_buffer<T, Alignment, A>\<close> of \<^verbatim>\<open>include/patton/buffer.hpp\<close>, over an allocator of
  bytes: construction with rollback, destruction, moves between variables, and access. The last
  part states, from the contract of the allocator alone, that every program that uses
  buffers keeps the objects and the memory in order.
\<close>

section \<open>The class\<close>

record aligned_buffer =
  buf_data :: size_t
  buf_size :: size_t
  bytesPerElement :: size_t

definition computeBytesPerElement :: "hardware_sizes \<Rightarrow> size_t \<Rightarrow> element_type \<Rightarrow> size_t res" where
  "computeBytesPerElement hw alignment T =
     res_bind (try_ceili (sizeof_T T) (alignment_in_bytes hw (alignment OR alignof_T T))) (\<lambda>bytesPerElementR.
     if arith_ec bytesPerElementR \<noteq> NoError then Inl BadAlloc else Inr (arith_value bytesPerElementR))"

text \<open>
  The constructor. The local variable \<^verbatim>\<open>numElementsConstructed\<close> is not initialised; the parameter
  \<^verbatim>\<open>garbage\<close> is the value it happens to have. The others say whether and when the constructor
  of an element throws.
\<close>

definition make_aligned_buffer ::
  "bool \<Rightarrow> (nat \<Rightarrow> bool) \<Rightarrow> size_t \<Rightarrow> (size_t \<Rightarrow> 's \<Rightarrow> size_t res \<times> 's) \<Rightarrow> (size_t \<Rightarrow> size_t \<Rightarrow> 's \<Rightarrow> unit res \<times> 's) \<Rightarrow>
     hardware_sizes \<Rightarrow> size_t \<Rightarrow> element_type \<Rightarrow> size_t \<Rightarrow> 's objects \<Rightarrow> aligned_buffer res \<times> 's objects" where
  "make_aligned_buffer isNothrow throws garbage alloc dealloc hw alignment T n o1 =
     (case computeBytesPerElement hw alignment T of
        Inl e \<Rightarrow> (Inl e, o1)
      | Inr d \<Rightarrow>
          if n = 0 then (Inr \<lparr>buf_data = 0, buf_size = n, bytesPerElement = d\<rparr>, o1)
          else
            let numBytesR = try_multiply_unsigned n d in
            if arith_ec numBytesR \<noteq> NoError then (Inl BadAlloc, o1)
            else
              (case on_store (alloc (arith_value numBytesR)) o1 of
                 (Inl e, o2) \<Rightarrow> (Inl e, o2)
               | (Inr p, o2) \<Rightarrow>
                   (case transaction (\<not> isNothrow)
                       (\<lambda>(numElementsConstructed, o3).
                          let (r, o4) = then_do (destroy_aligned_buffer p numElementsConstructed d) (on_store (dealloc p (n * d))) o3
                          in (r, numElementsConstructed, o4))
                       (construct_aligned_buffer isNothrow throws p n d) (garbage, o2) of
                      (Inl e, _, o3) \<Rightarrow> (Inl e, o3)
                    | (Inr _, _, o3) \<Rightarrow> (Inr \<lparr>buf_data = p, buf_size = n, bytesPerElement = d\<rparr>, o3))))"

definition destroy_and_free ::
  "(size_t \<Rightarrow> size_t \<Rightarrow> 's \<Rightarrow> unit res \<times> 's) \<Rightarrow> aligned_buffer \<Rightarrow> 's objects \<Rightarrow> unit res \<times> 's objects" where
  "destroy_and_free dealloc b =
     then_do (destroy_aligned_buffer (buf_data b) (buf_size b) (bytesPerElement b))
       (on_store (dealloc (buf_data b) (buf_size b * bytesPerElement b)))"

text \<open>The default constructor, the move constructor (also what is left of its argument), the destructor.\<close>

definition empty_buffer :: aligned_buffer where
  "empty_buffer = \<lparr>buf_data = 0, buf_size = 0, bytesPerElement = 0\<rparr>"

definition move_construct :: "aligned_buffer \<Rightarrow> aligned_buffer \<times> aligned_buffer" where
  "move_construct rhs =
     (\<lparr>buf_data = buf_data rhs, buf_size = buf_size rhs, bytesPerElement = bytesPerElement rhs\<rparr>,
      rhs\<lparr>buf_data := 0, buf_size := 0\<rparr>)"

definition destruct_buffer ::
  "(size_t \<Rightarrow> size_t \<Rightarrow> 's \<Rightarrow> unit res \<times> 's) \<Rightarrow> aligned_buffer \<Rightarrow> 's objects \<Rightarrow> unit res \<times> 's objects" where
  "destruct_buffer dealloc b o1 = (if buf_data b \<noteq> 0 then destroy_and_free dealloc b o1 else (Inr (), o1))"

text \<open>
  The move assignment between the buffers in the variables \<^verbatim>\<open>x\<close> and \<^verbatim>\<open>y\<close>, which may be the same.
\<close>

definition move_assign ::
  "(size_t \<Rightarrow> size_t \<Rightarrow> 's \<Rightarrow> unit res \<times> 's) \<Rightarrow> nat \<Rightarrow> nat \<Rightarrow> (nat \<Rightarrow> aligned_buffer) \<Rightarrow> 's objects \<Rightarrow>
     unit res \<times> (nat \<Rightarrow> aligned_buffer) \<times> 's objects" where
  "move_assign dealloc x y vars o1 =
     (if x \<noteq> y then
        (case (if buf_data (vars x) \<noteq> 0 then destroy_and_free dealloc (vars x) o1 else (Inr (), o1)) of
           (Inl e, o2) \<Rightarrow> (Inl e, vars, o2)
         | (Inr _, o2) \<Rightarrow>
             (Inr (), vars(x := vars y, y := \<lparr>buf_data = 0, buf_size = 0, bytesPerElement = 0\<rparr>), o2))
      else (Inr (), vars, o1))"

text \<open>Element access.\<close>

definition buffer_at :: "aligned_buffer \<Rightarrow> size_t \<Rightarrow> size_t res" where
  "buffer_at b i = (if \<not> i < buf_size b then Inl ContractViolation else Inr (buf_data b + i * bytesPerElement b))"

definition buffer_empty :: "aligned_buffer \<Rightarrow> bool" where
  "buffer_empty b \<longleftrightarrow> buf_size b = 0"

definition buffer_front :: "aligned_buffer \<Rightarrow> size_t res" where
  "buffer_front b = (if buffer_empty b then Inl ContractViolation else buffer_at b 0)"

definition buffer_back :: "aligned_buffer \<Rightarrow> size_t res" where
  "buffer_back b = (if buffer_empty b then Inl ContractViolation else buffer_at b (buf_size b - 1))"

section \<open>Programs\<close>

text \<open>
  The class in use: the allocator with its memory, the element type, whether its constructor is
  declared \<^verbatim>\<open>noexcept\<close>, and what can happen in a run of the constructor of a buffer, namely which
  element constructors throw and the value that the uninitialised counter has.
\<close>

record 's buffer_class =
  class_alloc :: "size_t \<Rightarrow> 's \<Rightarrow> size_t res \<times> 's"
  class_dealloc :: "size_t \<Rightarrow> size_t \<Rightarrow> 's \<Rightarrow> unit res \<times> 's"
  class_mem :: "'s \<Rightarrow> memory"
  class_set_mem :: "memory \<Rightarrow> 's \<Rightarrow> 's"
  class_hw :: hardware_sizes
  class_alignment :: size_t
  class_T :: element_type
  class_nothrow :: bool
  class_allowed :: "(nat \<Rightarrow> bool) \<Rightarrow> size_t \<Rightarrow> bool"

text \<open>
  What a program can do with the buffers in its variables: declare one of \<^verbatim>\<open>n\<close> elements, declare an
  empty one, declare one by move construction, assign by move, write to an element, and leave
  the scope of one. The statement \<^verbatim>\<open>program_step C s r s'\<close> says that a step from \<^verbatim>\<open>s\<close> can end with
  the result \<^verbatim>\<open>r\<close> in \<^verbatim>\<open>s'\<close>.
\<close>

type_synonym 's program = "(nat \<Rightarrow> aligned_buffer option) \<times> 's objects"

definition the_var :: "(nat \<Rightarrow> aligned_buffer option) \<Rightarrow> nat \<Rightarrow> aligned_buffer" where
  "the_var vars x = (case vars x of Some b \<Rightarrow> b | None \<Rightarrow> empty_buffer)"

definition class_make ::
  "'s buffer_class \<Rightarrow> (nat \<Rightarrow> bool) \<Rightarrow> size_t \<Rightarrow> size_t \<Rightarrow> 's objects \<Rightarrow> aligned_buffer res \<times> 's objects" where
  "class_make C throws garbage n =
     make_aligned_buffer (class_nothrow C) throws garbage (class_alloc C) (class_dealloc C)
       (class_hw C) (class_alignment C) (class_T C) n"

inductive program_step :: "'s buffer_class \<Rightarrow> 's program \<Rightarrow> unit res \<Rightarrow> 's program \<Rightarrow> bool" for C where
  declare_sized: "vars x = None \<Longrightarrow> class_allowed C throws garbage \<Longrightarrow>
    class_make C throws garbage n o1 = (Inr b, o2) \<Longrightarrow>
    program_step C (vars, o1) (Inr ()) (vars(x \<mapsto> b), o2)"
| declare_failed: "vars x = None \<Longrightarrow> class_allowed C throws garbage \<Longrightarrow>
    class_make C throws garbage n o1 = (Inl e, o2) \<Longrightarrow>
    program_step C (vars, o1) (Inl e) (vars, o2)"
| declare_empty: "vars x = None \<Longrightarrow>
    program_step C (vars, o1) (Inr ()) (vars(x \<mapsto> empty_buffer), o1)"
| declare_moved: "vars x = None \<Longrightarrow> vars y = Some b \<Longrightarrow> move_construct b = (b1, b2) \<Longrightarrow>
    program_step C (vars, o1) (Inr ()) (vars(x \<mapsto> b1, y \<mapsto> b2), o1)"
| assign: "vars x \<noteq> None \<Longrightarrow> vars y \<noteq> None \<Longrightarrow>
    move_assign (class_dealloc C) x y (the_var vars) o1 = (r, vars', o2) \<Longrightarrow>
    program_step C (vars, o1) r (\<lambda>z. if vars z = None then None else Some (vars' z), o2)"
| write_element: "vars x = Some b \<Longrightarrow> buffer_at b i = Inr a \<Longrightarrow>
    \<forall>q. q \<notin> object_bytes a (sizeof_T (class_T C)) \<longrightarrow> m q = class_mem C (store o1) q \<Longrightarrow>
    program_step C (vars, o1) (Inr ()) (vars, o1\<lparr>store := class_set_mem C m (store o1)\<rparr>)"
| leave: "vars x = Some b \<Longrightarrow> destruct_buffer (class_dealloc C) b o1 = (r, o2) \<Longrightarrow>
    program_step C (vars, o1) r (vars(x := None), o2)"

inductive program_reachable :: "'s buffer_class \<Rightarrow> 's objects \<Rightarrow> 's program \<Rightarrow> bool" for C o0 where
  start: "program_reachable C o0 (\<lambda>_. None, o0)"
| step: "program_reachable C o0 s \<Longrightarrow> program_step C s r s' \<Longrightarrow> program_reachable C o0 s'"

inductive_cases program_stepE: "program_step C s r s'"

section \<open>Buffers in order\<close>

definition buffer_elements :: "aligned_buffer \<Rightarrow> size_t list" where
  "buffer_elements b = elements (bytesPerElement b) (buf_data b) (unat (buf_size b))"

definition buffer_extent :: "('s \<Rightarrow> size_t \<Rightarrow> size_t \<Rightarrow> size_t set) \<Rightarrow> 's \<Rightarrow> aligned_buffer \<Rightarrow> size_t set" where
  "buffer_extent extent s b = (if buf_data b = 0 then {} else extent s (buf_data b) (buf_size b * bytesPerElement b))"

text \<open>A buffer has nothing, or it holds an aligned allocation of the right size.\<close>

definition buffer_sound ::
  "('s \<Rightarrow> size_t \<Rightarrow> size_t \<Rightarrow> bool) \<Rightarrow> hardware_sizes \<Rightarrow> size_t \<Rightarrow> element_type \<Rightarrow> 's \<Rightarrow> aligned_buffer \<Rightarrow> bool" where
  "buffer_sound intact hw alignment T s b \<longleftrightarrow>
     (if buf_data b = 0 then buf_size b = 0
      else intact s (buf_data b) (buf_size b * bytesPerElement b)
        \<and> computeBytesPerElement hw alignment T = Inr (bytesPerElement b)
        \<and> unat (buf_size b) * unat (bytesPerElement b) < 2 ^ 63
        \<and> unat (alignment_in_bytes hw (alignment OR alignof_T T)) dvd unat (buf_data b))"

text \<open>
  The objects that live and the memory in use are those from the beginning and those of the
  buffers, which do not overlap.
\<close>

definition buffers_in_order ::
  "('s \<Rightarrow> size_t \<Rightarrow> size_t \<Rightarrow> bool) \<Rightarrow> ('s \<Rightarrow> size_t \<Rightarrow> size_t \<Rightarrow> size_t set) \<Rightarrow> ('s \<Rightarrow> size_t set) \<Rightarrow>
     hardware_sizes \<Rightarrow> size_t \<Rightarrow> element_type \<Rightarrow> 's objects \<Rightarrow> (nat \<Rightarrow> aligned_buffer) \<Rightarrow> 's objects \<Rightarrow> bool" where
  "buffers_in_order intact extent owned hw alignment T o0 v o1 \<longleftrightarrow>
     live o0 \<subseteq> owned (store o0)
   \<and> (\<forall>x. buffer_sound intact hw alignment T (store o1) (v x))
   \<and> (\<forall>x y. x \<noteq> y \<longrightarrow> buffer_extent extent (store o1) (v x) \<inter> buffer_extent extent (store o1) (v y) = {})
   \<and> (\<forall>x. owned (store o0) \<inter> buffer_extent extent (store o1) (v x) = {})
   \<and> live o1 = live o0 \<union> (\<Union>x. set (buffer_elements (v x)))
   \<and> owned (store o1) = owned (store o0) \<union> (\<Union>x. buffer_extent extent (store o1) (v x))"

lemma computeBytesPerElement_Inr:
  assumes "computeBytesPerElement hw alignment T = Inr d" "sizeof_T T \<noteq> 0"
  shows "unat (alignment_in_bytes hw (alignment OR alignof_T T)) dvd unat d" "unat (sizeof_T T) \<le> unat d" "d \<noteq> 0"
proof -
  let ?a = "alignment_in_bytes hw (alignment OR alignof_T T)"
  obtain m where m: "unat ?a = 2 ^ m" using alignment_in_bytes_exp by blast
  then have a: "?a \<noteq> 0" by (metis power_not_zero unat_0 zero_neq_numeral)
  have "unat d = ceil_multiple (unat (sizeof_T T)) (unat ?a)"
    using assms(1) by (auto simp: computeBytesPerElement_def try_ceili_exact [OF a] unat_of_nat_no_wrap split: if_splits)
  moreover have "unat (sizeof_T T) \<noteq> 0" using assms(2) by (simp add: unat_eq_zero)
  ultimately show "unat ?a dvd unat d" "unat (sizeof_T T) \<le> unat d" "d \<noteq> 0"
    using m ceil_multiple_dvd [of "unat ?a"] ceil_multiple_ge [of "unat ?a" "unat (sizeof_T T)"] by auto
qed

lemma computeBytesPerElement_Inl:
  assumes "computeBytesPerElement hw alignment T = Inl e"
  shows "e = BadAlloc"
proof -
  let ?a = "alignment_in_bytes hw (alignment OR alignof_T T)"
  obtain m where m: "unat ?a = 2 ^ m" using alignment_in_bytes_exp by blast
  then have a: "?a \<noteq> 0" by (metis power_not_zero unat_0 zero_neq_numeral)
  show ?thesis using assms by (auto simp: computeBytesPerElement_def try_ceili_exact [OF a] split: if_splits)
qed

text \<open>The elements are what \<^verbatim>\<open>operator []\<close> gives.\<close>

lemma buffer_at_element:
  "buffer_at b i = (if i < buf_size b then Inr (buffer_elements b ! unat i) else Inl ContractViolation)"
  by (simp add: buffer_at_def buffer_elements_def elements_def element_address_def word_less_nat_alt)

end
