(* ===== verification/Buffer_Programs.thy ===== *)
theory Buffer_Programs
  imports Buffer
begin

text \<open>
  Programs with buffers keep objects and memory in order: what the contract of a byte allocator
  gives for the constructor, for the release of a buffer and for each step of a program.
\<close>

section \<open>What a buffer needs from its allocator of bytes\<close>

locale buffer_memory = allocator 1 alloc dealloc mem_of set_mem owned intact extent
  for alloc :: "size_t \<Rightarrow> 's \<Rightarrow> size_t res \<times> 's" and dealloc mem_of set_mem owned intact extent +
  fixes hw :: hardware_sizes and alignment :: size_t and T :: element_type
  assumes alloc_limit: "alloc n s = (Inr p, s') \<Longrightarrow> unat n < 2 ^ 63"
    and alloc_aligned: "alloc n s = (Inr p, s') \<Longrightarrow>
      unat (alignment_in_bytes hw (alignment OR alignof_T T)) dvd unat p"
    and alloc_errors: "alloc n s = (Inl e, s') \<Longrightarrow> e = BadAlloc"
    and object_size: "sizeof_T T \<noteq> 0"
begin

abbreviation make where
  "make isNothrow throws garbage n \<equiv> make_aligned_buffer isNothrow throws garbage alloc dealloc hw alignment T n"

abbreviation keeps where
  "keeps o1 o2 \<equiv> \<forall>q j. intact (store o1) q j \<longrightarrow>
     intact (store o2) q j \<and> extent (store o2) q j = extent (store o1) q j"

lemma make_cases:
  assumes lo: "live o1 \<subseteq> owned (store o1)" and nt: "isNothrow \<longrightarrow> (\<forall>k. \<not> throws k)"
    and g: "(\<exists>k. throws k) \<longrightarrow> garbage = 0"
  obtains (made) b o2 where "make isNothrow throws garbage n o1 = (Inr b, o2)" "buf_size b = n" "keeps o1 o2"
      "buffer_sound intact hw alignment T (store o2) b"
      "buffer_extent extent (store o2) b \<inter> owned (store o1) = {}"
      "owned (store o2) = owned (store o1) \<union> buffer_extent extent (store o2) b"
      "live o2 = live o1 \<union> set (buffer_elements b)"
  | (failed) e o2 where "make isNothrow throws garbage n o1 = (Inl e, o2)" "keeps o1 o2"
      "owned (store o2) = owned (store o1)" "live o2 = live o1"
      "e = BadAlloc \<or> (\<exists>c. e = ElementException c \<and> throws c)"
proof (cases "computeBytesPerElement hw alignment T")
  case (Inl e)
  then show thesis using failed [of e o1] computeBytesPerElement_Inl [OF Inl] by (simp add: make_aligned_buffer_def)
next
  case (Inr d)
  note bpe = Inr and d = computeBytesPerElement_Inr [OF Inr object_size]
  have d0: "0 < unat d" using d(3) by (simp add: unat_gt_0)
  show thesis
  proof (cases "n = 0")
    case True
    then show thesis using bpe
      by (intro made [of "\<lparr>buf_data = 0, buf_size = 0, bytesPerElement = d\<rparr>" o1])
        (simp_all add: make_aligned_buffer_def buffer_sound_def buffer_extent_def buffer_elements_def elements_def)
  next
    case n: False
    show thesis
    proof (cases "unat n * unat d < 2 ^ 64")
      case False
      then show thesis using bpe n failed [of BadAlloc o1]
        by (simp add: make_aligned_buffer_def try_multiply_unsigned_exact)
    next
      case True
      then have nd: "unat (n * d) = unat n * unat d" by (rule unat_mult_no_wrap)
      obtain r s1 where al: "alloc (n * d) (store o1) = (r, s1)" by fastforce
      show thesis
      proof (cases r)
        case (Inl e)
        then show thesis using bpe n True al alloc_Inl [of "n * d" "store o1" e s1] alloc_errors [of "n * d" "store o1" e s1]
            alloc_intact [OF al] failed [of e "o1\<lparr>store := s1\<rparr>"]
          by (simp add: make_aligned_buffer_def try_multiply_unsigned_exact on_store_def)
      next
        case (Inr p)
        note al = al [unfolded Inr]
        have a: "intact s1 p (n * d)" "extent s1 p (n * d) \<inter> owned (store o1) = {}"
          "owned s1 = owned (store o1) \<union> extent s1 p (n * d)"
          using alloc_Inr [OF al] by auto
        have i: "unat p + unat n * unat d < 2 ^ 64" "p \<noteq> 0" using intactD [OF a(1)] nd by auto
        note el = elements_ok [OF i(1) d(3)]
        have lim: "unat n * unat d < 2 ^ 63" using alloc_limit [OF al] nd by simp
        have sub: "set (elements d p (unat n)) \<subseteq> object_bytes p (n * d * 1)" using el(2) by simp
        note unf = make_aligned_buffer_def try_multiply_unsigned_exact on_store_def [of "alloc _"] transaction_def
          construct_aligned_buffer_eq [OF d0 lim]
        show thesis
        proof (cases rule: region_cases [OF lo al el(1) sub, of throws 0])
          case (1 o2)
          show thesis
          proof (rule made [of "\<lparr>buf_data = p, buf_size = n, bytesPerElement = d\<rparr>" o2])
            show "make isNothrow throws garbage n o1 = (Inr \<lparr>buf_data = p, buf_size = n, bytesPerElement = d\<rparr>, o2)"
              using bpe n True al 1(1) by (simp add: unf)
            show "keeps o1 o2" using alloc_intact [OF al] 1(2) by simp
          qed (use 1(2,3) a i bpe lim alloc_aligned [OF al] in
            \<open>simp_all add: buffer_sound_def buffer_extent_def buffer_elements_def\<close>)
        next
          case (2 e k o2)
          then have nn: "\<not> isNothrow" "is_exception e" "garbage = 0" using nt g by auto
          have kn: "k \<le> unat n" using 2(2) el(3) by simp
          moreover have "unat n \<le> unat n * unat d" using d0 by simp
          ultimately have k: "unat (word_of_nat k :: size_t) = k" "k \<le> unat n"
            using True by (intro unat_of_nat_no_wrap; linarith) (rule kn)
          then have "k * unat d \<le> unat n * unat d" by (intro mult_right_mono) simp_all
          then have kd: "unat (word_of_nat k :: size_t) * unat d < 2 ^ 63" unfolding k(1) using lim by (rule le_less_trans)
          have down: "destroy_aligned_buffer p (word_of_nat k) d o2 = destroy_loop (take k (elements d p (unat n))) o2"
            using destroy_aligned_buffer_eq [OF d0 kd, of p o2] el(4) [OF k(2)] k(1) by simp
          obtain o3 where o3: "then_do (destroy_loop (take k (elements d p (unat n)))) (on_store (dealloc p (n * d))) o2 = (Inr (), o3)"
              "live o3 = live o1" "owned (store o3) = owned (store o1)" "keeps o1 o3"
            using 2(4) [of "take k (elements d p (unat n))"] el(1) by auto
          have "make isNothrow throws garbage n o1 = (Inl e, o3)"
            using bpe n True al 2(1) nn o3(1) by (simp add: unf then_do_def down)
          then show thesis using failed [of e o3] o3(2-4) 2(3) by simp
        qed
      qed
    qed
  qed
qed

section \<open>Keeping buffers in order\<close>

abbreviation in_order where
  "in_order o0 v o1 \<equiv> buffers_in_order intact extent owned hw alignment T o0 v o1"

lemma in_orderD:
  assumes "in_order o0 v o1"
  shows "live o0 \<subseteq> owned (store o0)" "buffer_sound intact hw alignment T (store o1) (v x)"
    "x \<noteq> y \<Longrightarrow> buffer_extent extent (store o1) (v x) \<inter> buffer_extent extent (store o1) (v y) = {}"
    "owned (store o0) \<inter> buffer_extent extent (store o1) (v x) = {}"
    "live o1 = live o0 \<union> (\<Union>x. set (buffer_elements (v x)))"
    "owned (store o1) = owned (store o0) \<union> (\<Union>x. buffer_extent extent (store o1) (v x))"
  using assms by (simp_all add: buffers_in_order_def)

lemma sound_extent:
  assumes "buffer_sound intact hw alignment T s b"
  shows "buffer_extent extent s b \<subseteq> owned s" "distinct (buffer_elements b)"
    "set (buffer_elements b) \<subseteq> buffer_extent extent s b"
proof -
  have "buffer_extent extent s b \<subseteq> owned s \<and> distinct (buffer_elements b) \<and> set (buffer_elements b) \<subseteq> buffer_extent extent s b"
  proof (cases "buf_data b = 0")
    case True
    then show ?thesis using assms by (simp add: buffer_sound_def buffer_extent_def buffer_elements_def elements_def)
  next
    case False
    note b = assms [unfolded buffer_sound_def, simplified False if_False]
    have i: "intact s (buf_data b) (buf_size b * bytesPerElement b)"
      and c: "computeBytesPerElement hw alignment T = Inr (bytesPerElement b)"
      and lim: "unat (buf_size b) * unat (bytesPerElement b) < 2 ^ 63" using b by auto
    have "unat (buf_size b * bytesPerElement b) = unat (buf_size b) * unat (bytesPerElement b)"
      using lim by (intro unat_mult_no_wrap) simp
    then have "unat (buf_data b) + unat (buf_size b) * unat (bytesPerElement b) < 2 ^ 64" using intactD [OF i] by simp
    then have "distinct (buffer_elements b)"
      "set (buffer_elements b) \<subseteq> object_bytes (buf_data b) (buf_size b * bytesPerElement b)"
      using elements_ok(1,2) computeBytesPerElement_Inr(3) [OF c object_size] by (simp_all add: buffer_elements_def)
    then show ?thesis using intactD [OF i] False by (auto simp: buffer_extent_def)
  qed
  then show "buffer_extent extent s b \<subseteq> owned s" "distinct (buffer_elements b)"
    "set (buffer_elements b) \<subseteq> buffer_extent extent s b" by auto
qed

lemma sound_keeps:
  assumes "keeps o1 o2" "buffer_sound intact hw alignment T (store o1) b"
  shows "buffer_sound intact hw alignment T (store o2) b"
    "buffer_extent extent (store o2) b = buffer_extent extent (store o1) b"
  using assms by (auto simp: buffer_sound_def buffer_extent_def split: if_splits)

lemma in_order_same:
  assumes "in_order o0 v o1" "keeps o1 o2" "owned (store o2) = owned (store o1)" "live o2 = live o1"
  shows "in_order o0 v o2"
  using assms(1,3,4) sound_keeps [OF assms(2)] by (simp add: buffers_in_order_def)

lemma UN_fun_upd: "(\<Union>y. f ((v(x := b)) y)) = f b \<union> (\<Union>y \<in> - {x}. f (v y))"
  by (auto split: if_splits)

lemma UN_split: "(\<Union>y. f (v y)) = f (v x) \<union> (\<Union>y \<in> - {x}. f (v y))"
  by auto

lemma in_order_fill:
  assumes o: "in_order o0 v o1" and x: "buf_data (v x) = 0" and k: "keeps o1 o2"
    and b: "buffer_sound intact hw alignment T (store o2) b"
      "buffer_extent extent (store o2) b \<inter> owned (store o1) = {}"
      "owned (store o2) = owned (store o1) \<union> buffer_extent extent (store o2) b"
      "live o2 = live o1 \<union> set (buffer_elements b)"
  shows "in_order o0 (v(x := b)) o2"
proof -
  note d = o [unfolded buffers_in_order_def]
  have s: "buffer_sound intact hw alignment T (store o1) (v y)" for y using d by simp
  note k = sound_keeps [OF k s]
  have x0: "buffer_extent extent (store o1) (v x) = {}" "set (buffer_elements (v x)) = {}"
    using x s [of x] by (simp_all add: buffer_extent_def buffer_elements_def buffer_sound_def elements_def)
  have sub: "buffer_extent extent (store o1) (v y) \<subseteq> owned (store o1)" for y using sound_extent(1) [OF s] .
  have "live o2 = live o0 \<union> (\<Union>y. set (buffer_elements ((v(x := b)) y)))"
    using d b(4) x0(2) UN_split [of "\<lambda>b. set (buffer_elements b)" v x]
    by (simp add: UN_fun_upd [of "\<lambda>b. set (buffer_elements b)"] Un_ac del: fun_upd_apply)
  moreover have "owned (store o2) = owned (store o0) \<union> (\<Union>y. buffer_extent extent (store o2) ((v(x := b)) y))"
    using d b(3) x0(1) UN_split [of "buffer_extent extent (store o1)" v x]
    by (simp add: UN_fun_upd [of "buffer_extent extent (store o2)"] k Un_ac del: fun_upd_apply)
  moreover have "owned (store o0) \<subseteq> owned (store o1)" using d by simp
  ultimately show ?thesis
    using d b(1,2) k sub unfolding buffers_in_order_def by (auto simp: fun_upd_def)
qed

lemma in_order_move:
  assumes o: "in_order o0 v o1" and x: "buf_data (v x) = 0" "x \<noteq> y" and b0: "buf_data b0 = 0" "buf_size b0 = 0"
  shows "in_order o0 (v(x := v y, y := b0)) o1"
proof -
  note d = o [unfolded buffers_in_order_def]
  have s: "buffer_sound intact hw alignment T (store o1) b0" using b0 by (simp add: buffer_sound_def)
  have sx: "buffer_sound intact hw alignment T (store o1) (v x)" using d by simp
  have e: "buffer_extent extent (store o1) b = {} \<and> set (buffer_elements b) = {}"
    if "buf_data b = 0" "buffer_sound intact hw alignment T (store o1) b" for b
    using that by (simp add: buffer_extent_def buffer_elements_def buffer_sound_def elements_def)
  let ?v = "v(x := v y, y := b0)"
  have u: "(\<Union>z. f (?v z)) = (\<Union>z. f (v z))" if f: "f b0 = {}" "f (v x) = {}" for f :: "aligned_buffer \<Rightarrow> size_t set"
  proof (intro equalityI UN_least)
    fix z
    have "f (?v z) = {} \<or> f (?v z) = f (v z) \<or> f (?v z) = f (v y)" using f x(2) by simp
    then show "f (?v z) \<subseteq> (\<Union>z. f (v z))" by (elim disjE) (auto simp del: fun_upd_apply)
    have "f (v z) = {} \<or> f (v z) = f (?v z) \<or> f (v z) = f (?v x)" using f x(2) by auto
    then show "f (v z) \<subseteq> (\<Union>z. f (?v z))" by (elim disjE) (auto simp del: fun_upd_apply)
  qed
  show ?thesis
    using d s e [OF b0(1) s] e [OF x(1) sx] x(2)
    unfolding buffers_in_order_def
    by (simp only: u [of "\<lambda>b. set (buffer_elements b)"] u [of "buffer_extent extent (store o1)"]) (simp split: if_splits)
qed

lemma in_order_release:
  assumes o: "in_order o0 v o1" and x: "buf_data (v x) \<noteq> 0"
  obtains o2 where "destroy_and_free dealloc (v x) o1 = (Inr (), o2)"
    "\<And>b0. buf_data b0 = 0 \<Longrightarrow> buf_size b0 = 0 \<Longrightarrow> in_order o0 (v(x := b0)) o2"
proof -
  note d = in_orderD [OF o]
  note s = d(2)
  let ?p = "buf_data (v x)" and ?nb = "buf_size (v x) * bytesPerElement (v x)" and ?els = "buffer_elements (v x)"
  have b: "intact (store o1) ?p ?nb" "computeBytesPerElement hw alignment T = Inr (bytesPerElement (v x))"
    "unat (buf_size (v x)) * unat (bytesPerElement (v x)) < 2 ^ 63"
    using s [of x] x by (simp_all add: buffer_sound_def)
  have "0 < unat (bytesPerElement (v x))"
    using computeBytesPerElement_Inr(3) [OF b(2) object_size] by (simp add: unat_gt_0)
  then have eq: "destroy_and_free dealloc (v x) o1 = then_do (destroy_loop ?els) (on_store (dealloc ?p ?nb)) o1"
    using destroy_aligned_buffer_eq [OF _ b(3), of ?p o1]
    by (simp add: destroy_and_free_def then_do_def buffer_elements_def)
  note e = sound_extent [OF s]
  have "set ?els \<subseteq> live o1" unfolding d(5) by blast
  then obtain s2 where s2: "then_do (destroy_loop ?els) (on_store (dealloc ?p ?nb)) o1
      = (Inr (), o1\<lparr>live := live o1 - set ?els, store := s2\<rparr>)" "dealloc ?p ?nb (store o1) = (Inr (), s2)"
      "owned s2 = owned (store o1) - extent (store o1) ?p ?nb"
    using region_release [OF b(1) e(2)] by blast
  let ?o2 = "o1\<lparr>live := live o1 - set ?els, store := s2\<rparr>"
  have ext: "extent (store o1) ?p ?nb = buffer_extent extent (store o1) (v x)" using x by (simp add: buffer_extent_def)
  have dis: "buffer_extent extent (store o1) (v y) \<inter> buffer_extent extent (store o1) (v x) = {}" if "y \<noteq> x" for y
    by (rule d(3) [OF that])
  have keep: "buffer_sound intact hw alignment T s2 (v y)" "buffer_extent extent s2 (v y) = buffer_extent extent (store o1) (v y)"
    if "y \<noteq> x" for y
    using s [of y] dealloc_intact [OF b(1) _ _ s2(2)] d(3) [OF that] x
    by (auto simp: buffer_sound_def buffer_extent_def Int_commute split: if_splits)
  have "in_order o0 (v(x := b0)) ?o2" if b0: "buf_data b0 = 0" "buf_size b0 = 0" for b0
  proof -
    have n: "buffer_sound intact hw alignment T s2 b0" "buffer_extent extent s2 b0 = {}" "set (buffer_elements b0) = {}"
      using b0 by (simp_all add: buffer_sound_def buffer_extent_def buffer_elements_def elements_def)
    have "set ?els \<inter> live o0 = {}" "set ?els \<inter> (\<Union>y \<in> - {x}. set (buffer_elements (v y))) = {}"
      using d(1,4) e(3) dis by blast+
    with d(5) have "live ?o2 = live o0 \<union> (\<Union>y. set (buffer_elements ((v(x := b0)) y)))"
      using UN_split [of "\<lambda>b. set (buffer_elements b)" v x] n(3)
      by (simp add: UN_fun_upd [of "\<lambda>b. set (buffer_elements b)"] del: fun_upd_apply) blast
    moreover have "owned s2 = owned (store o0) \<union> (\<Union>y. buffer_extent extent s2 ((v(x := b0)) y))"
    proof -
      have "(\<Union>y \<in> - {x}. buffer_extent extent s2 (v y)) = (\<Union>y \<in> - {x}. buffer_extent extent (store o1) (v y))"
        using keep(2) by simp
      moreover have "buffer_extent extent (store o1) (v x) \<inter> (\<Union>y \<in> - {x}. buffer_extent extent (store o1) (v y)) = {}"
        using dis by blast
      ultimately show ?thesis
        using d(4) [of x] d(6) s2(3) UN_split [of "buffer_extent extent (store o1)" v x] n(2) ext
        by (simp add: UN_fun_upd [of "buffer_extent extent s2"] del: fun_upd_apply) blast
    qed
    ultimately show ?thesis using d(1,3,4) n(1,2) keep by (simp add: buffers_in_order_def)
  qed
  then show thesis using that [of ?o2] s2(1) eq by simp
qed

lemma sound_bytes:
  assumes b: "buffer_sound intact hw alignment T s b" and p: "buf_data b \<noteq> 0" and i: "i < buf_size b"
  shows "object_bytes (buffer_elements b ! unat i) (sizeof_T T) \<subseteq> object_bytes (buf_data b) (buf_size b * bytesPerElement b)
    \<and> object_bytes (buffer_elements b ! unat i) (sizeof_T T) \<subseteq> buffer_extent extent s b
    \<and> unat (alignment_in_bytes hw (alignment OR alignof_T T)) dvd unat (buffer_elements b ! unat i)"
proof -
  let ?p = "buf_data b" and ?n = "buf_size b" and ?d = "bytesPerElement b"
  have b: "intact s ?p (?n * ?d)" "computeBytesPerElement hw alignment T = Inr ?d" "unat ?n * unat ?d < 2 ^ 63"
    "unat (alignment_in_bytes hw (alignment OR alignof_T T)) dvd unat ?p"
    using b p by (simp_all add: buffer_sound_def)
  note d = computeBytesPerElement_Inr [OF b(2) object_size]
  have nd: "unat (?n * ?d) = unat ?n * unat ?d" using b(3) by (intro unat_mult_no_wrap) simp
  have lim: "unat ?p + unat ?n * unat ?d < 2 ^ 64" using intactD [OF b(1)] nd by simp
  have le: "unat i < unat ?n" using i by (simp add: word_less_nat_alt)
  then have a: "buffer_elements b ! unat i = element_address ?d ?p (unat i)"
    by (simp add: buffer_elements_def elements_def)
  have u: "unat (element_address ?d ?p (unat i)) = unat ?p + unat i * unat ?d"
    using element_address_unat [OF lim, of "unat i"] le by simp
  have "(unat i + 1) * unat ?d \<le> unat ?n * unat ?d" using le by (intro mult_right_mono) simp_all
  then have sub: "object_bytes (element_address ?d ?p (unat i)) (sizeof_T T) \<subseteq> object_bytes ?p (?n * ?d)"
    using nd u d(2) by (auto simp: object_bytes_def)
  moreover have "object_bytes ?p (?n * ?d) \<subseteq> buffer_extent extent s b"
    using intactD [OF b(1)] p by (simp add: buffer_extent_def)
  moreover have "unat (alignment_in_bytes hw (alignment OR alignof_T T)) dvd unat (element_address ?d ?p (unat i))"
    unfolding u using b(4) d(1) by simp
  ultimately show ?thesis unfolding a by blast
qed

text \<open>Two elements of a buffer do not overlap, and neither do elements of two buffers.\<close>

lemma sound_element_unat:
  assumes b: "buffer_sound intact hw alignment T s b" and p: "buf_data b \<noteq> 0" and i: "i < buf_size b"
  shows "unat (buffer_elements b ! unat i) = unat (buf_data b) + unat i * unat (bytesPerElement b)"
proof -
  let ?p = "buf_data b" and ?n = "buf_size b" and ?d = "bytesPerElement b"
  have b: "intact s ?p (?n * ?d)" "unat ?n * unat ?d < 2 ^ 63" using b p by (simp_all add: buffer_sound_def)
  have "unat (?n * ?d) = unat ?n * unat ?d" using b(2) by (intro unat_mult_no_wrap) simp
  then have "unat ?p + unat ?n * unat ?d < 2 ^ 64" using intactD [OF b(1)] by simp
  moreover have le: "unat i < unat ?n" using i by (simp add: word_less_nat_alt)
  moreover have "buffer_elements b ! unat i = element_address ?d ?p (unat i)"
    using le by (simp add: buffer_elements_def elements_def)
  ultimately show ?thesis using element_address_unat [of ?p "unat ?n" ?d "unat i"] by simp
qed

lemma sound_elements_apart:
  assumes b: "buffer_sound intact hw alignment T s b" and p: "buf_data b \<noteq> 0"
    and i: "i < buf_size b" "j < buf_size b" "i \<noteq> j"
  shows "object_bytes (buffer_elements b ! unat i) (sizeof_T T) \<inter> object_bytes (buffer_elements b ! unat j) (sizeof_T T) = {}"
proof -
  let ?d = "unat (bytesPerElement b)"
  let ?q = "\<lambda>i. unat (buf_data b) + unat i * ?d"
  have "computeBytesPerElement hw alignment T = Inr (bytesPerElement b)"
    using b p by (simp add: buffer_sound_def)
  then have sz: "unat (sizeof_T T) \<le> ?d" using computeBytesPerElement_Inr(2) object_size by blast
  note u = sound_element_unat [OF b p i(1)] sound_element_unat [OF b p i(2)]
  have "unat i \<noteq> unat j" using i(3) by (simp add: word_unat_eq_iff)
  then have "unat i + 1 \<le> unat j \<or> unat j + 1 \<le> unat i" by linarith
  then have "(unat i + 1) * ?d \<le> unat j * ?d \<or> (unat j + 1) * ?d \<le> unat i * ?d"
    by (metis mult_le_mono1)
  then have "?q i + unat (sizeof_T T) \<le> ?q j \<or> ?q j + unat (sizeof_T T) \<le> ?q i"
    using sz by auto
  then show ?thesis unfolding object_bytes_def u by auto
qed

lemma in_order_write:
  assumes o: "in_order o0 v o1" and a: "buffer_at (v x) i = Inr a"
    and m: "\<forall>q. q \<notin> object_bytes a (sizeof_T T) \<longrightarrow> m q = mem_of (store o1) q"
  shows "in_order o0 v (o1\<lparr>store := set_mem m (store o1)\<rparr>)"
proof -
  note d = in_orderD [OF o]
  let ?p = "buf_data (v x)" and ?n = "buf_size (v x)" and ?d = "bytesPerElement (v x)"
  have i: "i < ?n" "a = buffer_elements (v x) ! unat i" using a by (auto simp: buffer_at_element split: if_splits)
  then have "?n \<noteq> 0" by auto
  then have p: "?p \<noteq> 0" using d(2) [of x] by (auto simp: buffer_sound_def)
  have b: "intact (store o1) ?p (?n * ?d)" using d(2) [of x] p by (simp add: buffer_sound_def)
  have sub: "object_bytes a (sizeof_T T) \<subseteq> object_bytes ?p (?n * ?d)"
    using sound_bytes [OF d(2) p i(1)] i(2) by simp
  let ?s = "set_mem m (store o1)"
  have "buffer_sound intact hw alignment T ?s (v y) \<and> buffer_extent extent ?s (v y) = buffer_extent extent (store o1) (v y)" for y
  proof (cases "buf_data (v y) = 0")
    case False
    let ?q = "buf_data (v y)" and ?k = "buf_size (v y) * bytesPerElement (v y)"
    have q: "intact (store o1) ?q ?k" using d(2) [of y] False by (simp add: buffer_sound_def)
    have "object_bytes ?p (?n * ?d) \<subseteq> extent (store o1) ?p (?n * ?d)" using intactD [OF b] by simp
    moreover have "extent (store o1) ?p (?n * ?d) \<inter> extent (store o1) ?q ?k = {}" if "y \<noteq> x"
      using d(3) [OF that] p False by (auto simp: buffer_extent_def)
    ultimately have "\<forall>c \<in> extent (store o1) ?q ?k - object_bytes ?q (?k * 1). m c = mem_of (store o1) c"
      using m sub by (cases "y = x") auto
    from write_intact [OF q this] show ?thesis
      using d(2) [of y] False by (simp add: buffer_sound_def buffer_extent_def)
  qed (use d(2) [of y] in \<open>simp add: buffer_sound_def buffer_extent_def\<close>)
  then show ?thesis using d by (simp add: buffers_in_order_def)
qed

end

section \<open>Steps and reachable states of programs\<close>

locale buffer_programs = buffer_memory "class_alloc C" "class_dealloc C" "class_mem C" "class_set_mem C" owned intact extent
    "class_hw C" "class_alignment C" "class_T C"
  for C :: "'s buffer_class" and owned intact extent +
  assumes allowed: "class_allowed C throws garbage \<Longrightarrow>
    (class_nothrow C \<longrightarrow> (\<forall>k. \<not> throws k)) \<and> ((\<exists>k. throws k) \<longrightarrow> garbage = 0)"
begin

lemma the_var_upd [simp]:
  "the_var (vars(x \<mapsto> b)) = (the_var vars)(x := b)" "the_var (vars(x := None)) = (the_var vars)(x := empty_buffer)"
  by (auto simp: the_var_def)

lemma the_var_simps:
  "vars x = Some b \<Longrightarrow> the_var vars x = b" "vars x = None \<Longrightarrow> the_var vars x = empty_buffer"
  "buf_data empty_buffer = 0" "buf_size empty_buffer = 0"
  by (simp_all add: the_var_def empty_buffer_def)

lemma declare_in_order:
  assumes o: "in_order o0 v o1" and x: "buf_data (v x) = 0"
    and m: "class_allowed C throws garbage" "class_make C throws garbage n o1 = (r, o2)"
  shows "case r of Inr b \<Rightarrow> in_order o0 (v(x := b)) o2
    | Inl e \<Rightarrow> in_order o0 v o2 \<and> (e = BadAlloc \<or> (\<exists>c. e = ElementException c))"
proof -
  note d = in_orderD [OF o]
  have lo: "live o1 \<subseteq> owned (store o1)" using d(1) sound_extent(3) [OF d(2)] unfolding d(5,6) by blast
  from allowed [OF m(1)] have nt: "class_nothrow C \<longrightarrow> (\<forall>k. \<not> throws k)" "(\<exists>k. throws k) \<longrightarrow> garbage = 0" by auto
  show ?thesis
  proof (cases rule: make_cases [OF lo nt, of n])
    case (1 b o3)
    then show ?thesis using m(2) in_order_fill [OF o x 1(3-7)] by (auto simp: class_make_def)
  next
    case (2 e o3)
    then show ?thesis using m(2) in_order_same [OF o 2(2-4)] by (auto simp: class_make_def)
  qed
qed

lemma assign_in_order:
  assumes o: "in_order o0 v o1" and m: "move_assign (class_dealloc C) x y v o1 = (r, v', o2)"
  shows "in_order o0 v' o2 \<and> r = Inr ()"
proof (cases "x = y")
  case False
  let ?e = "\<lparr>buf_data = 0, buf_size = 0, bytesPerElement = 0\<rparr>"
  show ?thesis
  proof (cases "buf_data (v x) = 0")
    case True
    then show ?thesis using m False in_order_move [OF o True False, of ?e] by (auto simp: move_assign_def)
  next
    case x: False
    obtain o3 where o3: "destroy_and_free (class_dealloc C) (v x) o1 = (Inr (), o3)"
        "\<And>b0. buf_data b0 = 0 \<Longrightarrow> buf_size b0 = 0 \<Longrightarrow> in_order o0 (v(x := b0)) o3"
      using in_order_release [OF o x] by blast
    have "in_order o0 ((v(x := ?e))(x := (v(x := ?e)) y, y := ?e)) o3"
      using o3(2) [of ?e] False by (intro in_order_move) simp_all
    moreover have "(v(x := ?e))(x := (v(x := ?e)) y, y := ?e) = v(x := v y, y := ?e)" using False by auto
    ultimately show ?thesis using m False x o3(1) by (auto simp: move_assign_def)
  qed
qed (use assms in \<open>simp add: move_assign_def\<close>)

lemma step_in_order:
  assumes "program_step C s r s'" "in_order o0 (the_var (fst s)) (snd s)"
  shows "in_order o0 (the_var (fst s')) (snd s') \<and> (r = Inr () \<or> r = Inl BadAlloc \<or> (\<exists>c. r = Inl (ElementException c)))"
  using assms
proof cases
  case (declare_sized vars x throws garbage n o1 b o2)
  then show ?thesis using declare_in_order [of o0 "the_var vars" o1 x] assms(2) by (fastforce simp: the_var_simps)
next
  case (declare_failed vars x throws garbage n o1 e o2)
  then show ?thesis using declare_in_order [of o0 "the_var vars" o1 x] assms(2) by (fastforce simp: the_var_simps)
next
  case (declare_empty vars x o1)
  have "(the_var vars)(x := empty_buffer) = the_var vars" using declare_empty(4) by (auto simp: the_var_simps)
  then show ?thesis using declare_empty assms(2) by simp
next
  case (declare_moved vars x y b b1 b2 o1)
  have xy: "x \<noteq> y" using declare_moved by auto
  have "b1 = the_var vars y" "buf_data b2 = 0" "buf_size b2 = 0"
    using declare_moved by (auto simp: move_construct_def the_var_simps)
  then have "in_order o0 ((the_var vars)(x := b1, y := b2)) o1"
    using declare_moved assms(2) xy in_order_move [of o0 "the_var vars" o1 x y b2] by (simp add: the_var_simps)
  then show ?thesis using declare_moved by simp
next
  case (assign vars x y o1 vars' o2)
  have n: "the_var vars z = empty_buffer" if "vars z = None" for z using that by (rule the_var_simps)
  have same: "vars' z = the_var vars z" if "z \<noteq> x" "z \<noteq> y" for z
    using assign(5) that by (auto simp: move_assign_def split: if_splits prod.splits sum.splits)
  have "the_var (\<lambda>z. if vars z = None then None else Some (vars' z)) = vars'"
  proof (intro ext)
    fix z
    show "the_var (\<lambda>z. if vars z = None then None else Some (vars' z)) z = vars' z"
    proof (cases "vars z")
      case None
      then have "z \<noteq> x" "z \<noteq> y" using assign(3,4) by auto
      then show ?thesis using same [of z] n [OF None] None by (simp add: the_var_def)
    qed (simp add: the_var_def)
  qed
  then show ?thesis using assign assign_in_order [of o0 "the_var vars" o1 x y] assms(2) by simp
next
  case (write_element vars x b i a m o1)
  then show ?thesis using in_order_write [of o0 "the_var vars" o1 x i a m] assms(2) by (simp add: the_var_simps)
next
  case (leave vars x b o1 o2)
  have b: "the_var vars x = b" using leave by (simp add: the_var_simps)
  show ?thesis
  proof (cases "buf_data b = 0")
    case True
    have "in_order o0 ((the_var vars)(x := empty_buffer)) o1"
    proof (rule in_order_fill [of o0 "the_var vars" o1 x o1])
      show "in_order o0 (the_var vars) o1" using leave assms(2) by simp
    qed (use True b in \<open>simp_all add: buffer_sound_def buffer_extent_def buffer_elements_def elements_def the_var_simps\<close>)
    then show ?thesis using leave True by (simp add: destruct_buffer_def)
  next
    case False
    have o: "in_order o0 (the_var vars) o1" using leave assms(2) by simp
    have x: "buf_data (the_var vars x) \<noteq> 0" using b False by simp
    obtain o3 where "destroy_and_free (class_dealloc C) b o1 = (Inr (), o3)"
        "in_order o0 ((the_var vars)(x := empty_buffer)) o3"
      using in_order_release [OF o x] the_var_simps(3,4) unfolding b by blast
    then show ?thesis using leave False by (simp add: destruct_buffer_def)
  qed
qed

lemma reachable_in_order:
  assumes "program_reachable C o0 s" "live o0 \<subseteq> owned (store o0)"
  shows "in_order o0 (the_var (fst s)) (snd s)"
  using assms
proof induction
  case start
  then show ?case
    by (simp add: buffers_in_order_def the_var_def buffer_sound_def buffer_extent_def buffer_elements_def elements_def
        empty_buffer_def)
qed (use step_in_order in blast)

lemma element_facts:
  assumes o: "in_order o0 v o1" and i: "i < buf_size (v x)"
  shows "\<exists>a. buffer_at (v x) i = Inr a \<and> a \<in> live o1
    \<and> unat (alignment_in_bytes (class_hw C) (class_alignment C OR alignof_T (class_T C))) dvd unat a
    \<and> object_bytes a (sizeof_T (class_T C)) \<subseteq> owned (store o1) - owned (store o0)"
proof -
  note d = in_orderD [OF o]
  have n: "buf_size (v x) \<noteq> 0" using i by auto
  then have p: "buf_data (v x) \<noteq> 0" using d(2) [of x] by (auto simp: buffer_sound_def)
  let ?a = "buffer_elements (v x) ! unat i"
  have mem: "?a \<in> set (buffer_elements (v x))"
    using i by (simp add: buffer_elements_def elements_def word_less_nat_alt)
  then have live: "?a \<in> live o1" unfolding d(5) by blast
  note e = sound_bytes [OF d(2) p i]
  have "buffer_extent extent (store o1) (v x) \<subseteq> owned (store o1) - owned (store o0)"
    using sound_extent(1) [OF d(2)] d(4) by blast
  then show ?thesis using e live i by (simp add: buffer_at_element) blast
qed

lemma elements_apart:
  assumes o: "in_order o0 v o1" and at: "buffer_at (v x) i = Inr a" "buffer_at (v y) j = Inr c" "(x, i) \<noteq> (y, j)"
  shows "object_bytes a (sizeof_T (class_T C)) \<inter> object_bytes c (sizeof_T (class_T C)) = {}"
proof -
  note d = in_orderD [OF o]
  have i: "i < buf_size (v x)" "a = buffer_elements (v x) ! unat i"
    and j: "j < buf_size (v y)" "c = buffer_elements (v y) ! unat j"
    using at by (auto simp: buffer_at_element split: if_splits)
  then have "buf_size (v x) \<noteq> 0" "buf_size (v y) \<noteq> 0" by auto
  then have p: "buf_data (v x) \<noteq> 0" "buf_data (v y) \<noteq> 0"
    using d(2) [of x] d(2) [of y] by (auto simp: buffer_sound_def)
  show ?thesis
  proof (cases "x = y")
    case True
    then show ?thesis using sound_elements_apart [OF d(2) p(1) i(1), of j] i j at(3) by simp
  next
    case False
    show ?thesis
      using sound_bytes [OF d(2) p(1) i(1)] sound_bytes [OF d(2) p(2) j(1)] d(3) [OF False] i(2) j(2) by blast
  qed
qed

lemma program_in_order:
  assumes r: "program_reachable C o0 (vars, o1)" and lo: "live o0 \<subseteq> owned (store o0)"
  shows "program_step C (vars, o1) r s' \<Longrightarrow> r = Inr () \<or> r = Inl BadAlloc \<or> (\<exists>c. r = Inl (ElementException c))"
    "live o1 = live o0 \<union> (\<Union>b \<in> ran vars. set (buffer_elements b))"
    "(\<forall>x. vars x = None) \<Longrightarrow> live o1 = live o0 \<and> owned (store o1) = owned (store o0)"
    "vars x = Some b \<Longrightarrow> i < buf_size b \<Longrightarrow> \<exists>a. buffer_at b i = Inr a \<and> a \<in> live o1
      \<and> unat (alignment_in_bytes (class_hw C) (class_alignment C OR alignof_T (class_T C))) dvd unat a
      \<and> object_bytes a (sizeof_T (class_T C)) \<subseteq> owned (store o1) - owned (store o0)"
    "vars x = Some b \<Longrightarrow> vars y = Some b' \<Longrightarrow> buffer_at b i = Inr a \<Longrightarrow> buffer_at b' j = Inr c \<Longrightarrow> (x, i) \<noteq> (y, j) \<Longrightarrow>
      object_bytes a (sizeof_T (class_T C)) \<inter> object_bytes c (sizeof_T (class_T C)) = {}"
proof -
  have o: "in_order o0 (the_var vars) o1" using reachable_in_order [OF r lo] by simp
  show "r = Inr () \<or> r = Inl BadAlloc \<or> (\<exists>c. r = Inl (ElementException c))" if "program_step C (vars, o1) r s'"
    using step_in_order [OF that] o by simp
  have "(\<Union>x. set (buffer_elements (the_var vars x))) = (\<Union>b \<in> ran vars. set (buffer_elements b))"
    by (fastforce simp: ran_def the_var_def buffer_elements_def elements_def empty_buffer_def split: option.splits)
  then show "live o1 = live o0 \<union> (\<Union>b \<in> ran vars. set (buffer_elements b))" using in_orderD(5) [OF o] by simp
  show "live o1 = live o0 \<and> owned (store o1) = owned (store o0)" if "\<forall>x. vars x = None"
    using that in_orderD(5,6) [OF o]
    by (simp add: the_var_def buffer_elements_def elements_def empty_buffer_def buffer_extent_def)
  show "\<exists>a. buffer_at b i = Inr a \<and> a \<in> live o1
      \<and> unat (alignment_in_bytes (class_hw C) (class_alignment C OR alignof_T (class_T C))) dvd unat a
      \<and> object_bytes a (sizeof_T (class_T C)) \<subseteq> owned (store o1) - owned (store o0)"
    if "vars x = Some b" "i < buf_size b"
    using element_facts [OF o, of i x] that by (simp add: the_var_simps)
  show "object_bytes a (sizeof_T (class_T C)) \<inter> object_bytes c (sizeof_T (class_T C)) = {}"
    if "vars x = Some b" "vars y = Some b'" "buffer_at b i = Inr a" "buffer_at b' j = Inr c" "(x, i) \<noteq> (y, j)"
    using elements_apart [OF o, of x i a y j c] that by (simp add: the_var_simps)
qed

end

end
