(* ===== verification/Row_Buffer.thy ===== *)
theory Row_Buffer
  imports Buffer_Programs
begin

text \<open>
  The class \<^verbatim>\<open>aligned_row_buffer<T, Alignment, A>\<close> of \<^verbatim>\<open>include/patton/buffer.hpp\<close>: a matrix
  whose rows are aligned. Its constructor counts the elements from 0, so that the rollback is
  exact. The lemmas rest on the same contract of the allocator of bytes as those of
  \<^verbatim>\<open>aligned_buffer\<close>.
\<close>

section \<open>The class\<close>

record aligned_row_buffer =
  row_data :: size_t
  row_rows :: size_t
  row_cols :: size_t
  bytesPerRow :: size_t

definition make_aligned_row_buffer ::
  "bool \<Rightarrow> (nat \<Rightarrow> bool) \<Rightarrow> size_t \<Rightarrow> (size_t \<Rightarrow> 's \<Rightarrow> size_t res \<times> 's) \<Rightarrow> (size_t \<Rightarrow> size_t \<Rightarrow> 's \<Rightarrow> unit res \<times> 's) \<Rightarrow>
     hardware_sizes \<Rightarrow> size_t \<Rightarrow> element_type \<Rightarrow> size_t \<Rightarrow> size_t \<Rightarrow> 's objects \<Rightarrow> aligned_row_buffer res \<times> 's objects" where
  "make_aligned_row_buffer isNothrow throws garbage alloc dealloc hw alignment T rows cols o1 =
     (let rawBytesPerRowR = try_multiply_unsigned (sizeof_T T) cols in
      case try_ceili (arith_value rawBytesPerRowR) (alignment_in_bytes hw (alignment OR alignof_T T)) of
        Inl e \<Rightarrow> (Inl e, o1)
      | Inr bytesPerRowR \<Rightarrow>
          let numBytesR = try_multiply_unsigned rows (arith_value bytesPerRowR); d = arith_value bytesPerRowR in
          if arith_ec rawBytesPerRowR \<noteq> NoError \<or> arith_ec bytesPerRowR \<noteq> NoError \<or> arith_ec numBytesR \<noteq> NoError
          then (Inl BadAlloc, o1)
          else if rows = 0 \<or> cols = 0
          then (Inr \<lparr>row_data = 0, row_rows = rows, row_cols = cols, bytesPerRow = d\<rparr>, o1)
          else
            (case on_store (alloc (arith_value numBytesR)) o1 of
               (Inl e, o2) \<Rightarrow> (Inl e, o2)
             | (Inr p, o2) \<Rightarrow>
                 (case transaction (\<not> isNothrow)
                     (\<lambda>(numElementsConstructed, o3).
                        let (r, o4) = then_do (destroy_constructed_rows (sizeof_T T) p rows cols d numElementsConstructed)
                              (on_store (dealloc p (rows * d))) o3
                        in (r, numElementsConstructed, o4))
                     (construct_aligned_row_buffer isNothrow throws (sizeof_T T) p rows cols d) (garbage, o2) of
                    (Inl e, _, o3) \<Rightarrow> (Inl e, o3)
                  | (Inr _, _, o3) \<Rightarrow> (Inr \<lparr>row_data = p, row_rows = rows, row_cols = cols, bytesPerRow = d\<rparr>, o3))))"

definition row_destroy_and_free ::
  "size_t \<Rightarrow> (size_t \<Rightarrow> size_t \<Rightarrow> 's \<Rightarrow> unit res \<times> 's) \<Rightarrow> aligned_row_buffer \<Rightarrow> 's objects \<Rightarrow> unit res \<times> 's objects" where
  "row_destroy_and_free sz dealloc b =
     then_do (destroy_aligned_row_buffer sz (row_data b) (row_rows b) (row_cols b) (bytesPerRow b))
       (on_store (dealloc (row_data b) (row_rows b * bytesPerRow b)))"

text \<open>The default constructor, the move constructor (also what is left of its argument), the destructor.\<close>

definition empty_row_buffer :: aligned_row_buffer where
  "empty_row_buffer = \<lparr>row_data = 0, row_rows = 0, row_cols = 0, bytesPerRow = 0\<rparr>"

definition row_move_construct :: "aligned_row_buffer \<Rightarrow> aligned_row_buffer \<times> aligned_row_buffer" where
  "row_move_construct rhs =
     (\<lparr>row_data = row_data rhs, row_rows = row_rows rhs, row_cols = row_cols rhs, bytesPerRow = bytesPerRow rhs\<rparr>,
      \<lparr>row_data = 0, row_rows = 0, row_cols = 0, bytesPerRow = 0\<rparr>)"

definition row_destruct ::
  "size_t \<Rightarrow> (size_t \<Rightarrow> size_t \<Rightarrow> 's \<Rightarrow> unit res \<times> 's) \<Rightarrow> aligned_row_buffer \<Rightarrow> 's objects \<Rightarrow> unit res \<times> 's objects" where
  "row_destruct sz dealloc b o1 = (if row_data b \<noteq> 0 then row_destroy_and_free sz dealloc b o1 else (Inr (), o1))"

text \<open>
  The move assignment does not return a value, although it is declared to: after its effects,
  the behaviour is undefined.
\<close>

definition row_move_assign ::
  "size_t \<Rightarrow> (size_t \<Rightarrow> size_t \<Rightarrow> 's \<Rightarrow> unit res \<times> 's) \<Rightarrow> nat \<Rightarrow> nat \<Rightarrow> (nat \<Rightarrow> aligned_row_buffer) \<Rightarrow> 's objects \<Rightarrow>
     unit res \<times> (nat \<Rightarrow> aligned_row_buffer) \<times> 's objects" where
  "row_move_assign sz dealloc x y vars o1 =
     (if x \<noteq> y then
        (case (if row_data (vars x) \<noteq> 0 then row_destroy_and_free sz dealloc (vars x) o1 else (Inr (), o1)) of
           (Inl e, o2) \<Rightarrow> (Inl e, vars, o2)
         | (Inr _, o2) \<Rightarrow>
             (Inl UndefinedBehaviour,
              vars(x := vars y, y := \<lparr>row_data = 0, row_rows = 0, row_cols = 0, bytesPerRow = 0\<rparr>), o2))
      else (Inl UndefinedBehaviour, vars, o1))"

text \<open>Access to a row: a span, which is the address of its first element and the number of elements.\<close>

definition row_at :: "aligned_row_buffer \<Rightarrow> size_t \<Rightarrow> (size_t \<times> size_t) res" where
  "row_at b i = (if \<not> i < row_rows b then Inl ContractViolation else Inr (row_data b + i * bytesPerRow b, row_cols b))"

definition row_empty :: "aligned_row_buffer \<Rightarrow> bool" where
  "row_empty b \<longleftrightarrow> row_rows b = 0"

definition row_front :: "aligned_row_buffer \<Rightarrow> (size_t \<times> size_t) res" where
  "row_front b = (if row_empty b then Inl ContractViolation else row_at b 0)"

definition row_back :: "aligned_row_buffer \<Rightarrow> (size_t \<times> size_t) res" where
  "row_back b = (if row_empty b then Inl ContractViolation else row_at b (row_rows b - 1))"

section \<open>The elements of the matrix\<close>

lemma length_row_elements: "length (row_elements sz p rows cols d) = rows * cols"
  by (simp add: row_elements_def length_concat comp_def elements_def sum_list_triv)

lemma row_element_unat:
  assumes "unat p + rows * unat d < 2 ^ 64" "cols * unat sz \<le> unat d" "r < rows" "c < cols"
  shows "unat (element_address sz (element_address d p r) c) = unat p + r * unat d + c * unat sz"
proof -
  have r: "unat (element_address d p r) = unat p + r * unat d"
    using element_address_unat [OF assms(1), of r] assms(3) by simp
  have "(r + 1) * unat d \<le> rows * unat d" using assms(3) by (intro mult_right_mono) simp_all
  then have "unat (element_address d p r) + cols * unat sz < 2 ^ 64" using r assms(1,2) by simp
  then show ?thesis using element_address_unat [of "element_address d p r" cols sz c] assms(4) r by simp
qed

lemma row_elements_ok:
  assumes lim: "unat p + unat rows * unat d < 2 ^ 64" and c: "unat cols * unat sz \<le> unat d" and sz: "sz \<noteq> 0"
  shows "distinct (row_elements sz p (unat rows) (unat cols) d)"
    "set (row_elements sz p (unat rows) (unat cols) d) \<subseteq> object_bytes p (rows * d)"
proof -
  let ?f = "\<lambda>(r, c). element_address sz (element_address d p r) c"
  have l: "row_elements sz p (unat rows) (unat cols) d = map ?f (List.product [0..<unat rows] [0..<unat cols])"
    by (simp add: row_elements_def elements_def product_concat_map map_concat comp_def)
  have s0: "0 < unat sz" using sz by (simp add: unat_gt_0)
  note u = row_element_unat [OF lim c]
  have small: "j * unat sz + unat sz \<le> unat d" if "j < unat cols" for j
  proof -
    have "(j + 1) * unat sz \<le> unat cols * unat sz" using that by (intro mult_right_mono) simp_all
    then show ?thesis using c by simp
  qed
  have "inj_on ?f ({0..<unat rows} \<times> {0..<unat cols})"
  proof (rule inj_onI, clarify)
    fix r j r' j'
    assume b: "r \<in> {0..<unat rows}" "j \<in> {0..<unat cols}" "r' \<in> {0..<unat rows}" "j' \<in> {0..<unat cols}"
      and e: "element_address sz (element_address d p r) j = element_address sz (element_address d p r') j'"
    have "r * unat d + j * unat sz = r' * unat d + j' * unat sz" using u [of r j] u [of r' j'] b e by simp
    moreover have lt: "j * unat sz < unat d" "j' * unat sz < unat d" using small [of j] small [of j'] b s0 by auto
    ultimately have "r = r'"
      by (metis div_mult_self3 div_less add.commute add.right_neutral less_nat_zero_code neq0_conv)
    then show "r = r' \<and> j = j'" using \<open>r * unat d + j * unat sz = r' * unat d + j' * unat sz\<close> s0 by simp
  qed
  then show "distinct (row_elements sz p (unat rows) (unat cols) d)"
    unfolding l by (simp add: distinct_map distinct_product)
  have nd: "unat (rows * d) = unat rows * unat d" using lim by (intro unat_mult_no_wrap) simp
  have "r * unat d + j * unat sz < unat rows * unat d" if "r < unat rows" "j < unat cols" for r j
  proof -
    have "(r + 1) * unat d \<le> unat rows * unat d" using that(1) by (intro mult_right_mono) simp_all
    then show ?thesis using small [OF that(2)] s0 by simp
  qed
  then show "set (row_elements sz p (unat rows) (unat cols) d) \<subseteq> object_bytes p (rows * d)"
    unfolding l using u nd by (auto simp: object_bytes_def)
qed

section \<open>The life of a matrix\<close>

text \<open>The number of bytes of a row: the elements fit, and the next row is aligned again.\<close>

lemma row_bytes:
  assumes "arith_ec (try_multiply_unsigned (sizeof_T T) cols) = NoError"
    and "try_ceili (arith_value (try_multiply_unsigned (sizeof_T T) cols)) (alignment_in_bytes hw a) = Inr r"
    and "arith_ec r = NoError"
  shows "unat cols * unat (sizeof_T T) \<le> unat (arith_value r)" "unat (alignment_in_bytes hw a) dvd unat (arith_value r)"
proof -
  obtain m where m: "unat (alignment_in_bytes hw a) = 2 ^ m" using alignment_in_bytes_exp by blast
  then have a0: "alignment_in_bytes hw a \<noteq> 0" by (metis power_not_zero unat_0 zero_neq_numeral)
  have lim: "unat (sizeof_T T) * unat cols < 2 ^ 64" using assms(1) by (simp add: try_multiply_unsigned_exact split: if_splits)
  then have "unat (arith_value r) = ceil_multiple (unat (sizeof_T T) * unat cols) (unat (alignment_in_bytes hw a))"
    using assms(2,3) by (auto simp: try_multiply_unsigned_exact try_ceili_exact [OF a0] unat_mult_no_wrap unat_of_nat_no_wrap
        split: if_splits)
  then show "unat cols * unat (sizeof_T T) \<le> unat (arith_value r)" "unat (alignment_in_bytes hw a) dvd unat (arith_value r)"
    using m ceil_multiple_dvd [of "unat (alignment_in_bytes hw a)"]
      ceil_multiple_ge [of "unat (alignment_in_bytes hw a)" "unat (sizeof_T T) * unat cols"]
    by (simp_all add: mult.commute)
qed

definition row_buffer_elements :: "size_t \<Rightarrow> aligned_row_buffer \<Rightarrow> size_t list" where
  "row_buffer_elements sz b =
     (if row_data b = 0 then [] else row_elements sz (row_data b) (unat (row_rows b)) (unat (row_cols b)) (bytesPerRow b))"

context buffer_memory
begin

abbreviation make_rows where
  "make_rows isNothrow throws garbage rows cols \<equiv>
     make_aligned_row_buffer isNothrow throws garbage alloc dealloc hw alignment T rows cols"

lemma make_rows_cases:
  assumes lo: "live o1 \<subseteq> owned (store o1)" and nt: "isNothrow \<longrightarrow> (\<forall>k. \<not> throws k)"
  obtains (empty) b where "make_rows isNothrow throws garbage rows cols o1 = (Inr b, o1)" "row_data b = 0"
      "row_rows b = rows" "row_cols b = cols" "rows = 0 \<or> cols = 0"
  | (made) b o2 where "make_rows isNothrow throws garbage rows cols o1 = (Inr b, o2)" "row_data b \<noteq> 0"
      "row_rows b = rows" "row_cols b = cols"
      "intact (store o2) (row_data b) (rows * bytesPerRow b)"
      "extent (store o2) (row_data b) (rows * bytesPerRow b) \<inter> owned (store o1) = {}"
      "owned (store o2) = owned (store o1) \<union> extent (store o2) (row_data b) (rows * bytesPerRow b)"
      "live o2 = live o1 \<union> set (row_buffer_elements (sizeof_T T) b)"
      "unat rows * unat (bytesPerRow b) < 2 ^ 63" "unat cols * unat (sizeof_T T) \<le> unat (bytesPerRow b)" "rows \<noteq> 0 \<and> cols \<noteq> 0"
      "unat (alignment_in_bytes hw (alignment OR alignof_T T)) dvd unat (row_data b)"
      "unat (alignment_in_bytes hw (alignment OR alignof_T T)) dvd unat (bytesPerRow b)"
  | (failed) e o2 where "make_rows isNothrow throws garbage rows cols o1 = (Inl e, o2)"
      "owned (store o2) = owned (store o1)" "live o2 = live o1"
      "e = BadAlloc \<or> (\<exists>c. e = ElementException c \<and> throws c)"
proof -
  let ?a = "alignment_in_bytes hw (alignment OR alignof_T T)" and ?raw = "try_multiply_unsigned (sizeof_T T) cols"
  have "?a \<noteq> 0" using alignment_in_bytes_exp [of hw "alignment OR alignof_T T"] by (metis power_not_zero unat_0 zero_neq_numeral)
  then obtain r where r: "try_ceili (arith_value ?raw) ?a = Inr r" by (simp add: try_ceili_exact)
  let ?d = "arith_value r"
  show thesis
  proof (cases "arith_ec ?raw \<noteq> NoError \<or> arith_ec r \<noteq> NoError \<or> arith_ec (try_multiply_unsigned rows ?d) \<noteq> NoError")
    case True
    then show thesis using failed [of BadAlloc o1] by (simp add: make_aligned_row_buffer_def r Let_def)
  next
    case ok: False
    show thesis
    proof (cases "rows = 0 \<or> cols = 0")
      case True
      then show thesis using ok empty [of "\<lparr>row_data = 0, row_rows = rows, row_cols = cols, bytesPerRow = ?d\<rparr>"]
        by (simp add: make_aligned_row_buffer_def r Let_def)
    next
      case n: False
      have lim64: "unat rows * unat ?d < 2 ^ 64" and mult: "try_multiply_unsigned rows ?d = \<lparr>arith_value = rows * ?d, arith_ec = NoError\<rparr>"
        using ok by (simp_all add: try_multiply_unsigned_exact split: if_splits)
      have nd: "unat (rows * ?d) = unat rows * unat ?d" using lim64 by (rule unat_mult_no_wrap)
      have c: "unat cols * unat (sizeof_T T) \<le> unat ?d" "unat ?a dvd unat ?d" using row_bytes [OF _ r] ok by auto
      have s0: "0 < unat (sizeof_T T)" "0 < unat cols" using object_size n by (simp_all add: unat_gt_0)
      then have "unat cols \<le> unat cols * unat (sizeof_T T)" by simp
      then have cd: "unat cols \<le> unat ?d" "0 < unat ?d" using c(1) s0(2) by linarith+
      have "0 < unat rows" using n by (simp add: unat_gt_0)
      then have "unat ?d \<le> unat rows * unat ?d" by simp
      then have dl: "unat cols \<le> unat rows * unat ?d" using cd(1) by linarith
      obtain q s1 where al: "alloc (rows * ?d) (store o1) = (q, s1)" by fastforce
      show thesis
      proof (cases q)
        case (Inl e)
        then show thesis using ok n al alloc_Inl [of "rows * ?d" "store o1" e s1] alloc_errors [of "rows * ?d" "store o1" e s1]
            failed [of e "o1\<lparr>store := s1\<rparr>"]
          by (simp add: make_aligned_row_buffer_def r mult on_store_def)
      next
        case (Inr p)
        note al = al [unfolded Inr]
        have a: "intact s1 p (rows * ?d)" "extent s1 p (rows * ?d) \<inter> owned (store o1) = {}"
          "owned s1 = owned (store o1) \<union> extent s1 p (rows * ?d)"
          using alloc_Inr [OF al] by auto
        have i: "unat p + unat rows * unat ?d < 2 ^ 64" "p \<noteq> 0" using intactD [OF a(1)] nd by auto
        note el = row_elements_ok [OF i(1) c(1) object_size]
        have lim: "unat rows * unat ?d < 2 ^ 63" using alloc_limit [OF al] nd by simp
        then have cl: "unat cols < 2 ^ 63" using dl by linarith
        let ?els = "row_elements (sizeof_T T) p (unat rows) (unat cols) ?d"
        have sub: "set ?els \<subseteq> object_bytes p (rows * ?d * 1)" using el(2) by simp
        note unf = make_aligned_row_buffer_def on_store_def [of "alloc _"] transaction_def
          construct_aligned_row_buffer_eq [OF cd(2) lim cl]
        show thesis
        proof (cases rule: region_cases [OF lo al el(1) sub, of throws 0])
          case (1 o2)
          let ?b = "\<lparr>row_data = p, row_rows = rows, row_cols = cols, bytesPerRow = ?d\<rparr>"
          show thesis
          proof (rule made [of ?b o2])
            show "make_rows isNothrow throws garbage rows cols o1 = (Inr ?b, o2)"
              using ok n r mult al 1(1) by (simp add: unf)
          qed (use 1(2,3) a i lim c n alloc_aligned [OF al] in \<open>simp_all add: row_buffer_elements_def\<close>)
        next
          case (2 e k o2)
          have nn: "\<not> isNothrow" "is_exception e" using 2(3) nt by auto
          have "unat rows * unat cols \<le> unat rows * unat ?d" using cd(1) by (rule mult_left_mono) simp
          then have len: "length ?els < 2 ^ 64" using lim64 unfolding length_row_elements by linarith
          obtain o3 where o3: "then_do (destroy_loop (take k ?els)) (on_store (dealloc p (rows * ?d))) o2 = (Inr (), o3)"
              "live o3 = live o1" "owned (store o3) = owned (store o1)"
            using 2(4) [of "take k ?els"] el(1) by auto
          obtain o4 where o4: "destroy_loop (take k ?els) o2 = (Inr (), o4)"
            using o3(1) by (auto simp: then_do_def split: prod.splits sum.splits)
          have "destroy_constructed_rows (sizeof_T T) p rows cols ?d (word_of_nat k) o2 = (Inr (), o4)"
            using destroy_constructed_rows_eq [OF cd(2) lim cl _ len o4] 2(2) by simp
          then have "make_rows isNothrow throws garbage rows cols o1 = (Inl e, o3)"
            using ok n r mult al 2(1) nn o3(1) o4 by (simp add: unf then_do_def)
          then show thesis using failed [of e o3] o3(2,3) 2(3) by simp
        qed
      qed
    qed
  qed
qed

lemma row_life:
  assumes lo: "live o1 \<subseteq> owned (store o1)" and nt: "isNothrow \<longrightarrow> (\<forall>k. \<not> throws k)"
  shows "case make_rows isNothrow throws garbage rows cols o1 of
      (Inr b, o2) \<Rightarrow> row_rows b = rows \<and> live o1 \<subseteq> live o2 \<and> card (live o2 - live o1) = unat rows * unat cols
        \<and> (\<forall>i j. i < rows \<and> j < cols \<longrightarrow> (\<exists>a. row_at b i = Inr (a, cols)
             \<and> unat (alignment_in_bytes hw (alignment OR alignof_T T)) dvd unat a \<and> a + j * sizeof_T T \<in> live o2 - live o1))
        \<and> (\<exists>o3. row_destruct (sizeof_T T) dealloc b o2 = (Inr (), o3) \<and> live o3 = live o1
             \<and> owned (store o3) = owned (store o1))
    | (Inl e, o2) \<Rightarrow> live o2 = live o1 \<and> owned (store o2) = owned (store o1)
        \<and> (e = BadAlloc \<or> (\<exists>c. e = ElementException c \<and> throws c))"
proof (cases rule: make_rows_cases [OF lo nt, of garbage rows cols])
  case (1 b)
  then show ?thesis by (auto simp: row_destruct_def)
next
  case (2 b o2)
  let ?p = "row_data b" and ?d = "bytesPerRow b" and ?els = "row_buffer_elements (sizeof_T T) b"
  have els: "?els = row_elements (sizeof_T T) ?p (unat rows) (unat cols) ?d" using 2(2-4) by (simp add: row_buffer_elements_def)
  have nd: "unat (rows * ?d) = unat rows * unat ?d" using 2(9) by (intro unat_mult_no_wrap) simp
  have lim: "unat ?p + unat rows * unat ?d < 2 ^ 64" using intactD [OF 2(5)] nd by simp
  note ok = row_elements_ok [OF lim 2(10) object_size, folded els]
  have "set ?els \<subseteq> extent (store o2) ?p (rows * ?d)" using ok(2) intactD [OF 2(5)] by auto
  then have fresh: "set ?els \<inter> live o1 = {}" using 2(6) lo by blast
  then have diff: "live o2 - live o1 = set ?els" "live o2 - set ?els = live o1" using 2(8) by blast+
  have card: "card (live o2 - live o1) = unat rows * unat cols"
    unfolding diff(1) using distinct_card [OF ok(1)] by (simp add: els length_row_elements)
  have sub: "live o1 \<subseteq> live o2" using 2(8) by blast
  have s0: "0 < unat (sizeof_T T)" "0 < unat cols" using object_size 2(11) by (simp_all add: unat_gt_0)
  then have "unat cols \<le> unat cols * unat (sizeof_T T)" by simp
  then have cd: "unat cols \<le> unat ?d" "0 < unat ?d" using 2(10) s0(2) by linarith+
  have access: "\<exists>a. row_at b i = Inr (a, cols) \<and> unat (alignment_in_bytes hw (alignment OR alignof_T T)) dvd unat a
      \<and> a + j * sizeof_T T \<in> live o2 - live o1" if "i < rows" "j < cols" for i j
  proof -
    have ij: "unat i < unat rows" "unat j < unat cols" using that by (simp_all add: word_less_nat_alt)
    have a: "?p + i * ?d = element_address ?d ?p (unat i)" by (simp add: element_address_def)
    have "unat (?p + i * ?d) = unat ?p + unat i * unat ?d"
      unfolding a using element_address_unat [OF lim, of "unat i"] ij(1) by simp
    then have "unat (alignment_in_bytes hw (alignment OR alignof_T T)) dvd unat (?p + i * ?d)" using 2(12,13) by simp
    moreover have "element_address (sizeof_T T) (element_address ?d ?p (unat i)) (unat j) \<in> set ?els"
      using ij by (simp add: els row_elements_def elements_def) (meson atLeastLessThan_iff imageI le0)
    then have "?p + i * ?d + j * sizeof_T T \<in> live o2 - live o1" unfolding diff(1) by (simp add: element_address_def)
    ultimately show ?thesis using that(1) 2(3,4) by (simp add: row_at_def)
  qed
  obtain s where s: "then_do (destroy_loop ?els) (on_store (dealloc ?p (rows * ?d))) o2
      = (Inr (), o2\<lparr>live := live o2 - set ?els, store := s\<rparr>)" "owned s = owned (store o2) - extent (store o2) ?p (rows * ?d)"
    using region_release [OF 2(5) ok(1)] 2(8) by auto
  have "owned s = owned (store o1)" using s(2) 2(6,7) by blast
  moreover have "row_destruct (sizeof_T T) dealloc b o2 = (Inr (), o2\<lparr>live := live o2 - set ?els, store := s\<rparr>)"
  proof -
    have "0 < unat rows" using 2(11) by (simp add: unat_gt_0)
    then have "unat ?d \<le> unat rows * unat ?d" by simp
    then have "unat cols < 2 ^ 63" using cd(1) 2(9) by linarith
    then show ?thesis
      using s(1) destroy_aligned_row_buffer_eq [OF cd(2) 2(9), of cols "sizeof_T T" ?p o2] 2(2-4)
      by (simp add: row_destruct_def row_destroy_and_free_def then_do_def els)
  qed
  ultimately show ?thesis using 2(1,3) diff(2) card access sub by auto
next
  case (3 e o2)
  then show ?thesis by simp
qed

end

end
