(* ===== verification/Buffer_Stack.thy ===== *)
theory Buffer_Stack
  imports Row_Buffer Unique_Ptr
begin

text \<open>
  \<^verbatim>\<open>aligned_buffer\<close> with its default allocator: \<^verbatim>\<open>aligned_allocator_adaptor\<close> over
  \<^verbatim>\<open>aligned_allocator\<close> on the heap, which adds its own alignment only if the static alignment
  does not suffice. The interpretation of the contract of buffers gives the properties of
  programs that use buffers.
\<close>

section \<open>The allocator of bytes of a buffer\<close>

definition char_type :: element_type where
  "char_type = \<lparr>sizeof_T = 1, alignof_T = 1\<rparr>"

definition aligned_allocator_provides_static_alignment :: "size_t \<Rightarrow> size_t \<Rightarrow> size_t \<Rightarrow> size_t \<Rightarrow> bool" where
  "aligned_allocator_provides_static_alignment constructive_size alignment al a =
     provides_static_alignment constructive_size (alignment OR al) a"

definition needs_alignment :: "size_t \<Rightarrow> size_t \<Rightarrow> element_type \<Rightarrow> bool" where
  "needs_alignment constructive_size alignment T \<longleftrightarrow>
     \<not> traits_provides_static_alignment constructive_size
        (Some (aligned_allocator_provides_static_alignment constructive_size alignment 1)) ((alignment OR alignof_T T) OR 1)"

definition buffer_byte_allocate ::
  "heap_choice \<Rightarrow> hardware_sizes \<Rightarrow> size_t \<Rightarrow> size_t \<Rightarrow> element_type \<Rightarrow> size_t \<Rightarrow> heap \<Rightarrow> size_t res \<times> heap" where
  "buffer_byte_allocate pick hw constructive_size alignment T n h =
     (if needs_alignment constructive_size alignment T
      then adaptor_allocate hw (alignment OR alignof_T T) char_type (aligned_allocator_allocate pick hw alignment 1 1)
             contents set_contents n h
      else aligned_allocator_allocate pick hw alignment 1 1 n h)"

definition buffer_byte_deallocate ::
  "hardware_sizes \<Rightarrow> size_t \<Rightarrow> size_t \<Rightarrow> element_type \<Rightarrow> size_t \<Rightarrow> size_t \<Rightarrow> heap \<Rightarrow> unit res \<times> heap" where
  "buffer_byte_deallocate hw constructive_size alignment T p n h =
     (if needs_alignment constructive_size alignment T
      then adaptor_deallocate hw (alignment OR alignof_T T) char_type (aligned_allocator_deallocate hw alignment 1 1)
             contents p n h
      else aligned_allocator_deallocate hw alignment 1 1 p n h)"

section \<open>The class with its default allocator\<close>

record buffer_setup =
  setup_pick :: heap_choice
  setup_hw :: hardware_sizes
  setup_constructive_size :: size_t
  setup_alignment :: size_t
  setup_T :: element_type
  setup_nothrow :: bool
  setup_allowed :: "(nat \<Rightarrow> bool) \<Rightarrow> size_t \<Rightarrow> bool"

definition default_buffer_class :: "buffer_setup \<Rightarrow> heap buffer_class" where
  "default_buffer_class S =
     \<lparr>class_alloc = buffer_byte_allocate (setup_pick S) (setup_hw S) (setup_constructive_size S) (setup_alignment S) (setup_T S),
      class_dealloc = buffer_byte_deallocate (setup_hw S) (setup_constructive_size S) (setup_alignment S) (setup_T S),
      class_mem = contents, class_set_mem = set_contents,
      class_hw = setup_hw S, class_alignment = setup_alignment S, class_T = setup_T S,
      class_nothrow = setup_nothrow S, class_allowed = setup_allowed S\<rparr>"

text \<open>
  Hardware whose sizes are consistent, an element type with a size, constructors that keep a
  \<^verbatim>\<open>noexcept\<close>, and a counter that happens to start at 0 unless no constructor throws.
\<close>

definition setup_ok :: "buffer_setup \<Rightarrow> bool" where
  "setup_ok S \<longleftrightarrow> hw_consistent (setup_constructive_size S) (setup_hw S) \<and> sizeof_T (setup_T S) \<noteq> 0
     \<and> (\<forall>throws garbage. setup_allowed S throws garbage \<longrightarrow>
          (setup_nothrow S \<longrightarrow> (\<forall>k. \<not> throws k)) \<and> ((\<exists>k. throws k) \<longrightarrow> garbage = 0))"

definition demo_setup :: buffer_setup where
  "demo_setup = \<lparr>setup_pick = demo_pick, setup_hw = demo_hw, setup_constructive_size = 64, setup_alignment = 256,
     setup_T = demo_element, setup_nothrow = False, setup_allowed = (\<lambda>throws garbage. garbage = 0)\<rparr>"

lemma demo_setup_ok: "setup_ok demo_setup"
  by (simp add: setup_ok_def demo_setup_def hw_consistent_def hw_in_range_def demo_hw_def demo_element_def)

typedef good_setup = "{S. setup_ok S}"
  using demo_setup_ok by blast

lemma good_setup: "setup_ok (Rep_good_setup S)"
  using Rep_good_setup by blast

definition byte_intact :: "buffer_setup \<Rightarrow> heap \<Rightarrow> size_t \<Rightarrow> size_t \<Rightarrow> bool" where
  "byte_intact S =
     (if needs_alignment (setup_constructive_size S) (setup_alignment S) (setup_T S)
      then adaptor_intact (setup_hw S) (setup_alignment S OR alignof_T (setup_T S)) char_type contents
             (typed_intact 1 (heap_intact (alignment_in_bytes (setup_hw S) (setup_alignment S OR 1))))
      else typed_intact 1 (heap_intact (alignment_in_bytes (setup_hw S) (setup_alignment S OR 1))))"

definition byte_extent :: "buffer_setup \<Rightarrow> heap \<Rightarrow> size_t \<Rightarrow> size_t \<Rightarrow> size_t set" where
  "byte_extent S =
     (if needs_alignment (setup_constructive_size S) (setup_alignment S) (setup_T S)
      then adaptor_extent (setup_hw S) (setup_alignment S OR alignof_T (setup_T S)) char_type contents
             (typed_extent 1 heap_extent)
      else typed_extent 1 heap_extent)"

lemma byte_allocator:
  "allocator 1 (class_alloc (default_buffer_class S)) (class_dealloc (default_buffer_class S)) contents set_contents heap_owned
     (byte_intact S) (byte_extent S)"
proof -
  let ?a = "alignment_in_bytes (setup_hw S) (setup_alignment S OR 1)"
  have t: "allocator 1 (typed_allocate 1 (operator_new (setup_pick S) ?a)) (typed_deallocate 1 (operator_delete ?a))
      contents set_contents heap_owned (typed_intact 1 (heap_intact ?a)) (typed_extent 1 heap_extent)"
    by (rule heap.typed.allocator_axioms)
  show ?thesis
  proof (cases "needs_alignment (setup_constructive_size S) (setup_alignment S) (setup_T S)")
    case True
    then show ?thesis
      using heap_adaptor.adaptor.allocator_axioms [where hw = "setup_hw S"
          and alignment = "setup_alignment S OR alignof_T (setup_T S)" and T = char_type and pick = "setup_pick S" and a = ?a]
      by (simp add: default_buffer_class_def buffer_byte_allocate_def [abs_def] buffer_byte_deallocate_def [abs_def]
          byte_intact_def byte_extent_def aligned_allocator_typed char_type_def)
  next
    case False
    then show ?thesis using t
      by (simp add: default_buffer_class_def buffer_byte_allocate_def [abs_def] buffer_byte_deallocate_def [abs_def]
          byte_intact_def byte_extent_def aligned_allocator_typed)
  qed
qed

lemma heap_alloc_facts:
  assumes "typed_allocate 1 (operator_new pick a) n h = (Inr p, h')"
  shows "unat n < 2 ^ 63" "unat a dvd unat p"
  using assms operator_new_Inr(1) [of pick a n h p h'] by (auto simp: typed_allocate_def legal_def split: if_splits)

lemma heap_alloc_errors: "typed_allocate 1 (operator_new pick a) n h = (Inl e, h') \<Longrightarrow> e = BadAlloc"
  by (auto simp: typed_allocate_def operator_new_def Let_def split: if_splits option.splits)

lemma byte_allocate_facts:
  assumes ok: "setup_ok S" and al: "class_alloc (default_buffer_class S) n h = (r, h')"
  shows "r = Inr p \<Longrightarrow> unat n < 2 ^ 63"
    "r = Inr p \<Longrightarrow> unat (alignment_in_bytes (setup_hw S) (setup_alignment S OR alignof_T (setup_T S))) dvd unat p"
    "r = Inl e \<Longrightarrow> e = BadAlloc"
proof -
  let ?hw = "setup_hw S" and ?A = "setup_alignment S OR alignof_T (setup_T S)" and ?cs = "setup_constructive_size S"
  let ?a = "alignment_in_bytes ?hw (setup_alignment S OR 1)"
  let ?t = "typed_allocate 1 (operator_new (setup_pick S) ?a)"
  have range: "hw_in_range ?hw" using ok by (simp add: setup_ok_def hw_consistent_def)
  obtain i j where ij: "unat (alignment_in_bytes ?hw ?A) = 2 ^ i" "unat (alignment_in_bytes ?hw (?A OR 1)) = 2 ^ j"
    using alignment_in_bytes_exp by metis
  have le: "alignment_in_bytes ?hw ?A \<le> alignment_in_bytes ?hw (?A OR 1)"
    by (simp add: alignment_in_bytes_max [OF range])
  have up: "unat (alignment_in_bytes ?hw ?A) dvd q" if "2 ^ j dvd q" for q :: nat
    using le that unfolding ij(1) word_le_nat_alt ij(2)
    by (metis dvd_trans le_imp_power_dvd one_less_numeral_iff power_le_imp_le_exp semiring_norm(76))
  have "(r = Inr p \<longrightarrow> unat n < 2 ^ 63 \<and> unat (alignment_in_bytes ?hw ?A) dvd unat p) \<and> (r = Inl e \<longrightarrow> e = BadAlloc)"
  proof (cases "needs_alignment ?cs (setup_alignment S) (setup_T S)")
    case True
    then have eq: "adaptor_allocate ?hw ?A char_type ?t contents set_contents n h = (r, h')"
      using al by (simp add: default_buffer_class_def buffer_byte_allocate_def aligned_allocator_typed)
    show ?thesis
    proof (cases rule: heap_adaptor.adaptor_allocate_cases [where hw = ?hw and alignment = ?A
        and T = char_type and pick = "setup_pick S" and a = ?a and n = n and s = h])
      case overflow
      then show ?thesis using eq by simp
    next
      case (failed e' h1)
      then show ?thesis using eq heap_alloc_errors [OF failed(1)] by auto
    next
      case (allocated mem h1 p')
      have "unat (n * sizeof_T char_type) < 2 ^ 63"
        using heap_alloc_facts(1) [OF allocated(1)] allocated(4,5) by linarith
      then show ?thesis using allocated(2,6) eq up [of "unat p'"] ij(2) by (auto simp: char_type_def)
    qed
  next
    case False
    then have eq: "?t n h = (r, h')"
      using al by (simp add: default_buffer_class_def buffer_byte_allocate_def aligned_allocator_typed)
    have "provides_dynamic_alignment ?hw (setup_alignment S OR 1) (?A OR 1)"
      using False ok by (intro static_implies_dynamic [of ?cs])
        (simp_all add: setup_ok_def needs_alignment_def traits_provides_static_alignment_def
          aligned_allocator_provides_static_alignment_def)
    moreover obtain m where "unat ?a = 2 ^ m" using alignment_in_bytes_exp by blast
    ultimately have "2 ^ j dvd unat ?a"
      using ij(2) by (auto simp: provides_dynamic_alignment_def word_le_nat_alt intro: le_imp_power_dvd dest: power_le_imp_le_exp [rotated])
    then show ?thesis using eq heap_alloc_facts [of "setup_pick S" ?a n h p h'] heap_alloc_errors [of "setup_pick S" ?a n h e h'] up
      by (auto intro: dvd_trans)
  qed
  then show "r = Inr p \<Longrightarrow> unat n < 2 ^ 63" "r = Inr p \<Longrightarrow> unat (alignment_in_bytes ?hw ?A) dvd unat p"
    "r = Inl e \<Longrightarrow> e = BadAlloc" by auto
qed

interpretation programs: buffer_programs "default_buffer_class (Rep_good_setup S)" heap_owned
  "byte_intact (Rep_good_setup S)" "byte_extent (Rep_good_setup S)"
  for S
proof -
  have c: "class_mem (default_buffer_class (Rep_good_setup S)) = contents" "class_set_mem (default_buffer_class (Rep_good_setup S)) = set_contents"
    "class_hw (default_buffer_class (Rep_good_setup S)) = setup_hw (Rep_good_setup S)"
    "class_alignment (default_buffer_class (Rep_good_setup S)) = setup_alignment (Rep_good_setup S)"
    "class_T (default_buffer_class (Rep_good_setup S)) = setup_T (Rep_good_setup S)"
    "class_nothrow (default_buffer_class (Rep_good_setup S)) = setup_nothrow (Rep_good_setup S)"
    "class_allowed (default_buffer_class (Rep_good_setup S)) = setup_allowed (Rep_good_setup S)"
    by (simp_all add: default_buffer_class_def)
  note ok = good_setup [of S]
  show "buffer_programs (default_buffer_class (Rep_good_setup S)) heap_owned (byte_intact (Rep_good_setup S)) (byte_extent (Rep_good_setup S))"
  proof (intro buffer_programs.intro buffer_memory.intro buffer_memory_axioms.intro buffer_programs_axioms.intro; (simp only: c)?)
    show "allocator 1 (class_alloc (default_buffer_class (Rep_good_setup S))) (class_dealloc (default_buffer_class (Rep_good_setup S)))
        contents set_contents heap_owned (byte_intact (Rep_good_setup S)) (byte_extent (Rep_good_setup S))"
      by (rule byte_allocator)
  qed (use byte_allocate_facts [OF ok] ok [unfolded setup_ok_def] in blast)+
qed

section \<open>Properties\<close>

lemma good_setup_rep: "setup_ok S \<Longrightarrow> Rep_good_setup (Abs_good_setup S) = S"
  by (simp add: Abs_good_setup_inverse)

text \<open>
  C31: Whatever a program does with buffers (declaring them, moving between them, writing to their
  elements, leaving their scope), provided that the uninitialised counter of the constructor happens
  to be 0 in every construction in which an element constructor throws (otherwise
  \<^verbatim>\<open>uninitialised_counter_faults\<close> applies): no step accesses a dead object, constructs one twice, frees
  memory twice or breaks an allocation; each step succeeds or throws \<^verbatim>\<open>bad_alloc\<close> or what an element
  constructor threw. At any time exactly the elements of the buffers in scope live besides the
  objects from before, and when no buffer is in scope, the objects that live and the memory in use
  are those from the start. Under the same proviso, constructors may throw at any point.
\<close>

theorem buffer_programs_safe:
  assumes "setup_ok S" "live o0 \<subseteq> heap_owned (store o0)"
    and "program_reachable (default_buffer_class S) o0 (vars, o1)"
  shows "(\<forall>r s'. program_step (default_buffer_class S) (vars, o1) r s' \<longrightarrow>
        r = Inr () \<or> r = Inl BadAlloc \<or> (\<exists>c. r = Inl (ElementException c)))
    \<and> live o1 = live o0 \<union> (\<Union>b \<in> ran vars. set (buffer_elements b))
    \<and> ((\<forall>x. vars x = None) \<longrightarrow> live o1 = live o0 \<and> heap_owned (store o1) = heap_owned (store o0))"
  using programs.program_in_order(1-3) [of "Abs_good_setup S" o0 vars o1, unfolded good_setup_rep [OF assms(1)],
      OF assms(3,2)]
  by blast

text \<open>
  C32: Provided, as before, that the uninitialised counter happens to be 0 in every construction in
  which an element constructor throws: every element that \<^verbatim>\<open>operator []\<close> of a buffer gives lives, has
  the requested alignment, be it a special value or a combination, and lies completely in memory of
  its own: memory that was not in use before the program started, and that no other element of the
  same or of another buffer in scope overlaps.
\<close>

theorem buffer_elements_aligned:
  assumes "setup_ok S" "live o0 \<subseteq> heap_owned (store o0)"
    and "program_reachable (default_buffer_class S) o0 (vars, o1)" "vars x = Some b" "i < buf_size b"
  shows "\<exists>a. buffer_at b i = Inr a \<and> a \<in> live o1
    \<and> unat (alignment_in_bytes (setup_hw S) (setup_alignment S OR alignof_T (setup_T S))) dvd unat a
    \<and> object_bytes a (sizeof_T (setup_T S)) \<subseteq> heap_owned (store o1) - heap_owned (store o0)
    \<and> (\<forall>y b' j c. vars y = Some b' \<and> buffer_at b' j = Inr c \<and> (y, j) \<noteq> (x, i) \<longrightarrow>
        object_bytes a (sizeof_T (setup_T S)) \<inter> object_bytes c (sizeof_T (setup_T S)) = {})"
proof -
  note prog = programs.program_in_order [of "Abs_good_setup S" o0 vars o1, unfolded good_setup_rep [OF assms(1)],
      OF assms(3,2)]
  obtain a where a: "buffer_at b i = Inr a" "a \<in> live o1"
    "unat (alignment_in_bytes (setup_hw S) (setup_alignment S OR alignof_T (setup_T S))) dvd unat a"
    "object_bytes a (sizeof_T (setup_T S)) \<subseteq> heap_owned (store o1) - heap_owned (store o0)"
    using prog(4) [OF assms(4,5)] by (auto simp: default_buffer_class_def)
  moreover have "object_bytes a (sizeof_T (setup_T S)) \<inter> object_bytes c (sizeof_T (setup_T S)) = {}"
    if "vars y = Some b'" "buffer_at b' j = Inr c" "(y, j) \<noteq> (x, i)" for y b' j c
    using prog(5) [OF assms(4) that(1) a(1) that(2)] that(3) by (auto simp: default_buffer_class_def)
  ultimately show ?thesis by blast
qed

text \<open>A program that declares a buffer of three elements with an alignment of 256 bytes and leaves its scope.\<close>

definition demo_buffer :: aligned_buffer where
  "demo_buffer = \<lparr>buf_data = 4096, buf_size = 3, bytesPerElement = 256\<rparr>"

definition demo_filled :: "heap objects" where
  "demo_filled = \<lparr>store = demo_heap\<lparr>blocks := [4096 \<mapsto> (768, 256)]\<rparr>, live = {4096, 4352, 4608}, constructions = 3\<rparr>"

definition demo_left :: "heap objects" where
  "demo_left = \<lparr>store = demo_heap, live = {}, constructions = 3\<rparr>"

lemma demo_byte_allocator:
  "buffer_byte_allocate demo_pick demo_hw 64 256 demo_element 768 demo_heap
     = (Inr 4096, demo_heap\<lparr>blocks := [4096 \<mapsto> (768, 256)]\<rparr>)"
  "buffer_byte_deallocate demo_hw 64 256 demo_element 4096 768 (demo_heap\<lparr>blocks := [4096 \<mapsto> (768, 256)]\<rparr>)
     = (Inr (), demo_heap)"
proof -
  have al: "alignof_T demo_element = 8" by (simp add: demo_element_def)
  have st: "\<not> needs_alignment 64 256 demo_element"
    unfolding needs_alignment_def traits_provides_static_alignment_def aligned_allocator_provides_static_alignment_def al
    by code_simp
  have a: "alignment_in_bytes demo_hw (256 OR 1) = 256" by code_simp
  have "heap_owned demo_heap = {}" by (auto simp: heap_owned_def demo_heap_def)
  then have l: "legal demo_heap 768 256 4096" by (simp add: legal_def)
  have le: "\<not> (- 1 :: size_t) \<le> 768" by code_simp
  have p: "demo_pick demo_heap 768 256 = Some 4096" by (simp add: demo_pick_def demo_heap_def)
  show "buffer_byte_allocate demo_pick demo_hw 64 256 demo_element 768 demo_heap
     = (Inr 4096, demo_heap\<lparr>blocks := [4096 \<mapsto> (768, 256)]\<rparr>)"
    using l p le by (simp add: buffer_byte_allocate_def st aligned_allocator_allocate_def a [simplified] aligned_alloc_def
        operator_new_def Let_def) (simp add: demo_heap_def)
  show "buffer_byte_deallocate demo_hw 64 256 demo_element 4096 768 (demo_heap\<lparr>blocks := [4096 \<mapsto> (768, 256)]\<rparr>)
     = (Inr (), demo_heap)"
    by (simp add: buffer_byte_deallocate_def st aligned_allocator_deallocate_def a [simplified] aligned_free_def
        operator_delete_def Let_def) (simp add: demo_heap_def)
qed

lemma demo_program:
  "program_reachable (default_buffer_class demo_setup) demo_objects ([0 \<mapsto> demo_buffer], demo_filled)"
  "program_reachable (default_buffer_class demo_setup) demo_objects (\<lambda>_. None, demo_left)"
proof -
  let ?C = "default_buffer_class demo_setup"
  have bpe: "computeBytesPerElement demo_hw 256 demo_element = Inr 256" by code_simp
  have d: "0 < unat (256 :: size_t)" "unat (3 :: size_t) * unat (256 :: size_t) < 2 ^ 63" by simp_all
  have els: "elements 256 4096 3 = [4096, 4352, 4608]" by code_simp
  have allowed: "class_allowed ?C (\<lambda>k. False) 0" by (simp add: default_buffer_class_def demo_setup_def)
  have mult: "try_multiply_unsigned 3 256 = \<lparr>arith_value = 768, arith_ec = NoError\<rparr>" by code_simp
  have "class_make ?C (\<lambda>k. False) 0 3 demo_objects = (Inr demo_buffer, demo_filled)"
    unfolding class_make_def default_buffer_class_def demo_setup_def
    by (simp add: make_aligned_buffer_def bpe mult on_store_def demo_objects_def demo_byte_allocator(1)
        construct_aligned_buffer_eq [OF d] els transaction_def construct_def demo_buffer_def demo_filled_def insert_commute)
  then have "program_step ?C ((\<lambda>_. None), demo_objects) (Inr ()) ([0 \<mapsto> demo_buffer], demo_filled)"
    by (intro declare_sized [OF _ allowed]) simp_all
  then show 1: "program_reachable ?C demo_objects ([0 \<mapsto> demo_buffer], demo_filled)"
    using program_reachable.start program_reachable.step by blast
  have "destruct_buffer (class_dealloc ?C) demo_buffer demo_filled = (Inr (), demo_left)"
    unfolding default_buffer_class_def demo_setup_def
    by (simp add: destruct_buffer_def destroy_and_free_def demo_buffer_def demo_filled_def then_do_def
        destroy_aligned_buffer_eq [OF d] els destroy_def on_store_def demo_byte_allocator(2) demo_left_def)
  then have "program_step ?C ([0 \<mapsto> demo_buffer], demo_filled) (Inr ()) ([0 \<mapsto> demo_buffer](0 := None), demo_left)"
    by (intro leave) simp_all
  then show "program_reachable ?C demo_objects (\<lambda>_. None, demo_left)"
    using 1 program_reachable.step by fastforce
qed

lemma buffer_programs_safe_witness:
  "program_reachable (default_buffer_class demo_setup) demo_objects (\<lambda>_. None, demo_left)
   \<and> live demo_left = {} \<and> heap_owned (store demo_left) = {}"
proof -
  have h: "heap_owned (store demo_objects) = {}" "live demo_objects = {}"
    by (auto simp: heap_owned_def demo_heap_def demo_objects_def)
  show ?thesis
    using buffer_programs_safe [OF demo_setup_ok _ demo_program(2)] demo_program(2) h by simp
qed

lemma buffer_elements_aligned_witness:
  "\<exists>a. buffer_at demo_buffer 2 = Inr a \<and> a \<in> live demo_filled \<and> 256 dvd unat a
    \<and> object_bytes a 24 \<inter> object_bytes 4352 24 = {}"
proof -
  have h: "heap_owned (store demo_objects) = {}" "live demo_objects = {}"
    by (auto simp: heap_owned_def demo_heap_def demo_objects_def)
  then have lo: "live demo_objects \<subseteq> heap_owned (store demo_objects)" by simp
  have al: "alignment_in_bytes demo_hw 264 = 256" by code_simp
  have at: "buffer_at demo_buffer 1 = Inr 4352" by code_simp
  have v: "([0 :: nat \<mapsto> demo_buffer]) 0 = Some demo_buffer" "2 < buf_size demo_buffer" by (simp_all add: demo_buffer_def)
  obtain a where a: "buffer_at demo_buffer 2 = Inr a" "a \<in> live demo_filled"
    "unat (alignment_in_bytes (setup_hw demo_setup) (setup_alignment demo_setup OR alignof_T (setup_T demo_setup))) dvd unat a"
    "\<forall>y b' j c. ([0 :: nat \<mapsto> demo_buffer]) y = Some b' \<and> buffer_at b' j = Inr c \<and> (y, j) \<noteq> (0, 2) \<longrightarrow>
        object_bytes a (sizeof_T (setup_T demo_setup)) \<inter> object_bytes c (sizeof_T (setup_T demo_setup)) = {}"
    using buffer_elements_aligned [OF demo_setup_ok lo demo_program(1) v] by blast
  have "object_bytes a (sizeof_T (setup_T demo_setup)) \<inter> object_bytes 4352 (sizeof_T (setup_T demo_setup)) = {}"
    using a(4) [rule_format, of 0 demo_buffer 1 4352] at by simp
  then show ?thesis using a(1-3) by (auto simp: demo_setup_def demo_element_def al)
qed

text \<open>
  C34: If the constructor of the first element throws while the uninitialised counter of constructed elements
  is not 0 (in bytes, modulo the word size), the rollback of the constructor of \<^verbatim>\<open>aligned_buffer\<close> destroys an
  object that was never constructed.
\<close>

theorem uninitialised_counter_faults:
  assumes "computeBytesPerElement hw alignment T = Inr d" "n \<noteq> 0" "unat n * unat d < 2 ^ 63" "d \<noteq> 0"
    and "alloc (n * d) (store o1) = (Inr p, s1)" "p \<notin> live o1"
    and "throws (constructions o1)" "garbage * d \<noteq> 0"
  shows "\<exists>o2. make_aligned_buffer False throws garbage alloc dealloc hw alignment T n o1 = (Inl UndefinedBehaviour, o2)"
proof -
  have d0: "0 < unat d" using assms(4) by (simp add: unat_gt_0)
  have "0 < unat n" using assms(2) by (simp add: unat_gt_0)
  then obtain m where m: "unat n = Suc m" using gr0_conv_Suc by blast
  have el: "elements d p (unat n) = p # map (element_address d p) [1..<Suc m]"
    unfolding elements_def m by (simp add: upt_conv_Cons element_address_def del: upt_Suc)
  have "sint (garbage * d) \<noteq> 0" using assms(8) by (metis signed_0 signed_word_eqI)
  then have "\<exists>o2. destroy_aligned_buffer p garbage d o3 = (Inl UndefinedBehaviour, o2)" if "p \<notin> live o3" for o3 :: "'a objects"
    unfolding destroy_aligned_buffer_def using that by (subst ptr_loop.simps) (simp add: destroy_def)
  from this [of "o1\<lparr>store := s1, constructions := Suc (constructions o1)\<rparr>"] show ?thesis
    using assms(1,2,3,5-7)
    by (auto simp: make_aligned_buffer_def try_multiply_unsigned_exact on_store_def [of "alloc _"] transaction_def
        construct_aligned_buffer_eq [OF d0 assms(3)] el construct_def then_do_def)
qed

lemma uninitialised_counter_faults_witness:
  "\<exists>o2. make_aligned_buffer False (\<lambda>k. True) 1 (buffer_byte_allocate demo_pick demo_hw 64 256 demo_element)
     (buffer_byte_deallocate demo_hw 64 256 demo_element) demo_hw 256 demo_element 3 demo_objects
     = (Inl UndefinedBehaviour, o2)"
proof (rule uninitialised_counter_faults)
  show "computeBytesPerElement demo_hw 256 demo_element = Inr 256" by code_simp
  show "buffer_byte_allocate demo_pick demo_hw 64 256 demo_element (3 * 256) (store demo_objects)
      = (Inr 4096, demo_heap\<lparr>blocks := [4096 \<mapsto> (768, 256)]\<rparr>)"
    using demo_byte_allocator(1) by (simp add: demo_objects_def)
qed (simp_all add: demo_objects_def)

lemma default_fields:
  "class_hw (default_buffer_class S) = setup_hw S" "class_alignment (default_buffer_class S) = setup_alignment S"
  "class_T (default_buffer_class S) = setup_T S"
  by (simp_all add: default_buffer_class_def)

text \<open>
  C33: A matrix with aligned rows is constructed completely, every row aligned and every element alive, and
  its destructor destroys each element once and gives the memory back; or its constructor throws
  \<^verbatim>\<open>bad_alloc\<close> or what an element constructor threw, and then the elements constructed so far are
  destroyed, the memory is given back, and no other object is touched. This holds whatever
  value the counter of elements has before.
\<close>

theorem row_buffer_roundtrip:
  assumes ok: "setup_ok S" and "live o1 \<subseteq> heap_owned (store o1)" "isNothrow \<longrightarrow> (\<forall>k. \<not> throws k)"
  shows "case make_aligned_row_buffer isNothrow throws garbage (class_alloc (default_buffer_class S))
        (class_dealloc (default_buffer_class S)) (setup_hw S) (setup_alignment S) (setup_T S) rows cols o1 of
      (Inr b, o2) \<Rightarrow> row_rows b = rows \<and> live o1 \<subseteq> live o2 \<and> card (live o2 - live o1) = unat rows * unat cols
        \<and> (\<forall>i j. i < rows \<and> j < cols \<longrightarrow> (\<exists>a. row_at b i = Inr (a, cols)
             \<and> unat (alignment_in_bytes (setup_hw S) (setup_alignment S OR alignof_T (setup_T S))) dvd unat a
             \<and> a + j * sizeof_T (setup_T S) \<in> live o2 - live o1))
        \<and> (\<exists>o3. row_destruct (sizeof_T (setup_T S)) (class_dealloc (default_buffer_class S)) b o2 = (Inr (), o3)
             \<and> live o3 = live o1 \<and> heap_owned (store o3) = heap_owned (store o1))
    | (Inl e, o2) \<Rightarrow> live o2 = live o1 \<and> heap_owned (store o2) = heap_owned (store o1)
        \<and> (e = BadAlloc \<or> (\<exists>c. e = ElementException c \<and> throws c))"
  using programs.row_life [where S = "Abs_good_setup S" and ?o1.0 = o1 and isNothrow = isNothrow and throws = throws
      and garbage = garbage and rows = rows and cols = cols, unfolded good_setup_rep [OF ok] default_fields, OF assms(2,3)] .

text \<open>Three rows of ten elements, each row padded to 256 bytes; the constructor of the fifth element throws.\<close>

lemma row_buffer_roundtrip_witness:
  "case make_aligned_row_buffer False (\<lambda>k. k = 4) 77 (class_alloc (default_buffer_class demo_setup))
        (class_dealloc (default_buffer_class demo_setup)) demo_hw 256 demo_element 3 10 demo_objects of
      (Inr b, o2) \<Rightarrow> False
    | (Inl e, o2) \<Rightarrow> e = ElementException 4 \<and> live o2 = {} \<and> heap_owned (store o2) = {}"
proof -
  let ?alloc = "class_alloc (default_buffer_class demo_setup)" and ?dealloc = "class_dealloc (default_buffer_class demo_setup)"
  have h: "heap_owned demo_heap = {}" by (auto simp: heap_owned_def demo_heap_def)
  have al: "?alloc 768 demo_heap = (Inr 4096, demo_heap\<lparr>blocks := [4096 \<mapsto> (768, 256)]\<rparr>)"
    "?dealloc 4096 768 (demo_heap\<lparr>blocks := [4096 \<mapsto> (768, 256)]\<rparr>) = (Inr (), demo_heap)"
    using demo_byte_allocator by (simp_all add: default_buffer_class_def demo_setup_def)
  have T: "sizeof_T demo_element = 24" "alignof_T demo_element = 8" by (simp_all add: demo_element_def)
  have m: "try_multiply_unsigned 24 10 = \<lparr>arith_value = 240, arith_ec = NoError\<rparr>"
    "try_multiply_unsigned 3 256 = \<lparr>arith_value = 768, arith_ec = NoError\<rparr>" by code_simp+
  have c: "try_ceili 240 (alignment_in_bytes demo_hw (256 OR 8)) = Inr \<lparr>arith_value = 256, arith_ec = NoError\<rparr>" by code_simp
  have d: "0 < unat (256 :: size_t)" "unat (3 :: size_t) * unat (256 :: size_t) < 2 ^ 63" "unat (10 :: size_t) < 2 ^ 63"
    by simp_all
  have els: "row_elements 24 4096 3 10 256 = [4096, 4120, 4144, 4168, 4192] @ drop 5 (row_elements 24 4096 3 10 256)"
    by code_simp
  have len: "length (row_elements 24 4096 3 10 256) = 30" by (simp add: length_row_elements)
  have run: "construct_loop (\<lambda>k. k = 4) (row_elements 24 4096 3 10 256) (0, \<lparr>store = s, live = {}, constructions = 0\<rparr>)
      = (Inl (ElementException 4), 4, \<lparr>store = s, live = {4096, 4120, 4144, 4168}, constructions = 5\<rparr>)" for s :: heap
    by (subst els) (simp add: construct_def insert_commute)
  have down: "destroy_loop (take 4 (row_elements 24 4096 3 10 256))
      \<lparr>store = s, live = {4096, 4120, 4144, 4168}, constructions = 5\<rparr> = (Inr (), \<lparr>store = s, live = {}, constructions = 5\<rparr>)"
    for s :: heap
    by (subst els) (simp add: destroy_def)
  have d4: "destroy_constructed_rows 24 4096 3 10 256 4 \<lparr>store = s, live = {4096, 4120, 4144, 4168}, constructions = 5\<rparr>
      = (Inr (), \<lparr>store = s, live = {}, constructions = 5\<rparr>)" for s :: heap
    using destroy_constructed_rows_eq [OF d, of 4 24 4096] down [of s] by (simp add: length_row_elements)
  let ?r = "make_aligned_row_buffer False (\<lambda>k. k = 4) 77 ?alloc ?dealloc demo_hw 256 demo_element 3 10 demo_objects"
  have r: "fst ?r = Inl (ElementException 4)"
    using c [simplified] by (simp add: make_aligned_row_buffer_def T m on_store_def demo_objects_def al
        construct_aligned_row_buffer_eq [OF d] run transaction_def then_do_def d4)
  have D: "setup_hw demo_setup = demo_hw" "setup_alignment demo_setup = 256" "setup_T demo_setup = demo_element"
    by (simp_all add: demo_setup_def)
  show ?thesis
    using row_buffer_roundtrip [OF demo_setup_ok, where ?o1.0 = demo_objects and isNothrow = False
        and throws = "\<lambda>k. k = 4" and garbage = 77 and rows = 3 and cols = 10, unfolded D] r h
    by (simp add: demo_objects_def split: prod.splits sum.splits)
qed

end
