(* ===== verification/Buffer_Iterator.thy ===== *)
theory Buffer_Iterator
  imports Row_Buffer
begin

text \<open>
  The iterators of the two buffer classes (\<^verbatim>\<open>aligned_buffer_iterator\<close> and
  \<^verbatim>\<open>aligned_row_buffer_iterator\<close> of \<^verbatim>\<open>include/patton/detail/buffer.hpp\<close>, \<^verbatim>\<open>begin\<close> and \<^verbatim>\<open>end\<close> of
  \<^verbatim>\<open>include/patton/buffer.hpp\<close>). The index is a \<^verbatim>\<open>std::size_t\<close> whose arithmetic wraps; a
  \<^verbatim>\<open>difference_type\<close> is added to it modulo the word size, so it is a word here that \<^verbatim>\<open>sint\<close> reads.
\<close>

section \<open>Iterators of elements\<close>

record buffer_iterator =
  it_data :: size_t
  it_index :: size_t
  it_stride :: size_t

type_synonym ptrdiff_t = "64 word"

text \<open>\<^verbatim>\<open>std::strong_ordering\<close>, as far as integers use it.\<close>

datatype strong_ordering = IsLess | IsEqual | IsGreater

definition compare_index :: "size_t \<Rightarrow> size_t \<Rightarrow> strong_ordering" where
  "compare_index i j = (if i < j then IsLess else if i = j then IsEqual else IsGreater)"

definition it_eq :: "buffer_iterator \<Rightarrow> buffer_iterator \<Rightarrow> bool res" where
  "it_eq it rhs = (if it_data it \<noteq> it_data rhs then Inl ContractViolation else Inr (it_index it = it_index rhs))"

definition it_compare :: "buffer_iterator \<Rightarrow> buffer_iterator \<Rightarrow> strong_ordering res" where
  "it_compare it rhs =
     (if it_data it \<noteq> it_data rhs then Inl ContractViolation else Inr (compare_index (it_index it) (it_index rhs)))"

definition it_deref :: "buffer_iterator \<Rightarrow> size_t" where
  "it_deref it = it_data it + it_index it * it_stride it"

text \<open>The prefix operators; the postfix operators also return the iterator from before.\<close>

definition it_inc :: "buffer_iterator \<Rightarrow> buffer_iterator" where
  "it_inc it = it\<lparr>it_index := it_index it + 1\<rparr>"

definition it_dec :: "buffer_iterator \<Rightarrow> buffer_iterator" where
  "it_dec it = it\<lparr>it_index := it_index it - 1\<rparr>"

definition it_post_inc :: "buffer_iterator \<Rightarrow> buffer_iterator \<times> buffer_iterator" where
  "it_post_inc it = (it, it\<lparr>it_index := it_index it + 1\<rparr>)"

definition it_post_dec :: "buffer_iterator \<Rightarrow> buffer_iterator \<times> buffer_iterator" where
  "it_post_dec it = (it, it\<lparr>it_index := it_index it - 1\<rparr>)"

definition it_add :: "buffer_iterator \<Rightarrow> ptrdiff_t \<Rightarrow> buffer_iterator" where
  "it_add it d = it\<lparr>it_index := it_index it + d\<rparr>"

definition it_sub :: "buffer_iterator \<Rightarrow> ptrdiff_t \<Rightarrow> buffer_iterator" where
  "it_sub it d = it\<lparr>it_index := it_index it - d\<rparr>"

definition it_diff :: "buffer_iterator \<Rightarrow> buffer_iterator \<Rightarrow> ptrdiff_t" where
  "it_diff it rhs = it_index it - it_index rhs"

definition it_at :: "buffer_iterator \<Rightarrow> ptrdiff_t \<Rightarrow> size_t" where
  "it_at it d = it_data it + (it_index it + d) * it_stride it"

text \<open>The default constructor.\<close>

definition it_default :: buffer_iterator where
  "it_default = \<lparr>it_data = 0, it_index = 0, it_stride = 0\<rparr>"

definition buffer_begin :: "aligned_buffer \<Rightarrow> buffer_iterator" where
  "buffer_begin b = \<lparr>it_data = buf_data b, it_index = 0, it_stride = bytesPerElement b\<rparr>"

definition buffer_end :: "aligned_buffer \<Rightarrow> buffer_iterator" where
  "buffer_end b = \<lparr>it_data = buf_data b, it_index = buf_size b, it_stride = bytesPerElement b\<rparr>"

section \<open>Iterators of rows\<close>

record row_iterator = buffer_iterator +
  it_cols :: size_t

definition row_it_default :: row_iterator where
  "row_it_default = \<lparr>it_data = 0, it_index = 0, it_stride = 0, it_cols = 0\<rparr>"

definition row_it_deref :: "row_iterator \<Rightarrow> size_t \<times> size_t" where
  "row_it_deref it = (it_data it + it_index it * it_stride it, it_cols it)"

definition row_it_eq :: "row_iterator \<Rightarrow> row_iterator \<Rightarrow> bool res" where
  "row_it_eq it rhs = (if it_data it \<noteq> it_data rhs then Inl ContractViolation else Inr (it_index it = it_index rhs))"

definition row_it_compare :: "row_iterator \<Rightarrow> row_iterator \<Rightarrow> strong_ordering res" where
  "row_it_compare it rhs =
     (if it_data it \<noteq> it_data rhs then Inl ContractViolation else Inr (compare_index (it_index it) (it_index rhs)))"

definition row_it_inc :: "row_iterator \<Rightarrow> row_iterator" where
  "row_it_inc it = it\<lparr>it_index := it_index it + 1\<rparr>"

definition row_it_dec :: "row_iterator \<Rightarrow> row_iterator" where
  "row_it_dec it = it\<lparr>it_index := it_index it - 1\<rparr>"

definition row_it_post_inc :: "row_iterator \<Rightarrow> row_iterator \<times> row_iterator" where
  "row_it_post_inc it = (it, it\<lparr>it_index := it_index it + 1\<rparr>)"

definition row_it_post_dec :: "row_iterator \<Rightarrow> row_iterator \<times> row_iterator" where
  "row_it_post_dec it = (it, it\<lparr>it_index := it_index it - 1\<rparr>)"

definition row_it_add :: "row_iterator \<Rightarrow> ptrdiff_t \<Rightarrow> row_iterator" where
  "row_it_add it d = it\<lparr>it_index := it_index it + d\<rparr>"

definition row_it_sub :: "row_iterator \<Rightarrow> ptrdiff_t \<Rightarrow> row_iterator" where
  "row_it_sub it d = it\<lparr>it_index := it_index it - d\<rparr>"

definition row_it_diff :: "row_iterator \<Rightarrow> row_iterator \<Rightarrow> ptrdiff_t" where
  "row_it_diff it rhs = it_index it - it_index rhs"

definition row_it_at :: "row_iterator \<Rightarrow> ptrdiff_t \<Rightarrow> size_t \<times> size_t" where
  "row_it_at it d = (it_data it + (it_index it + d) * it_stride it, it_cols it)"

definition row_begin :: "aligned_row_buffer \<Rightarrow> row_iterator" where
  "row_begin b = \<lparr>it_data = row_data b, it_index = 0, it_stride = bytesPerRow b, it_cols = row_cols b\<rparr>"

definition row_end :: "aligned_row_buffer \<Rightarrow> row_iterator" where
  "row_end b = \<lparr>it_data = row_data b, it_index = row_rows b, it_stride = bytesPerRow b, it_cols = row_cols b\<rparr>"

section \<open>Random access, as an interface\<close>

text \<open>
  What the two iterator classes share: positions in a sequence of \<^verbatim>\<open>n\<close> items. The range-based
  \<^verbatim>\<open>for\<close> loop of the language, which may not end, is a client of the interface.
\<close>

partial_function (option) range_for ::
  "('i \<Rightarrow> 'i \<Rightarrow> bool res) \<Rightarrow> ('i \<Rightarrow> 'x) \<Rightarrow> ('i \<Rightarrow> 'i) \<Rightarrow> 'i \<Rightarrow> 'i \<Rightarrow> ('x list) res option" where
  "range_for eq deref inc it stop =
     (case eq it stop of
        Inl e \<Rightarrow> Some (Inl e)
      | Inr b \<Rightarrow>
          if b then Some (Inr [])
          else Option.bind (range_for eq deref inc (inc it) stop) (\<lambda>r. Some (res_bind r (\<lambda>xs. Inr (deref it # xs)))))"

locale random_access =
  fixes eq :: "'i \<Rightarrow> 'i \<Rightarrow> bool res" and compare :: "'i \<Rightarrow> 'i \<Rightarrow> strong_ordering res"
    and deref :: "'i \<Rightarrow> 'x" and inc dec :: "'i \<Rightarrow> 'i" and add sub :: "'i \<Rightarrow> ptrdiff_t \<Rightarrow> 'i"
    and diff :: "'i \<Rightarrow> 'i \<Rightarrow> ptrdiff_t" and at :: "'i \<Rightarrow> ptrdiff_t \<Rightarrow> 'x"
    and position :: "'b \<Rightarrow> size_t \<Rightarrow> 'i" and item :: "'b \<Rightarrow> size_t \<Rightarrow> 'x"
  assumes eq_position: "eq (position b i) (position b j) = Inr (i = j)"
    and compare_position: "compare (position b i) (position b j) = Inr (compare_index i j)"
    and deref_position: "deref (position b i) = item b i"
    and inc_position: "inc (position b i) = position b (i + 1)"
    and dec_position: "dec (position b i) = position b (i - 1)"
    and add_position: "add (position b i) d = position b (i + d)"
    and sub_position: "sub (position b i) d = position b (i - d)"
    and diff_position: "diff (position b i) (position b j) = i - j"
    and at_position: "at (position b i) d = item b (i + d)"
begin

lemmas position_simps =
  eq_position compare_position deref_position inc_position dec_position add_position sub_position diff_position at_position

text \<open>The operators are consistent with each other, wrap-around included.\<close>

lemma operators:
  "sub (add (position b i) d) d = position b i" "dec (inc (position b i)) = position b i"
  "diff (add (position b i) d) (position b i) = d" "deref (add (position b i) d) = at (position b i) d"
  "add (position b i) (diff (position b j) (position b i)) = position b j"
  by (simp_all add: position_simps)

text \<open>Within a sequence that is not larger than \<^verbatim>\<open>PTRDIFF_MAX\<close>, the difference is the distance and agrees with the order.\<close>

lemma distance:
  assumes "unat i < 2 ^ 63" "unat j < 2 ^ 63"
  shows "sint (diff (position b i) (position b j)) = int (unat i) - int (unat j)"
    "compare (position b i) (position b j) = Inr (if sint (diff (position b i) (position b j)) < 0 then IsLess
       else if sint (diff (position b i) (position b j)) = 0 then IsEqual else IsGreater)"
proof -
  have "int (unat i) < int (2 ^ 63)" "int (unat j) < int (2 ^ 63)" using assms by (simp_all only: of_nat_less_iff)
  then have b: "uint i < 2 ^ 63" "uint j < 2 ^ 63" by simp_all
  have "uint (i - j) = take_bit 64 (uint i - uint j)" by (simp add: uint_word_ariths take_bit_eq_mod)
  then have "sint (i - j) = signed_take_bit 63 (uint i - uint j)" by (simp add: sint_uint signed_take_bit_take_bit del: take_bit_minus_small_eq)
  also have "\<dots> = uint i - uint j"
    using b uint_ge_0 [of i] uint_ge_0 [of j] by (intro signed_take_bit_int_eq_self) linarith+
  finally show d: "sint (diff (position b i) (position b j)) = int (unat i) - int (unat j)"
    by (simp add: position_simps)
  show "compare (position b i) (position b j) = Inr (if sint (diff (position b i) (position b j)) < 0 then IsLess
       else if sint (diff (position b i) (position b j)) = 0 then IsEqual else IsGreater)"
    unfolding d by (auto simp: position_simps compare_index_def word_less_def word_uint_eq_iff)
qed

text \<open>The loop from one position to a later one ends and visits the items in between, in their order.\<close>

lemma range_for_positions:
  assumes "i \<le> n"
  shows "range_for eq deref inc (position b i) (position b n)
    = Some (Inr (map (\<lambda>k. item b (word_of_nat k)) [unat i..<unat n]))"
  using assms
proof (induction "unat n - unat i" arbitrary: i)
  case 0
  then have "unat i = unat n" by (simp add: word_le_nat_alt)
  then have "i = n" by (simp add: word_unat_eq_iff)
  then show ?case by (subst range_for.simps) (simp add: position_simps)
next
  case (Suc k)
  then have lt: "unat i < unat n" by simp
  then have ne: "i \<noteq> n" by auto
  have "unat n < 2 ^ 64" using unsigned_less [of n] by simp
  then have u: "unat (i + 1) = Suc (unat i)" using lt unat_add_no_wrap [of i 1] by simp
  have "range_for eq deref inc (position b (i + 1)) (position b n)
      = Some (Inr (map (\<lambda>k. item b (word_of_nat k)) [unat (i + 1)..<unat n]))"
    using Suc.hyps(2) u lt by (intro Suc.hyps(1)) (simp_all add: word_le_nat_alt)
  then show ?case
    using ne lt u by (subst range_for.simps) (simp add: position_simps upt_conv_Cons)
qed

end

definition element_position :: "aligned_buffer \<Rightarrow> size_t \<Rightarrow> buffer_iterator" where
  "element_position b i = \<lparr>it_data = buf_data b, it_index = i, it_stride = bytesPerElement b\<rparr>"

definition row_position :: "aligned_row_buffer \<Rightarrow> size_t \<Rightarrow> row_iterator" where
  "row_position b i = \<lparr>it_data = row_data b, it_index = i, it_stride = bytesPerRow b, it_cols = row_cols b\<rparr>"

lemmas it_defs = it_eq_def it_compare_def it_deref_def it_inc_def it_dec_def it_add_def it_sub_def it_diff_def it_at_def

lemmas row_it_defs = row_it_eq_def row_it_compare_def row_it_deref_def row_it_inc_def row_it_dec_def row_it_add_def
  row_it_sub_def row_it_diff_def row_it_at_def

interpretation elements_iter: random_access it_eq it_compare it_deref it_inc it_dec it_add it_sub it_diff it_at
  element_position "\<lambda>b i. buf_data b + i * bytesPerElement b"
  by unfold_locales (simp_all add: it_defs element_position_def)

interpretation rows_iter: random_access row_it_eq row_it_compare row_it_deref row_it_inc row_it_dec row_it_add row_it_sub
  row_it_diff row_it_at row_position "\<lambda>b i. (row_data b + i * bytesPerRow b, row_cols b)"
  by unfold_locales (simp_all add: row_it_defs row_position_def)

section \<open>Properties\<close>

text \<open>An empty buffer's range is that of two default iterators, and a loop over it does nothing.\<close>

lemma default_range:
  "buffer_begin empty_buffer = it_default" "buffer_end empty_buffer = it_default" "it_eq it_default it_default = Inr True"
  "row_begin empty_row_buffer = row_it_default" "row_end empty_row_buffer = row_it_default"
  "row_it_eq row_it_default row_it_default = Inr True"
  by (simp_all add: buffer_begin_def buffer_end_def empty_buffer_def it_default_def it_defs row_begin_def row_end_def
      empty_row_buffer_def row_it_default_def row_it_defs)

lemma begin_end_positions:
  "buffer_begin b = element_position b 0" "buffer_end b = element_position b (buf_size b)"
  "row_begin m = row_position m 0" "row_end m = row_position m (row_rows m)"
  by (simp_all add: buffer_begin_def buffer_end_def element_position_def row_begin_def row_end_def row_position_def)

text \<open>
  C35: A range-based \<^verbatim>\<open>for\<close> loop over a buffer or over a matrix ends, breaks no contract, and visits exactly the
  elements (or rows) that \<^verbatim>\<open>operator []\<close> gives for the indices from 0 on, in this order: the
  iterators are equivalent to access by index.
\<close>

theorem range_for_visits_all:
  "\<exists>xs ys. range_for it_eq it_deref it_inc (buffer_begin b) (buffer_end b) = Some (Inr xs)
    \<and> map Inr xs = map (\<lambda>i. buffer_at b (word_of_nat i)) [0..<unat (buf_size b)]
    \<and> range_for row_it_eq row_it_deref row_it_inc (row_begin m) (row_end m) = Some (Inr ys)
    \<and> map Inr ys = map (\<lambda>i. row_at m (word_of_nat i)) [0..<unat (row_rows m)]"
proof -
  have i: "word_of_nat k < n" if "k < unat n" for k and n :: size_t
  proof -
    have "unat n < 2 ^ 64" using unsigned_less [of n] by simp
    then show ?thesis using that by (simp add: word_less_nat_alt unat_of_nat_no_wrap)
  qed
  show ?thesis
    using elements_iter.range_for_positions [of 0 "buf_size b" b] rows_iter.range_for_positions [of 0 "row_rows m" m] i
    by (simp add: begin_end_positions buffer_at_def row_at_def)
qed

text \<open>
  The random access operators of both iterators agree: adding a difference and subtracting it again gives
  the iterator back, the difference of two positions is their distance and adding it leads from one to
  the other, and for positions within \<^verbatim>\<open>PTRDIFF_MAX\<close> the three-way comparison is the sign of the
  distance.
\<close>

theorem iterators_random_access:
  assumes "unat i < 2 ^ 63" "unat j < 2 ^ 63"
    and "x = it_add (buffer_begin b) i" "y = it_add (buffer_begin b) j"
    and "u = row_it_add (row_begin m) i" "v = row_it_add (row_begin m) j"
  shows "it_sub (it_add x d) d = x \<and> it_add x (it_diff y x) = y \<and> it_deref (it_add x d) = it_at x d
    \<and> sint (it_diff x y) = int (unat i) - int (unat j)
    \<and> it_compare x y = Inr (if sint (it_diff x y) < 0 then IsLess else if sint (it_diff x y) = 0 then IsEqual else IsGreater)
    \<and> row_it_sub (row_it_add u d) d = u \<and> row_it_add u (row_it_diff v u) = v \<and> row_it_deref (row_it_add u d) = row_it_at u d
    \<and> sint (row_it_diff u v) = int (unat i) - int (unat j)
    \<and> row_it_compare u v
        = Inr (if sint (row_it_diff u v) < 0 then IsLess else if sint (row_it_diff u v) = 0 then IsEqual else IsGreater)"
proof -
  have "x = element_position b i" "y = element_position b j" "u = row_position m i" "v = row_position m j"
    by (simp_all add: assms(3-6) begin_end_positions elements_iter.add_position rows_iter.add_position)
  then show ?thesis
    using elements_iter.operators elements_iter.distance [OF assms(1,2)] rows_iter.operators rows_iter.distance [OF assms(1,2)]
    by simp
qed

lemma iterators_random_access_witness:
  "it_compare (it_add (buffer_begin empty_buffer) 2) (it_add (buffer_begin empty_buffer) 7) = Inr IsLess"
  using iterators_random_access [OF _ _ refl refl refl refl, of 2 7 empty_buffer] by simp

end
