(* ===== verification/Hardware_Info.thy ===== *)
theory Hardware_Info
  imports Text_Scan Alignment
begin

text \<open>
  The sizes that the operating system reports (\<^verbatim>\<open>src/src/new.cpp\<close>, the Linux branches): each is
  computed on first use and cached in an atomic by \<^verbatim>\<open>lazy_init\<close>
  (\<^verbatim>\<open>src/include/patton/detail/lazy-init.hpp\<close>). The answers of the operating system are parameters.
\<close>

section \<open>Lazy initialisation\<close>

text \<open>
  \<^verbatim>\<open>lazy_init(value, defaultValue, initFunc)\<close> on a state that \<^verbatim>\<open>load\<close> and \<^verbatim>\<open>store\<close> access the atomic in;
  \<^verbatim>\<open>initFunc\<close> may change other parts of the state.
\<close>

definition lazy_init ::
  "('s \<Rightarrow> size_t) \<Rightarrow> (size_t \<Rightarrow> 's \<Rightarrow> 's) \<Rightarrow> size_t \<Rightarrow> ('s \<Rightarrow> (size_t \<times> 's) res) \<Rightarrow> 's \<Rightarrow> (size_t \<times> 's) res" where
  "lazy_init load store_value defaultValue initFunc s =
     (let result = load s in
      if result = defaultValue
      then res_bind (initFunc s) (\<lambda>(result', s'). Inr (result', store_value result' s'))
      else Inr (result, s))"

lemma noexcept_simps [simp]:
  "noexcept (Inr x) = Inr x" "noexcept (Inl Terminated) = Inl Terminated"
  "noexcept (Inl UndefinedBehaviour) = Inl UndefinedBehaviour"
  "noexcept (Inl ContractViolation) = Inl ContractViolation"
  "noexcept (noexcept r) = noexcept r"
  by (auto simp: noexcept_def split: sum.split failure.split)

lemma noexcept_Inr_iff [simp]: "noexcept r = Inr x \<longleftrightarrow> r = Inr x"
  by (auto simp: noexcept_def split: sum.splits failure.splits)

lemma noexcept_bind:
  "noexcept (res_bind r f) = res_bind (noexcept r) (\<lambda>x. noexcept (f x))"
  by (auto simp: noexcept_def res_bind_def split: sum.splits failure.splits)

text \<open>
  The answer of a call: a value, and a state that is consistent still; or a failure.
\<close>

definition answers :: "('s \<Rightarrow> bool) \<Rightarrow> size_t res \<Rightarrow> (size_t \<times> 's) res \<Rightarrow> bool" where
  "answers ok r x = (case x of Inl e \<Rightarrow> r = Inl e | Inr (v, s') \<Rightarrow> r = Inr v \<and> ok s')"

text \<open>
  What \<^verbatim>\<open>lazy_init\<close> needs of its arguments: a value that is determined (\<^verbatim>\<open>outcome\<close>), a consistency
  of the state that says so of a cached value, and an \<^verbatim>\<open>initFunc\<close> that computes it. Then every call
  answers the value, whether it is cached or not.
\<close>

locale lazy_value =
  fixes ok :: "'s \<Rightarrow> bool"
    and load :: "'s \<Rightarrow> size_t"
    and store_value :: "size_t \<Rightarrow> 's \<Rightarrow> 's"
    and initFunc :: "'s \<Rightarrow> (size_t \<times> 's) res"
    and outcome :: "size_t res"
  assumes cached: "ok s \<Longrightarrow> load s \<noteq> - 1 \<Longrightarrow> outcome = Inr (load s)"
    and computed: "ok s \<Longrightarrow> answers ok outcome (noexcept (initFunc s))"
    and stored: "ok s \<Longrightarrow> outcome = Inr v \<Longrightarrow> ok (store_value v s)"
begin

lemma lazy_answers:
  assumes "ok s"
  shows "answers ok outcome (noexcept (lazy_init load store_value (- 1) initFunc s))"
proof (cases "load s = - 1")
  case True
  show ?thesis
  proof (cases "initFunc s")
    case (Inl e)
    then show ?thesis using computed [OF assms] True by (simp add: lazy_init_def)
  next
    case (Inr x)
    then show ?thesis using computed [OF assms] stored True
      by (cases x) (simp add: lazy_init_def answers_def)
  qed
next
  case False
  then show ?thesis using cached [OF assms] assms by (simp add: lazy_init_def answers_def)
qed

end

section \<open>The sizes\<close>

text \<open>
  What the operating system answers: the two calls of \<^verbatim>\<open>sysconf\<close> (values of type \<^verbatim>\<open>long\<close>), and the
  contents of the two files, or nothing if a file cannot be opened.
\<close>

record system_info =
  sysconf_pagesize :: int
  sysconf_cache_line :: int
  coherency_line_size :: "string option"
  proc_meminfo :: "string option"

record size_cache =
  hardware_large_page_size_value :: size_t
  hardware_page_size_value :: size_t
  hardware_cache_line_size_value :: size_t

definition no_sizes :: size_cache where
  "no_sizes = \<lparr>hardware_large_page_size_value = - 1, hardware_page_size_value = - 1,
     hardware_cache_line_size_value = - 1\<rparr>"

text \<open>\<^verbatim>\<open>gsl::narrow\<close> from \<^verbatim>\<open>long\<close> to \<^verbatim>\<open>std::size_t\<close>, which throws.\<close>

definition narrow_long :: "int \<Rightarrow> size_t res" where
  "narrow_long x = (if x < 0 then Inl RuntimeError else Inr (word_of_int x))"

text \<open>\<^verbatim>\<open>x % y != 0\<close> with its \<^verbatim>\<open>gsl_FailFast\<close>; a remainder by 0 is undefined behaviour.\<close>

definition require_multiple :: "size_t \<Rightarrow> size_t \<Rightarrow> size_t res" where
  "require_multiple x y =
     (if y = 0 then Inl UndefinedBehaviour else if x mod y \<noteq> 0 then Inl ContractViolation else Inr x)"

definition read_cache_line_size :: "system_info \<Rightarrow> size_t res" where
  "read_cache_line_size os =
     (if sysconf_cache_line os > 0 then narrow_long (sysconf_cache_line os)
      else case coherency_line_size os of
          None \<Rightarrow> Inl RuntimeError
        | Some f \<Rightarrow> res_bind (scan_signed 64 f) (\<lambda>x.
            case x of
              None \<Rightarrow> Inl RuntimeError
            | Some (v, _) \<Rightarrow> if v = 0 then Inl RuntimeError else narrow_long v))"

definition hardware_cache_line_size :: "system_info \<Rightarrow> size_cache \<Rightarrow> (size_t \<times> size_cache) res" where
  "hardware_cache_line_size os s = noexcept
     (lazy_init hardware_cache_line_size_value (\<lambda>v. hardware_cache_line_size_value_update (\<lambda>_. v)) (- 1)
       (\<lambda>s. res_bind (read_cache_line_size os) (\<lambda>result. Inr (result, s))) s)"

definition hardware_page_size :: "system_info \<Rightarrow> size_cache \<Rightarrow> (size_t \<times> size_cache) res" where
  "hardware_page_size os s = noexcept
     (lazy_init hardware_page_size_value (\<lambda>v. hardware_page_size_value_update (\<lambda>_. v)) (- 1)
       (\<lambda>s. let result = word_of_int (sysconf_pagesize os) in
            res_bind (hardware_cache_line_size os s) (\<lambda>(c, s').
            res_bind (require_multiple result c) (\<lambda>r. Inr (r, s')))) s)"

text \<open>The loop over the lines of \<^verbatim>\<open>/proc/meminfo\<close>; 0 if no line has the entry.\<close>

fun find_hugepagesize :: "string list \<Rightarrow> size_t res" where
  "find_hugepagesize [] = Inr 0"
| "find_hugepagesize (line # ls) =
     res_bind (sscanf_long_word ''Hugepagesize : '' line) (\<lambda>x.
     case x of
       None \<Rightarrow> find_hugepagesize ls
     | Some (hugePageSize, unit) \<Rightarrow>
         if unit = ''kB'' then
           (if - (2 ^ 63) \<le> hugePageSize * 1024 \<and> hugePageSize * 1024 < 2 ^ 63
            then narrow_long (hugePageSize * 1024) else Inl UndefinedBehaviour)
         else Inl RuntimeError)"

definition read_large_page_size :: "system_info \<Rightarrow> size_t res" where
  "read_large_page_size os =
     (case proc_meminfo os of None \<Rightarrow> Inl RuntimeError | Some f \<Rightarrow> find_hugepagesize (getlines f))"

definition hardware_large_page_size :: "system_info \<Rightarrow> size_cache \<Rightarrow> (size_t \<times> size_cache) res" where
  "hardware_large_page_size os s = noexcept
     (lazy_init hardware_large_page_size_value (\<lambda>v. hardware_large_page_size_value_update (\<lambda>_. v)) (- 1)
       (\<lambda>s. res_bind (read_large_page_size os) (\<lambda>result.
            res_bind (hardware_page_size os s) (\<lambda>(p, s').
            res_bind (require_multiple result p) (\<lambda>r. Inr (r, s'))))) s)"

section \<open>The sizes as functions of the system\<close>

text \<open>What the three functions answer, whether they have been called before or not.\<close>

definition cache_line_size_of :: "system_info \<Rightarrow> size_t res" where
  "cache_line_size_of os = noexcept (read_cache_line_size os)"

definition page_size_of :: "system_info \<Rightarrow> size_t res" where
  "page_size_of os = res_bind (cache_line_size_of os) (require_multiple (word_of_int (sysconf_pagesize os)))"

definition large_page_size_of :: "system_info \<Rightarrow> size_t res" where
  "large_page_size_of os = res_bind (noexcept (read_large_page_size os)) (\<lambda>r.
     res_bind (page_size_of os) (require_multiple r))"

definition cache_ok :: "system_info \<Rightarrow> size_cache \<Rightarrow> bool" where
  "cache_ok os s \<longleftrightarrow>
     (hardware_large_page_size_value s \<noteq> - 1 \<longrightarrow> large_page_size_of os = Inr (hardware_large_page_size_value s))
   \<and> (hardware_page_size_value s \<noteq> - 1 \<longrightarrow> page_size_of os = Inr (hardware_page_size_value s))
   \<and> (hardware_cache_line_size_value s \<noteq> - 1 \<longrightarrow> cache_line_size_of os = Inr (hardware_cache_line_size_value s))"

lemma noexcept_require [simp]: "noexcept (require_multiple x y) = require_multiple x y"
  by (simp add: require_multiple_def)

text \<open>
  The three functions are interpretations. The page size needs the cache line size, and the large
  page size the page size.
\<close>

lemma answers_bind:
  assumes "answers ok r x" "\<And>v s. ok s \<Longrightarrow> answers ok (f v) (F v s)"
  shows "answers ok (res_bind r f) (res_bind x (\<lambda>(v, s). F v s))"
proof (cases x)
  case (Inl e)
  then show ?thesis using assms(1) by (simp add: answers_def)
next
  case (Inr y)
  obtain v s where y: "y = (v, s)" by (cases y)
  then have r: "r = Inr v" "ok s" using assms(1) Inr by (simp_all add: answers_def)
  show ?thesis using assms(2) [OF r(2), of v] by (simp add: Inr y r(1))
qed

interpretation cache_line: lazy_value "cache_ok os" hardware_cache_line_size_value
    "\<lambda>v. hardware_cache_line_size_value_update (\<lambda>_. v)"
    "\<lambda>s. res_bind (read_cache_line_size os) (\<lambda>result. Inr (result, s))" "cache_line_size_of os" for os
proof
  fix s assume "cache_ok os s"
  then show "answers (cache_ok os) (cache_line_size_of os)
      (noexcept (res_bind (read_cache_line_size os) (\<lambda>result. Inr (result, s))))"
    by (cases "read_cache_line_size os")
      (simp_all add: cache_line_size_of_def answers_def noexcept_def split: sum.splits failure.splits)
qed (simp_all add: cache_ok_def)

lemma cache_line_answers:
  "cache_ok os s \<Longrightarrow> answers (cache_ok os) (cache_line_size_of os) (hardware_cache_line_size os s)"
  unfolding hardware_cache_line_size_def by (rule cache_line.lazy_answers)

lemma noexcept_cache_line [simp]: "noexcept (hardware_cache_line_size os s) = hardware_cache_line_size os s"
  by (simp add: hardware_cache_line_size_def)

lemma require_answers:
  "ok s \<Longrightarrow> answers ok (require_multiple x y) (res_bind (require_multiple x y) (\<lambda>r. Inr (r, s)))"
  by (cases "require_multiple x y") (simp_all add: answers_def)

interpretation page: lazy_value "cache_ok os" hardware_page_size_value
    "\<lambda>v. hardware_page_size_value_update (\<lambda>_. v)"
    "\<lambda>s. let result = word_of_int (sysconf_pagesize os) in
         res_bind (hardware_cache_line_size os s) (\<lambda>(c, s').
         res_bind (require_multiple result c) (\<lambda>r. Inr (r, s')))" "page_size_of os" for os
proof
  fix s assume "cache_ok os s"
  then have "answers (cache_ok os) (page_size_of os) (res_bind (hardware_cache_line_size os s) (\<lambda>(c, s').
      res_bind (require_multiple (word_of_int (sysconf_pagesize os)) c) (\<lambda>r. Inr (r, s'))))"
    unfolding page_size_of_def by (intro answers_bind cache_line_answers require_answers)
  then show "answers (cache_ok os) (page_size_of os) (noexcept (let result = word_of_int (sysconf_pagesize os) in
         res_bind (hardware_cache_line_size os s) (\<lambda>(c, s').
         res_bind (require_multiple result c) (\<lambda>r. Inr (r, s')))))"
    by (simp add: noexcept_bind split_def)
qed (simp_all add: cache_ok_def)

lemma page_answers:
  "cache_ok os s \<Longrightarrow> answers (cache_ok os) (page_size_of os) (hardware_page_size os s)"
  unfolding hardware_page_size_def by (rule page.lazy_answers)

lemma noexcept_page [simp]: "noexcept (hardware_page_size os s) = hardware_page_size os s"
  by (simp add: hardware_page_size_def)

interpretation large_page: lazy_value "cache_ok os" hardware_large_page_size_value
    "\<lambda>v. hardware_large_page_size_value_update (\<lambda>_. v)"
    "\<lambda>s. res_bind (read_large_page_size os) (\<lambda>result.
         res_bind (hardware_page_size os s) (\<lambda>(p, s').
         res_bind (require_multiple result p) (\<lambda>r. Inr (r, s'))))" "large_page_size_of os" for os
proof
  fix s assume s: "cache_ok os s"
  have "answers (cache_ok os) (res_bind (page_size_of os) (require_multiple result))
      (res_bind (hardware_page_size os s) (\<lambda>(p, s'). res_bind (require_multiple result p) (\<lambda>r. Inr (r, s'))))" for result
    by (intro answers_bind page_answers require_answers s)
  then show "answers (cache_ok os) (large_page_size_of os) (noexcept (res_bind (read_large_page_size os) (\<lambda>result.
         res_bind (hardware_page_size os s) (\<lambda>(p, s').
         res_bind (require_multiple result p) (\<lambda>r. Inr (r, s'))))))"
    by (cases "noexcept (read_large_page_size os)")
      (simp_all add: large_page_size_of_def noexcept_bind split_def answers_def [of _ "Inl _"])
qed (simp_all add: cache_ok_def)

lemma large_page_answers:
  "cache_ok os s \<Longrightarrow> answers (cache_ok os) (large_page_size_of os) (hardware_large_page_size os s)"
  unfolding hardware_large_page_size_def by (rule large_page.lazy_answers)

section \<open>Sequences of calls\<close>

datatype size_query = LargePageSize | PageSize | CacheLineSize

definition query :: "system_info \<Rightarrow> size_query \<Rightarrow> size_cache \<Rightarrow> (size_t \<times> size_cache) res" where
  "query os q = (case q of
     LargePageSize \<Rightarrow> hardware_large_page_size os
   | PageSize \<Rightarrow> hardware_page_size os
   | CacheLineSize \<Rightarrow> hardware_cache_line_size os)"

fun queries :: "system_info \<Rightarrow> size_query list \<Rightarrow> size_cache \<Rightarrow> (size_t list \<times> size_cache) res" where
  "queries os [] s = Inr ([], s)"
| "queries os (q # qs) s =
     res_bind (query os q s) (\<lambda>(v, s'). res_bind (queries os qs s') (\<lambda>(vs, s''). Inr (v # vs, s'')))"

definition size_of_query :: "system_info \<Rightarrow> size_query \<Rightarrow> size_t res" where
  "size_of_query os q = (case q of
     LargePageSize \<Rightarrow> large_page_size_of os
   | PageSize \<Rightarrow> page_size_of os
   | CacheLineSize \<Rightarrow> cache_line_size_of os)"

lemma query_answers: "cache_ok os s \<Longrightarrow> answers (cache_ok os) (size_of_query os q) (query os q s)"
  by (cases q) (simp_all add: query_def size_of_query_def cache_line_answers page_answers large_page_answers)

lemma queries_answers:
  "queries os qs s = Inr (vs, s') \<Longrightarrow> cache_ok os s \<Longrightarrow> list_all2 (\<lambda>q v. size_of_query os q = Inr v) qs vs"
proof (induction qs arbitrary: s vs)
  case (Cons q qs)
  then obtain v t ws where q: "query os q s = Inr (v, t)" and qs: "queries os qs t = Inr (ws, s')" "vs = v # ws"
    by (auto simp: res_bind_Inr_iff)
  have "size_of_query os q = Inr v" "cache_ok os t"
    using query_answers [OF Cons.prems(2), of q] q by (simp_all add: answers_def)
  then show ?case using Cons.IH [OF qs(1)] qs(2) by simp
qed simp

lemma require_multiple_Inr:
  assumes "require_multiple x y = Inr r"
  shows "r = x" "y \<noteq> 0" "unat y dvd unat x"
proof -
  show r: "r = x" "y \<noteq> 0" using assms by (auto simp: require_multiple_def split: if_splits)
  have "x mod y = 0" using assms by (auto simp: require_multiple_def split: if_splits)
  then have "unat x mod unat y = 0" by (metis unat_mod_distrib unat_0)
  then show "unat y dvd unat x" by (simp add: dvd_eq_mod_eq_0)
qed

lemma large_page_size_multiples:
  assumes "large_page_size_of os = Inr l"
  shows "\<exists>c p. cache_line_size_of os = Inr c \<and> page_size_of os = Inr p \<and> c \<noteq> 0 \<and> p \<noteq> 0
    \<and> unat c dvd unat p \<and> unat p dvd unat l"
proof -
  obtain r p where p: "page_size_of os = Inr p" "require_multiple r p = Inr l"
    using assms by (auto simp: large_page_size_of_def res_bind_Inr_iff)
  obtain c where c: "cache_line_size_of os = Inr c"
      "require_multiple (word_of_int (sysconf_pagesize os)) c = Inr p"
    using p(1) by (auto simp: page_size_of_def res_bind_Inr_iff)
  then show ?thesis using p require_multiple_Inr by blast
qed

text \<open>
  C19: However often and in whatever order the three sizes are asked for, the answers are what the
  system determines, the same every time. When the large page size is among them, it is a
  multiple of the page size and this of the cache line size, and the sizes are consistent as the
  decisions about alignments require.
\<close>

theorem hardware_sizes_consistent:
  assumes "queries os qs no_sizes = Inr (vs, s)"
  shows "list_all2 (\<lambda>q v. size_of_query os q = Inr v) qs vs
    \<and> (LargePageSize \<in> set qs \<longrightarrow> (\<exists>l p c. size_of_query os LargePageSize = Inr l \<and> size_of_query os PageSize = Inr p
        \<and> size_of_query os CacheLineSize = Inr c \<and> unat c dvd unat p \<and> unat p dvd unat l
        \<and> (hw_in_range \<lparr>hw_large_page_size = l, hw_page_size = p, hw_cache_line_size = c\<rparr> \<longrightarrow>
            hw_consistent c \<lparr>hw_large_page_size = l, hw_page_size = p, hw_cache_line_size = c\<rparr>)))"
proof
  have "cache_ok os no_sizes" by (simp add: cache_ok_def no_sizes_def)
  then show all: "list_all2 (\<lambda>q v. size_of_query os q = Inr v) qs vs" by (rule queries_answers [OF assms])
  show "LargePageSize \<in> set qs \<longrightarrow> (\<exists>l p c. size_of_query os LargePageSize = Inr l \<and> size_of_query os PageSize = Inr p
        \<and> size_of_query os CacheLineSize = Inr c \<and> unat c dvd unat p \<and> unat p dvd unat l
        \<and> (hw_in_range \<lparr>hw_large_page_size = l, hw_page_size = p, hw_cache_line_size = c\<rparr> \<longrightarrow>
            hw_consistent c \<lparr>hw_large_page_size = l, hw_page_size = p, hw_cache_line_size = c\<rparr>))"
  proof
    assume "LargePageSize \<in> set qs"
    then obtain l where l: "large_page_size_of os = Inr l"
      using all by (fastforce simp: in_set_conv_nth list_all2_conv_all_nth size_of_query_def)
    then obtain p c where pc: "page_size_of os = Inr p" "cache_line_size_of os = Inr c" "p \<noteq> 0"
        "unat c dvd unat p" "unat p dvd unat l"
      using large_page_size_multiples by blast
    have "unat c \<le> unat p" using pc(3,4) by (intro dvd_imp_le) (auto simp: unat_gt_0)
    then have "c \<le> p" by (simp add: word_le_nat_alt)
    then show "\<exists>l p c. size_of_query os LargePageSize = Inr l \<and> size_of_query os PageSize = Inr p
        \<and> size_of_query os CacheLineSize = Inr c \<and> unat c dvd unat p \<and> unat p dvd unat l
        \<and> (hw_in_range \<lparr>hw_large_page_size = l, hw_page_size = p, hw_cache_line_size = c\<rparr> \<longrightarrow>
            hw_consistent c \<lparr>hw_large_page_size = l, hw_page_size = p, hw_cache_line_size = c\<rparr>)"
      using l pc by (intro exI [of _ l] exI [of _ p] exI [of _ c]) (simp add: size_of_query_def hw_consistent_def)
  qed
qed

text \<open>A machine with pages of 4 KiB and large pages of 2 MiB.\<close>

definition usual_system :: system_info where
  "usual_system = \<lparr>sysconf_pagesize = 4096, sysconf_cache_line = 0,
     coherency_line_size = Some (''64'' @ [CHR 0x0A]),
     proc_meminfo = Some (unlines [''MemTotal:        8000000 kB'', ''Hugepagesize:       2048 kB''])\<rparr>"

lemma usual_sizes:
  "map_sum id fst (queries usual_system [PageSize, LargePageSize, CacheLineSize, LargePageSize] no_sizes)
    = Inr [4096, 2097152, 64, 2097152]"
  by code_simp

lemma hardware_sizes_consistent_witness:
  "\<exists>l p c. size_of_query usual_system LargePageSize = Inr l \<and> size_of_query usual_system PageSize = Inr p
    \<and> size_of_query usual_system CacheLineSize = Inr c \<and> unat c dvd unat p \<and> unat p dvd unat l"
proof -
  obtain s where "queries usual_system [PageSize, LargePageSize, CacheLineSize, LargePageSize] no_sizes
      = Inr ([4096, 2097152, 64, 2097152], s)"
    using usual_sizes
    by (cases "queries usual_system [PageSize, LargePageSize, CacheLineSize, LargePageSize] no_sizes") auto
  then show ?thesis using hardware_sizes_consistent by fastforce
qed

end
