(* ===== verification/Cpu_Cache.thy ===== *)
theory Cpu_Cache
  imports Cpu_Info
begin

text \<open>
  The cached information about the machine's cores (\<^verbatim>\<open>src/src/cpuinfo.cpp\<close>): \<^verbatim>\<open>cpu_info_value\<close>, its
  initialisation on first use, and the functions \<^verbatim>\<open>physical_concurrency()\<close> and
  \<^verbatim>\<open>physical_core_ids()\<close> that any number of threads call. A step is one access to an atomic.

  The loads and stores are relaxed, so that a load may see an old value. For each atomic the state
  has the stores in their modification order, and for each call how far the calling thread's view
  of it has come: a load sees any store that is not older than the view, which moves up to it
  (\<^verbatim>\<open>allowed\<close>). Interleavings in which each load sees the newest store are among these executions
  (\<^verbatim>\<open>info_reachable\<close>, \<^verbatim>\<open>sequential_relaxed\<close>). A load never sees a store of its own future, as a call
  stores only after a load has told it that nobody has initialised yet.
\<close>

section \<open>State\<close>

datatype info_call = ConcurrencyCall | CoreIdsCall

text \<open>
  Where a call is. Pointers to the elements of a vector are numbers of buffers; the argument \<^verbatim>\<open>b\<close>
  is the buffer of the local variable \<^verbatim>\<open>coreThreadIds\<close>.
\<close>

datatype info_point =
    NotCalled
  | LoadConcurrency            \<comment> \<open>the first load of \<^verbatim>\<open>physical_concurrency\<close>\<close>
  | LoadPtr int                \<comment> \<open>the first load of \<^verbatim>\<open>core_thread_ids_ptr\<close>\<close>
  | InitLoad                   \<comment> \<open>in \<^verbatim>\<open>init_cpu_info()\<close>: its load of \<^verbatim>\<open>physical_concurrency\<close>\<close>
  | StoreConcurrency nat       \<comment> \<open>in \<^verbatim>\<open>initFunc\<close>: before the store of \<^verbatim>\<open>physical_concurrency\<close>\<close>
  | ExchangePtr nat            \<comment> \<open>before \<^verbatim>\<open>compare_exchange_strong\<close>\<close>
  | MoveIds nat                \<comment> \<open>before the move assignment to \<^verbatim>\<open>core_thread_ids\<close>\<close>
  | DropIds nat                \<comment> \<open>before the destruction of the local vector\<close>
  | ReloadConcurrency
  | ReloadPtr int
  | Returned int "nat option"  \<comment> \<open>the size and the pointer of the span, or the concurrency alone\<close>

text \<open>
  The stores to \<^verbatim>\<open>physical_concurrency\<close> are numbered in their modification order, with gaps, as a store
  may come before one that was made earlier; number 0 is the initial value. The pointer is only
  changed by exchanges, each of which follows the store whose value it has read, so that its
  stores form a list.
\<close>

record info_state =
  physical_concurrency_stores :: "nat \<Rightarrow> int option"
  newest_store :: nat
  core_thread_ids_ptr :: "nat option list"
  core_thread_ids :: "nat option"      \<comment> \<open>the buffer that the global vector owns\<close>
  buffers :: "nat \<Rightarrow> int list option"  \<comment> \<open>the live buffers of vectors\<close>
  next_buffer :: nat
  at_call :: "nat \<Rightarrow> info_point"       \<comment> \<open>of every call, by number\<close>
  concurrency_view :: "nat \<Rightarrow> nat"     \<comment> \<open>of the thread that makes the call\<close>
  ptr_view :: "nat \<Rightarrow> nat"

definition info_start :: info_state where
  "info_start = \<lparr>physical_concurrency_stores = [0 \<mapsto> 0], newest_store = 0, core_thread_ids_ptr = [None],
     core_thread_ids = None, buffers = (\<lambda>_. None), next_buffer = 0, at_call = (\<lambda>_. NotCalled),
     concurrency_view = (\<lambda>_. 0), ptr_view = (\<lambda>_. 0)\<rparr>"

definition go :: "nat \<Rightarrow> info_point \<Rightarrow> info_state \<Rightarrow> info_state" where
  "go k l s = s\<lparr>at_call := (at_call s)(k := l)\<rparr>"

text \<open>The views after an access to the store number \<^verbatim>\<open>t\<close>, and what a load reads there.\<close>

definition see_concurrency :: "nat \<Rightarrow> nat \<Rightarrow> info_state \<Rightarrow> info_state" where
  "see_concurrency k t s = s\<lparr>concurrency_view := (concurrency_view s)(k := t)\<rparr>"

definition see_ptr :: "nat \<Rightarrow> nat \<Rightarrow> info_state \<Rightarrow> info_state" where
  "see_ptr k t s = s\<lparr>ptr_view := (ptr_view s)(k := t)\<rparr>"

definition load_concurrency :: "info_state \<Rightarrow> nat \<Rightarrow> int" where
  "load_concurrency s t = (case physical_concurrency_stores s t of None \<Rightarrow> 0 | Some n \<Rightarrow> n)"

section \<open>Steps\<close>

text \<open>
  \<^verbatim>\<open>initFunc\<close>, its computation: a local vector with the processors of the physical cores.
\<close>

definition init_compute :: "int list res \<Rightarrow> nat \<Rightarrow> info_state \<Rightarrow> info_state res" where
  "init_compute info k s = res_bind info (\<lambda>ps.
     Inr (go k (StoreConcurrency (next_buffer s))
       (s\<lparr>buffers := (buffers s)(next_buffer s \<mapsto> ps), next_buffer := next_buffer s + 1\<rparr>)))"

text \<open>\<^verbatim>\<open>coreThreadIds.data()\<close>: null for a vector without elements.\<close>

definition data_pointer :: "info_state \<Rightarrow> nat \<Rightarrow> nat option" where
  "data_pointer s b = (if buffers s b = Some [] then None else Some b)"

definition store_concurrency :: "nat \<Rightarrow> nat \<Rightarrow> nat \<Rightarrow> info_state \<Rightarrow> info_state res" where
  "store_concurrency k t b s =
     (case buffers s b of
        None \<Rightarrow> Inl UndefinedBehaviour
      | Some ps \<Rightarrow> Inr (go k (ExchangePtr b) (see_concurrency k t
          (s\<lparr>physical_concurrency_stores := (physical_concurrency_stores s)(t \<mapsto> int (length ps)),
             newest_store := max t (newest_store s)\<rparr>))))"

text \<open>The exchange reads the store \<^verbatim>\<open>t\<close>; if it succeeds, its own store follows that one.\<close>

definition exchange_ptr :: "nat \<Rightarrow> nat \<Rightarrow> nat \<Rightarrow> info_state \<Rightarrow> info_state res" where
  "exchange_ptr k t b s =
     (if core_thread_ids_ptr s ! t = None
      then Inr (go k (MoveIds b) (see_ptr k (length (core_thread_ids_ptr s))
        (s\<lparr>core_thread_ids_ptr := core_thread_ids_ptr s @ [data_pointer s b]\<rparr>)))
      else Inr (go k (DropIds b) (see_ptr k t s)))"

text \<open>The move assignment frees what the global vector owned, and passes the local buffer on.\<close>

definition move_ids :: "nat \<Rightarrow> nat \<Rightarrow> info_state \<Rightarrow> info_state res" where
  "move_ids k b s = Inr (go k ReloadConcurrency
     (s\<lparr>buffers := (case core_thread_ids s of None \<Rightarrow> buffers s | Some a \<Rightarrow> (buffers s)(a := None)),
        core_thread_ids := Some b\<rparr>))"

text \<open>
  The stores that the next step of call number \<^verbatim>\<open>k\<close> may see or, for a store, the numbers that it may
  get. An exchange that succeeds sees the last store, as all stores but the first are exchanges.
\<close>

definition allowed :: "nat \<Rightarrow> nat \<Rightarrow> info_state \<Rightarrow> bool" where
  "allowed k t s \<longleftrightarrow>
     (case at_call s k of
        LoadConcurrency \<Rightarrow> concurrency_view s k \<le> t \<and> physical_concurrency_stores s t \<noteq> None
      | InitLoad \<Rightarrow> concurrency_view s k \<le> t \<and> physical_concurrency_stores s t \<noteq> None
      | ReloadConcurrency \<Rightarrow> concurrency_view s k \<le> t \<and> physical_concurrency_stores s t \<noteq> None
      | StoreConcurrency b \<Rightarrow> concurrency_view s k < t \<and> physical_concurrency_stores s t = None
      | LoadPtr n \<Rightarrow> ptr_view s k \<le> t \<and> t < length (core_thread_ids_ptr s)
      | ReloadPtr n \<Rightarrow> ptr_view s k \<le> t \<and> t < length (core_thread_ids_ptr s)
      | ExchangePtr b \<Rightarrow> ptr_view s k \<le> t \<and> t < length (core_thread_ids_ptr s)
          \<and> (core_thread_ids_ptr s ! t = None \<longrightarrow> t = length (core_thread_ids_ptr s) - 1)
      | _ \<Rightarrow> True)"

text \<open>One step of call number \<^verbatim>\<open>k\<close>, which sees or makes the store number \<^verbatim>\<open>t\<close>.\<close>

definition info_step :: "int list res \<Rightarrow> (nat \<Rightarrow> info_call) \<Rightarrow> nat \<Rightarrow> nat \<Rightarrow> info_state \<Rightarrow> info_state res" where
  "info_step info calls k t s =
     (case at_call s k of
        NotCalled \<Rightarrow> Inr (go k LoadConcurrency s)
      | LoadConcurrency \<Rightarrow>
          let n = load_concurrency s t in
          (case calls k of
             ConcurrencyCall \<Rightarrow> Inr (go k (if n = 0 then InitLoad else Returned n None) (see_concurrency k t s))
           | CoreIdsCall \<Rightarrow> Inr (go k (LoadPtr n) (see_concurrency k t s)))
      | LoadPtr n \<Rightarrow>
          let p = core_thread_ids_ptr s ! t in
          Inr (go k (if n = 0 \<or> p = None then InitLoad else Returned n p) (see_ptr k t s))
      | InitLoad \<Rightarrow>
          if load_concurrency s t = 0 then init_compute info k (see_concurrency k t s)
          else Inr (go k ReloadConcurrency (see_concurrency k t s))
      | StoreConcurrency b \<Rightarrow> store_concurrency k t b s
      | ExchangePtr b \<Rightarrow> exchange_ptr k t b s
      | MoveIds b \<Rightarrow> move_ids k b s
      | DropIds b \<Rightarrow> Inr (go k ReloadConcurrency (s\<lparr>buffers := (buffers s)(b := None)\<rparr>))
      | ReloadConcurrency \<Rightarrow>
          let n = load_concurrency s t in
          (case calls k of
             ConcurrencyCall \<Rightarrow> Inr (go k (Returned n None) (see_concurrency k t s))
           | CoreIdsCall \<Rightarrow> Inr (go k (ReloadPtr n) (see_concurrency k t s)))
      | ReloadPtr n \<Rightarrow> Inr (go k (Returned n (core_thread_ids_ptr s ! t)) (see_ptr k t s))
      | Returned n p \<Rightarrow> Inr s)"

text \<open>
  The executions that the relaxed atomics allow: a call makes an allowed step, or the view of its
  thread moves up, as the thread synchronizes with another one elsewhere.
\<close>

inductive relaxed_step :: "int list res \<Rightarrow> (nat \<Rightarrow> info_call) \<Rightarrow> info_state \<Rightarrow> info_state \<Rightarrow> bool" for info calls where
  call: "allowed k t s \<Longrightarrow> info_step info calls k t s = Inr s' \<Longrightarrow> relaxed_step info calls s s'"
| observe: "concurrency_view s k \<le> t \<Longrightarrow> physical_concurrency_stores s t \<noteq> None \<Longrightarrow>
    ptr_view s k \<le> u \<Longrightarrow> u < length (core_thread_ids_ptr s) \<Longrightarrow>
    relaxed_step info calls s (see_concurrency k t (see_ptr k u s))"

definition relaxed_reachable :: "int list res \<Rightarrow> (nat \<Rightarrow> info_call) \<Rightarrow> info_state \<Rightarrow> bool" where
  "relaxed_reachable info calls s \<longleftrightarrow> (relaxed_step info calls)\<^sup>*\<^sup>* info_start s"

text \<open>Interleavings in which each access sees the newest store, or makes it.\<close>

definition newest :: "nat \<Rightarrow> info_state \<Rightarrow> nat" where
  "newest k s =
     (case at_call s k of
        LoadConcurrency \<Rightarrow> newest_store s
      | InitLoad \<Rightarrow> newest_store s
      | ReloadConcurrency \<Rightarrow> newest_store s
      | StoreConcurrency b \<Rightarrow> newest_store s + 1
      | _ \<Rightarrow> length (core_thread_ids_ptr s) - 1)"

inductive info_reachable :: "int list res \<Rightarrow> (nat \<Rightarrow> info_call) \<Rightarrow> info_state \<Rightarrow> bool" for info calls where
  start: "info_reachable info calls info_start"
| step: "info_reachable info calls s \<Longrightarrow> info_step info calls k (newest k s) s = Inr s' \<Longrightarrow> info_reachable info calls s'"

text \<open>The calls of a list make a step each.\<close>

fun info_exec :: "int list res \<Rightarrow> (nat \<Rightarrow> info_call) \<Rightarrow> nat list \<Rightarrow> info_state \<Rightarrow> info_state res" where
  "info_exec info calls [] s = Inr s"
| "info_exec info calls (k # ks) s =
     res_bind (info_step info calls k (newest k s) s) (info_exec info calls ks)"

lemma info_exec_reachable:
  "info_reachable info calls s \<Longrightarrow> info_exec info calls ks s = Inr s' \<Longrightarrow> info_reachable info calls s'"
proof (induction ks arbitrary: s)
  case (Cons k ks)
  then show ?case by (auto simp: res_bind_Inr_iff intro: info_reachable.step)
qed simp

text \<open>Allowed steps of calls, each with the number of the store.\<close>

fun relaxed_exec :: "int list res \<Rightarrow> (nat \<Rightarrow> info_call) \<Rightarrow> (nat \<times> nat) list \<Rightarrow> info_state \<Rightarrow> info_state option" where
  "relaxed_exec info calls [] s = Some s"
| "relaxed_exec info calls ((k, t) # kts) s =
     (if allowed k t s
      then (case info_step info calls k t s of Inl e \<Rightarrow> None | Inr s' \<Rightarrow> relaxed_exec info calls kts s')
      else None)"

lemma relaxed_exec_steps:
  "relaxed_exec info calls kts s = Some s' \<Longrightarrow> (relaxed_step info calls)\<^sup>*\<^sup>* s s'"
proof (induction kts arbitrary: s)
  case (Cons kt kts)
  obtain k t where kt: "kt = (k, t)" by fastforce
  then obtain s1 where "relaxed_step info calls s s1" "relaxed_exec info calls kts s1 = Some s'"
    using Cons.prems by (auto split: if_splits sum.splits intro: relaxed_step.call)
  then show ?case using Cons.IH by (meson converse_rtranclp_into_rtranclp)
qed simp

section \<open>The invariant\<close>

text \<open>What a call may rely on, for a machine with at least one core.\<close>

definition own_buffer :: "int list \<Rightarrow> info_state \<Rightarrow> nat \<Rightarrow> bool" where
  "own_buffer ps s b \<longleftrightarrow> buffers s b = Some ps \<and> Some b \<notin> set (core_thread_ids_ptr s) \<and> core_thread_ids s \<noteq> Some b"

definition point_ok :: "int list \<Rightarrow> info_call \<Rightarrow> info_state \<Rightarrow> nat \<Rightarrow> info_point \<Rightarrow> bool" where
  "point_ok ps c s k l \<longleftrightarrow>
     (case l of
        LoadPtr n \<Rightarrow> c = CoreIdsCall \<and> n \<in> {0, int (length ps)}
      | StoreConcurrency b \<Rightarrow> own_buffer ps s b
      | ExchangePtr b \<Rightarrow> own_buffer ps s b \<and> 0 < concurrency_view s k
      | MoveIds b \<Rightarrow> core_thread_ids_ptr s = [None, Some b] \<and> core_thread_ids s = None
          \<and> 0 < concurrency_view s k \<and> 0 < ptr_view s k
      | DropIds b \<Rightarrow> Some b \<notin> set (core_thread_ids_ptr s) \<and> core_thread_ids s \<noteq> Some b
          \<and> 0 < concurrency_view s k \<and> 0 < ptr_view s k
      | ReloadConcurrency \<Rightarrow> 0 < concurrency_view s k
      | ReloadPtr n \<Rightarrow> c = CoreIdsCall \<and> n = int (length ps)
      | Returned n p \<Rightarrow> n = int (length ps) \<and> p \<in> set (core_thread_ids_ptr s)
      | _ \<Rightarrow> True)"

fun local_buffer :: "info_point \<Rightarrow> nat option" where
  "local_buffer (StoreConcurrency b) = Some b"
| "local_buffer (ExchangePtr b) = Some b"
| "local_buffer (MoveIds b) = Some b"
| "local_buffer (DropIds b) = Some b"
| "local_buffer l = None"

lemma point_ok_simps [simp]:
  "point_ok ps c s k NotCalled" "point_ok ps c s k LoadConcurrency" "point_ok ps c s k InitLoad"
  "point_ok ps c s k (LoadPtr n) \<longleftrightarrow> c = CoreIdsCall \<and> n \<in> {0, int (length ps)}"
  "point_ok ps c s k (StoreConcurrency b) \<longleftrightarrow> own_buffer ps s b"
  "point_ok ps c s k (ExchangePtr b) \<longleftrightarrow> own_buffer ps s b \<and> 0 < concurrency_view s k"
  "point_ok ps c s k (MoveIds b) \<longleftrightarrow> core_thread_ids_ptr s = [None, Some b] \<and> core_thread_ids s = None
     \<and> 0 < concurrency_view s k \<and> 0 < ptr_view s k"
  "point_ok ps c s k (DropIds b) \<longleftrightarrow> Some b \<notin> set (core_thread_ids_ptr s) \<and> core_thread_ids s \<noteq> Some b
     \<and> 0 < concurrency_view s k \<and> 0 < ptr_view s k"
  "point_ok ps c s k ReloadConcurrency \<longleftrightarrow> 0 < concurrency_view s k"
  "point_ok ps c s k (ReloadPtr n) \<longleftrightarrow> c = CoreIdsCall \<and> n = int (length ps)"
  "point_ok ps c s k (Returned n p) \<longleftrightarrow> n = int (length ps) \<and> p \<in> set (core_thread_ids_ptr s)"
  by (simp_all add: point_ok_def)

text \<open>Every call that initialises has a buffer of its own.\<close>

definition locals_ok :: "info_state \<Rightarrow> bool" where
  "locals_ok s \<longleftrightarrow>
     (\<forall>j k b. local_buffer (at_call s j) = Some b \<and> local_buffer (at_call s k) = Some b \<longrightarrow> j = k)
   \<and> (\<forall>k b. local_buffer (at_call s k) = Some b \<longrightarrow> b < next_buffer s)"

text \<open>The stores to the two atomics.\<close>

definition concurrency_ok :: "int list \<Rightarrow> info_state \<Rightarrow> bool" where
  "concurrency_ok ps s \<longleftrightarrow> physical_concurrency_stores s 0 = Some 0
   \<and> (\<forall>t n. physical_concurrency_stores s t = Some n \<and> 0 < t \<longrightarrow> n = int (length ps))
   \<and> physical_concurrency_stores s (newest_store s) \<noteq> None
   \<and> (\<forall>t. newest_store s < t \<longrightarrow> physical_concurrency_stores s t = None)"

definition ptr_ok :: "int list \<Rightarrow> info_state \<Rightarrow> bool" where
  "ptr_ok ps s \<longleftrightarrow>
     core_thread_ids_ptr s = [None] \<and> core_thread_ids s = None
   \<or> (\<exists>b < next_buffer s. core_thread_ids_ptr s = [None, Some b] \<and> buffers s b = Some ps
        \<and> core_thread_ids s \<in> {None, Some b})"

text \<open>A view is a store that there is.\<close>

definition view_ok :: "info_state \<Rightarrow> nat \<Rightarrow> bool" where
  "view_ok s k \<longleftrightarrow> physical_concurrency_stores s (concurrency_view s k) \<noteq> None
   \<and> ptr_view s k < length (core_thread_ids_ptr s)"

definition info_inv :: "int list \<Rightarrow> (nat \<Rightarrow> info_call) \<Rightarrow> info_state \<Rightarrow> bool" where
  "info_inv ps calls s \<longleftrightarrow> (\<forall>k. point_ok ps (calls k) s k (at_call s k)) \<and> (\<forall>k. view_ok s k)
   \<and> locals_ok s \<and> concurrency_ok ps s \<and> ptr_ok ps s"

lemma info_invI:
  assumes "\<And>k. point_ok ps (calls k) s k (at_call s k)" "\<And>k. view_ok s k"
    and "locals_ok s" "concurrency_ok ps s" "ptr_ok ps s"
  shows "info_inv ps calls s"
  using assms by (simp add: info_inv_def)

lemma info_invD:
  assumes "info_inv ps calls s"
  shows "point_ok ps (calls k) s k (at_call s k)" "view_ok s k" "locals_ok s" "concurrency_ok ps s" "ptr_ok ps s"
  using assms by (simp_all add: info_inv_def)

lemma go_simps [simp]:
  "physical_concurrency_stores (go k l s) = physical_concurrency_stores s" "newest_store (go k l s) = newest_store s"
  "core_thread_ids_ptr (go k l s) = core_thread_ids_ptr s" "core_thread_ids (go k l s) = core_thread_ids s"
  "buffers (go k l s) = buffers s" "next_buffer (go k l s) = next_buffer s"
  "at_call (go k l s) = (at_call s)(k := l)"
  "concurrency_view (go k l s) = concurrency_view s" "ptr_view (go k l s) = ptr_view s"
  by (simp_all add: go_def)

lemma see_simps [simp]:
  "physical_concurrency_stores (see_concurrency k t s) = physical_concurrency_stores s"
  "newest_store (see_concurrency k t s) = newest_store s"
  "core_thread_ids_ptr (see_concurrency k t s) = core_thread_ids_ptr s"
  "core_thread_ids (see_concurrency k t s) = core_thread_ids s"
  "buffers (see_concurrency k t s) = buffers s" "next_buffer (see_concurrency k t s) = next_buffer s"
  "at_call (see_concurrency k t s) = at_call s" "ptr_view (see_concurrency k t s) = ptr_view s"
  "concurrency_view (see_concurrency k t s) = (concurrency_view s)(k := t)"
  "physical_concurrency_stores (see_ptr k t s) = physical_concurrency_stores s"
  "newest_store (see_ptr k t s) = newest_store s"
  "core_thread_ids_ptr (see_ptr k t s) = core_thread_ids_ptr s" "core_thread_ids (see_ptr k t s) = core_thread_ids s"
  "buffers (see_ptr k t s) = buffers s" "next_buffer (see_ptr k t s) = next_buffer s"
  "at_call (see_ptr k t s) = at_call s" "concurrency_view (see_ptr k t s) = concurrency_view s"
  "ptr_view (see_ptr k t s) = (ptr_view s)(k := t)"
  by (simp_all add: see_concurrency_def see_ptr_def)

lemma load_concurrency:
  assumes "concurrency_ok ps s" "physical_concurrency_stores s t \<noteq> None"
  shows "load_concurrency s t = (if t = 0 then 0 else int (length ps))"
  using assms by (auto simp: concurrency_ok_def load_concurrency_def)

lemma ptr_cases:
  assumes "ptr_ok ps s"
  obtains "core_thread_ids_ptr s = [None]" "core_thread_ids s = None"
  | b where "core_thread_ids_ptr s = [None, Some b]" "b < next_buffer s" "buffers s b = Some ps"
      "core_thread_ids s \<in> {None, Some b}"
  using assms by (auto simp: ptr_ok_def)

lemma view_newest:
  assumes "concurrency_ok ps s" "physical_concurrency_stores s t \<noteq> None"
  shows "t \<le> newest_store s"
  using assms unfolding concurrency_ok_def by (meson not_le_imp_less)

lemma locals_okD:
  assumes "locals_ok s"
  shows "local_buffer (at_call s j) = Some b \<Longrightarrow> local_buffer (at_call s k) = Some b \<Longrightarrow> j = k"
    "local_buffer (at_call s k) = Some b \<Longrightarrow> b < next_buffer s"
  using assms by (auto simp: locals_ok_def)

lemma locals_keep:
  assumes "locals_ok s" "at_call s' = (at_call s)(k := l)" "next_buffer s' = next_buffer s"
    and "local_buffer l = None \<or> local_buffer l = local_buffer (at_call s k)"
  shows "locals_ok s'"
proof -
  have old: "local_buffer (at_call s j) = Some b" if "local_buffer (at_call s' j) = Some b" for j b
    using that assms(2,4) by (cases "j = k") auto
  show ?thesis
    unfolding locals_ok_def assms(3) using old locals_okD [OF assms(1)] by blast
qed

lemma others_differ:
  "locals_ok s \<Longrightarrow> local_buffer (at_call s k) = Some b \<Longrightarrow> j \<noteq> k \<Longrightarrow> local_buffer (at_call s j) \<noteq> Some b"
  using locals_okD(1) by blast

text \<open>A view that moves up, alone or with the point of a call that has no local buffer.\<close>

lemma info_inv_view:
  assumes inv: "info_inv ps calls s" and s': "s' = see_concurrency k t (see_ptr k u s)"
    and t: "concurrency_view s k \<le> t" "physical_concurrency_stores s t \<noteq> None"
    and u: "ptr_view s k \<le> u" "u < length (core_thread_ids_ptr s)"
  shows "info_inv ps calls s'"
proof (rule info_invI)
  note d = info_invD [OF inv]
  show "point_ok ps (calls j) s' j (at_call s' j)" for j
    using d(1) [of j] t(1) u(1) by (cases "j = k"; cases "at_call s j") (auto simp: s' own_buffer_def)
  show "view_ok s' j" for j using d(2) [of j] t(2) u(2) by (simp add: s' view_ok_def)
  show "locals_ok s'" using d(3) by (simp add: s' locals_ok_def)
  show "concurrency_ok ps s'" using d(4) by (simp add: s' concurrency_ok_def)
  show "ptr_ok ps s'" using d(5) by (simp add: s' ptr_ok_def)
qed

lemma info_inv_go:
  assumes inv: "info_inv ps calls s" and s': "s' = go k l s" and l: "point_ok ps (calls k) s k l" "local_buffer l = None"
  shows "info_inv ps calls s'"
proof (rule info_invI)
  note d = info_invD [OF inv]
  show "point_ok ps (calls j) s' j (at_call s' j)" for j
  proof (cases "j = k")
    case True
    then show ?thesis using l(1) by (cases l) (auto simp: s' own_buffer_def)
  next
    case False
    then show ?thesis using d(1) [of j] by (cases "at_call s j") (auto simp: s' own_buffer_def)
  qed
  show "view_ok s' j" for j using d(2) [of j] by (simp add: s' view_ok_def)
  show "locals_ok s'" by (rule locals_keep [OF d(3), of _ k l]) (simp_all add: s' l(2))
  show "concurrency_ok ps s'" using d(4) by (simp add: s' concurrency_ok_def)
  show "ptr_ok ps s'" using d(5) by (simp add: s' ptr_ok_def)
qed

text \<open>A load, which moves a view and goes on to a point without a local buffer.\<close>

lemma see_same [simp]: "see_concurrency k (concurrency_view s k) s = s" "see_ptr k (ptr_view s k) s = s"
  by (simp_all add: see_concurrency_def see_ptr_def)

lemma load_inv:
  assumes inv: "info_inv ps calls s"
  shows "concurrency_view s k \<le> t \<Longrightarrow> physical_concurrency_stores s t \<noteq> None \<Longrightarrow> s' = see_concurrency k t s \<Longrightarrow>
      point_ok ps (calls k) s' k l \<Longrightarrow> local_buffer l = None \<Longrightarrow> info_inv ps calls (go k l s')"
    "ptr_view s k \<le> u \<Longrightarrow> u < length (core_thread_ids_ptr s) \<Longrightarrow> s' = see_ptr k u s \<Longrightarrow>
      point_ok ps (calls k) s' k l \<Longrightarrow> local_buffer l = None \<Longrightarrow> info_inv ps calls (go k l s')"
proof -
  have v: "ptr_view s k < length (core_thread_ids_ptr s)" "physical_concurrency_stores s (concurrency_view s k) \<noteq> None"
    using info_invD(2) [OF inv, of k] by (simp_all add: view_ok_def)
  show "info_inv ps calls (go k l s')"
    if "concurrency_view s k \<le> t" "physical_concurrency_stores s t \<noteq> None" "s' = see_concurrency k t s"
      "point_ok ps (calls k) s' k l" "local_buffer l = None"
    by (rule info_inv_go [OF info_inv_view [OF inv _ that(1,2) order.refl v(1)] refl that(4,5)]) (simp add: that(3))
  show "info_inv ps calls (go k l s')"
    if "ptr_view s k \<le> u" "u < length (core_thread_ids_ptr s)" "s' = see_ptr k u s"
      "point_ok ps (calls k) s' k l" "local_buffer l = None"
  proof (rule info_inv_go [OF info_inv_view [OF inv _ order.refl v(2) that(1,2)] refl that(4,5)])
    have "concurrency_view (see_ptr k u s) k = concurrency_view s k" by simp
    then show "s' = see_concurrency k (concurrency_view s k) (see_ptr k u s)" using see_same(1) that(3) by metis
  qed
qed

lemma init_compute_inv:
  assumes inv: "info_inv ps calls s" and k: "at_call s k = InitLoad"
    and step: "init_compute (Inr ps) k s = Inr s'"
  shows "info_inv ps calls s'"
proof (rule info_invI)
  note d = info_invD [OF inv]
  let ?b = "next_buffer s"
  have s': "s' = go k (StoreConcurrency ?b) (s\<lparr>buffers := (buffers s)(?b \<mapsto> ps), next_buffer := ?b + 1\<rparr>)"
    using step by (simp add: init_compute_def)
  have new: "Some ?b \<notin> set (core_thread_ids_ptr s)" "core_thread_ids s \<noteq> Some ?b"
    using d(5) by (auto elim: ptr_cases)
  show "point_ok ps (calls j) s' j (at_call s' j)" for j
  proof (cases "j = k")
    case False
    then show ?thesis using d(1) [of j] locals_okD(2) [OF d(3), of j]
      by (cases "at_call s j") (auto simp: s' own_buffer_def)
  qed (simp add: s' new own_buffer_def)
  show "view_ok s' j" for j using d(2) [of j] by (simp add: s' view_ok_def)
  show "locals_ok s'"
    unfolding locals_ok_def
  proof (intro conjI allI impI)
    fix i j b assume "local_buffer (at_call s' i) = Some b \<and> local_buffer (at_call s' j) = Some b"
    then show "i = j"
      using locals_okD(1) [OF d(3), of i b j] locals_okD(2) [OF d(3), of i b] locals_okD(2) [OF d(3), of j b]
      by (auto simp: s' split: if_splits)
  next
    fix j b assume "local_buffer (at_call s' j) = Some b"
    then show "b < next_buffer s'"
      using locals_okD(2) [OF d(3), of j b] by (auto simp: s' split: if_splits)
  qed
  show "concurrency_ok ps s'" using d(4) by (simp add: s' concurrency_ok_def)
  show "ptr_ok ps s'" using d(5) by (elim ptr_cases) (auto simp: s' ptr_ok_def)
qed

lemma store_concurrency_inv:
  assumes inv: "info_inv ps calls s" and k: "at_call s k = StoreConcurrency b"
    and t: "concurrency_view s k < t" "physical_concurrency_stores s t = None"
    and step: "store_concurrency k t b s = Inr s'"
  shows "info_inv ps calls s'"
proof (rule info_invI)
  note d = info_invD [OF inv]
  have ok: "own_buffer ps s b" using d(1) [of k] k by simp
  then have s': "s' = go k (ExchangePtr b) (see_concurrency k t
      (s\<lparr>physical_concurrency_stores := (physical_concurrency_stores s)(t \<mapsto> int (length ps)),
         newest_store := max t (newest_store s)\<rparr>))"
    using step by (simp add: store_concurrency_def own_buffer_def)
  show "point_ok ps (calls j) s' j (at_call s' j)" for j
    using d(1) [of j] ok t(1) by (cases "j = k"; cases "at_call s j") (auto simp: s' own_buffer_def)
  show "view_ok s' j" for j using d(2) [of j] by (simp add: s' view_ok_def)
  show "locals_ok s'" by (rule locals_keep [OF d(3), of _ k "ExchangePtr b"]) (simp_all add: s' k)
  show "concurrency_ok ps s'" using d(4) t by (auto simp: s' concurrency_ok_def max_def)
  show "ptr_ok ps s'" using d(5) by (simp add: s' ptr_ok_def)
qed

lemma exchange_ptr_inv:
  assumes inv: "info_inv ps calls s" and k: "at_call s k = ExchangePtr b" and ps: "ps \<noteq> []"
    and t: "ptr_view s k \<le> t" "t < length (core_thread_ids_ptr s)"
      "core_thread_ids_ptr s ! t = None \<longrightarrow> t = length (core_thread_ids_ptr s) - 1"
    and step: "exchange_ptr k t b s = Inr s'"
  shows "info_inv ps calls s'"
proof (rule info_invI)
  note d = info_invD [OF inv]
  have ok: "own_buffer ps s b" "0 < concurrency_view s k" and lt: "b < next_buffer s"
    using d(1) [of k] locals_okD(2) [OF d(3), of k b] k by simp_all
  have other: "local_buffer (at_call s j) \<noteq> Some b" if "j \<noteq> k" for j
    by (rule others_differ [OF d(3) _ that]) (simp add: k)
  have isnull: "core_thread_ids_ptr s = [None]" "core_thread_ids s = None" if "core_thread_ids_ptr s ! t = None"
    using d(5) t that by (auto elim!: ptr_cases simp: nth_Cons split: nat.splits)
  have pos: "0 < t" if "core_thread_ids_ptr s ! t \<noteq> None" using d(5) that by (cases t) (auto elim: ptr_cases)
  show "concurrency_ok ps s'" using d(4) step by (auto simp: exchange_ptr_def concurrency_ok_def split: if_splits)
  show "locals_ok s'"
    by (rule locals_keep [OF d(3), of _ k "at_call s' k"])
      (use step k in \<open>auto simp: exchange_ptr_def split: if_splits\<close>)
  consider (null) "core_thread_ids_ptr s ! t = None" | (set) "core_thread_ids_ptr s ! t \<noteq> None" by blast
  then have "(\<forall>j. point_ok ps (calls j) s' j (at_call s' j)) \<and> (\<forall>j. view_ok s' j) \<and> ptr_ok ps s'"
  proof cases
    case null
    have s': "s' = go k (MoveIds b) (see_ptr k 1 (s\<lparr>core_thread_ids_ptr := [None, Some b]\<rparr>))"
      using step ok ps null isnull [OF null] by (simp add: exchange_ptr_def data_pointer_def own_buffer_def)
    have "point_ok ps (calls j) s' j (at_call s' j)" for j
      using d(1) [of j] other [of j] ok isnull [OF null]
      by (cases "j = k"; cases "at_call s j") (auto simp: s' own_buffer_def)
    moreover have "view_ok s' j" for j using d(2) [of j] isnull [OF null] by (simp add: s' view_ok_def)
    moreover have "ptr_ok ps s'" using ok lt isnull [OF null] by (simp add: s' ptr_ok_def own_buffer_def)
    ultimately show ?thesis by blast
  next
    case set
    then have s': "s' = go k (DropIds b) (see_ptr k t s)" using step by (auto simp: exchange_ptr_def)
    have "point_ok ps (calls j) s' j (at_call s' j)" for j
    proof (cases "j = k")
      case True
      then show ?thesis using ok pos [OF set] by (simp add: s' own_buffer_def)
    next
      case False
      then show ?thesis using d(1) [of j] by (cases "at_call s j") (simp_all add: s' own_buffer_def)
    qed
    moreover have "view_ok s' j" for j using d(2) [of j] t(2) by (simp add: s' view_ok_def)
    moreover have "ptr_ok ps s'" using d(5) by (simp add: s' ptr_ok_def)
    ultimately show ?thesis by blast
  qed
  then show "point_ok ps (calls j) s' j (at_call s' j)" "view_ok s' j" "ptr_ok ps s'" for j by blast+
qed

lemma move_ids_inv:
  assumes inv: "info_inv ps calls s" and k: "at_call s k = MoveIds b" and step: "move_ids k b s = Inr s'"
  shows "info_inv ps calls s'"
proof (rule info_invI)
  note d = info_invD [OF inv]
  have ok: "core_thread_ids_ptr s = [None, Some b]" "core_thread_ids s = None" "0 < concurrency_view s k"
    using d(1) [of k] k by simp_all
  have other: "local_buffer (at_call s j) \<noteq> Some b" if "j \<noteq> k" for j
    by (rule others_differ [OF d(3) _ that]) (simp add: k)
  have s': "s' = go k ReloadConcurrency (s\<lparr>core_thread_ids := Some b\<rparr>)"
    using step ok by (simp add: move_ids_def)
  show "point_ok ps (calls j) s' j (at_call s' j)" for j
    using d(1) [of j] other [of j] ok by (cases "j = k"; cases "at_call s j") (auto simp: s' own_buffer_def)
  show "view_ok s' j" for j using d(2) [of j] by (simp add: s' view_ok_def)
  show "locals_ok s'" by (rule locals_keep [OF d(3), of _ k ReloadConcurrency]) (simp_all add: s')
  show "concurrency_ok ps s'" using d(4) by (simp add: s' concurrency_ok_def)
  show "ptr_ok ps s'" using d(5) ok by (auto simp: s' ptr_ok_def)
qed

lemma drop_ids_inv:
  assumes inv: "info_inv ps calls s" and k: "at_call s k = DropIds b"
    and s': "s' = go k ReloadConcurrency (s\<lparr>buffers := (buffers s)(b := None)\<rparr>)"
  shows "info_inv ps calls s'"
proof (rule info_invI)
  note d = info_invD [OF inv]
  have ok: "Some b \<notin> set (core_thread_ids_ptr s)" "0 < concurrency_view s k"
    using d(1) [of k] k by simp_all
  have other: "local_buffer (at_call s j) \<noteq> Some b" if "j \<noteq> k" for j
    by (rule others_differ [OF d(3) _ that]) (simp add: k)
  show "point_ok ps (calls j) s' j (at_call s' j)" for j
    using d(1) [of j] other [of j] ok by (cases "j = k"; cases "at_call s j") (auto simp: s' own_buffer_def)
  show "view_ok s' j" for j using d(2) [of j] by (simp add: s' view_ok_def)
  show "locals_ok s'" by (rule locals_keep [OF d(3), of _ k ReloadConcurrency]) (simp_all add: s')
  show "concurrency_ok ps s'" using d(4) by (simp add: s' concurrency_ok_def)
  show "ptr_ok ps s'" using d(5) ok by (elim ptr_cases) (auto simp: s' ptr_ok_def)
qed

lemma info_step_inv:
  assumes inv: "info_inv ps calls s" and ps: "ps \<noteq> []" and al: "allowed k t s"
    and step: "info_step (Inr ps) calls k t s = Inr s'"
  shows "info_inv ps calls s'"
proof -
  note d = info_invD(1) [OF inv, of k] and c = load_concurrency [OF info_invD(4) [OF inv], of t]
  have null: "None \<in> set (core_thread_ids_ptr s)" using info_invD(5) [OF inv] by (auto elim: ptr_cases)
  note lc = load_inv(1) [OF inv, of k t, OF _ _ refl] and lp = load_inv(2) [OF inv, of k t, OF _ _ refl]
  show ?thesis
  proof (cases "at_call s k")
    case NotCalled
    then show ?thesis using step info_inv_go [OF inv, of s' k LoadConcurrency] by (simp add: info_step_def)
  next
    case LoadConcurrency
    then show ?thesis using step al c lc null
      by (cases "calls k") (auto simp: info_step_def allowed_def Let_def split: if_splits)
  next
    case (LoadPtr n)
    then have "core_thread_ids_ptr s ! t \<in> set (core_thread_ids_ptr s)" using al by (simp add: allowed_def)
    then show ?thesis
      using step al d LoadPtr lp [of InitLoad] lp [of "Returned n (core_thread_ids_ptr s ! t)"]
      by (auto simp: info_step_def allowed_def Let_def split: if_splits)
  next
    case InitLoad
    let ?s = "see_concurrency k t s"
    have t: "concurrency_view s k \<le> t" "physical_concurrency_stores s t \<noteq> None"
      using al InitLoad by (simp_all add: allowed_def)
    have "?s = see_concurrency k t (see_ptr k (ptr_view s k) s)" by simp
    then have "info_inv ps calls ?s"
      using info_inv_view [OF inv _ t order.refl] info_invD(2) [OF inv, of k] by (simp add: view_ok_def)
    then show ?thesis using step init_compute_inv [of ps calls ?s k s'] lc [OF t, of ReloadConcurrency] c t(2) InitLoad
      by (auto simp: info_step_def split: if_splits)
  next
    case ReloadConcurrency
    then show ?thesis using step al c d lc null
      by (cases "calls k") (auto simp: info_step_def allowed_def Let_def split: if_splits)
  next
    case (ReloadPtr n)
    then have "core_thread_ids_ptr s ! t \<in> set (core_thread_ids_ptr s)" using al by (simp add: allowed_def)
    then show ?thesis using step al d ReloadPtr lp [of "Returned n (core_thread_ids_ptr s ! t)"]
      by (auto simp: info_step_def allowed_def)
  next
    case (Returned n p)
    then show ?thesis using step inv by (simp add: info_step_def)
  qed (use step al store_concurrency_inv [OF inv] exchange_ptr_inv [OF inv _ ps] move_ids_inv [OF inv]
      drop_ids_inv [OF inv] in \<open>auto simp: info_step_def allowed_def\<close>)
qed

lemma relaxed_step_inv:
  assumes "relaxed_step (Inr ps) calls s s'" "info_inv ps calls s" "ps \<noteq> []"
  shows "info_inv ps calls s'"
  using assms(1)
proof cases
  case (call k t)
  then show ?thesis using info_step_inv assms(2,3) by blast
next
  case (observe k t u)
  then show ?thesis using info_inv_view [OF assms(2) observe(1)] by blast
qed

lemma relaxed_steps_inv:
  "(relaxed_step (Inr ps) calls)\<^sup>*\<^sup>* s s' \<Longrightarrow> info_inv ps calls s \<Longrightarrow> ps \<noteq> [] \<Longrightarrow> info_inv ps calls s'"
  by (induction rule: rtranclp_induct) (auto intro: relaxed_step_inv)

lemma relaxed_reachable_inv:
  assumes "relaxed_reachable (Inr ps) calls s" "ps \<noteq> []"
  shows "info_inv ps calls s"
proof (rule relaxed_steps_inv [OF assms(1) [unfolded relaxed_reachable_def] _ assms(2)])
  show "info_inv ps calls info_start"
    by (simp add: info_inv_def info_start_def view_ok_def locals_ok_def concurrency_ok_def ptr_ok_def)
qed

section \<open>Progress\<close>

text \<open>The newest store can always be seen, and the next number is free.\<close>

lemma newest_allowed:
  assumes inv: "info_inv ps calls s"
  shows "allowed k (newest k s) s"
proof -
  note c = info_invD(4) [OF inv] and v = info_invD(2) [OF inv, of k, unfolded view_ok_def]
  have "concurrency_view s k \<le> newest_store s" by (rule view_newest [OF c]) (use v in simp)
  moreover have "physical_concurrency_stores s (newest_store s) \<noteq> None"
    "physical_concurrency_stores s (newest_store s + 1) = None"
    using c by (simp_all add: concurrency_ok_def)
  moreover have "ptr_view s k \<le> length (core_thread_ids_ptr s) - 1" "core_thread_ids_ptr s \<noteq> []" using v by auto
  ultimately show ?thesis by (auto simp: allowed_def newest_def split: info_point.splits)
qed

lemma info_step_succeeds:
  assumes inv: "info_inv ps calls s"
  shows "\<exists>s'. info_step (Inr ps) calls k t s = Inr s'"
  using info_invD(1) [OF inv, of k]
  by (auto simp: info_step_def Let_def init_compute_def store_concurrency_def exchange_ptr_def move_ids_def own_buffer_def
      split: info_point.splits info_call.splits)

text \<open>The interleavings are executions.\<close>

lemma sequential_relaxed:
  assumes "info_reachable (Inr ps) calls s" "ps \<noteq> []"
  shows "relaxed_reachable (Inr ps) calls s"
  using assms(1)
proof induction
  case start
  then show ?case by (simp add: relaxed_reachable_def)
next
  case (step s k s')
  have "relaxed_step (Inr ps) calls s s'"
    by (rule relaxed_step.call [OF newest_allowed [OF relaxed_reachable_inv [OF step.IH assms(2)]] step.hyps(2)])
  then show ?case using step.IH unfolding relaxed_reachable_def by (rule rtranclp.rtrancl_into_rtrancl [rotated])
qed

text \<open>The steps that a call has still to make.\<close>

fun calls_left :: "info_point \<Rightarrow> nat" where
  "calls_left NotCalled = 9"
| "calls_left LoadConcurrency = 8"
| "calls_left (LoadPtr n) = 7"
| "calls_left InitLoad = 6"
| "calls_left (StoreConcurrency b) = 5"
| "calls_left (ExchangePtr b) = 4"
| "calls_left (MoveIds b) = 3"
| "calls_left (DropIds b) = 3"
| "calls_left ReloadConcurrency = 2"
| "calls_left (ReloadPtr n) = 1"
| "calls_left (Returned n p) = 0"

lemma info_step_decreases:
  assumes "info_step (Inr ps) calls k t s = Inr s'"
  shows "calls_left (at_call s k) = 0 \<or> calls_left (at_call s' k) < calls_left (at_call s k)"
  using assms
  by (auto simp: info_step_def Let_def init_compute_def store_concurrency_def exchange_ptr_def move_ids_def
      split: info_point.splits info_call.splits if_splits option.splits)

lemma info_step_others:
  assumes "info_step info calls k t s = Inr s'" "j \<noteq> k"
  shows "at_call s' j = at_call s j \<and> ptr_view s' j = ptr_view s j"
  using assms
  by (auto simp: info_step_def Let_def init_compute_def store_concurrency_def exchange_ptr_def move_ids_def res_bind_Inr_iff
      split: info_point.splits info_call.splits if_splits option.splits)

section \<open>Which calls return the list\<close>

text \<open>
  A call whose thread has seen the pointer, or which initialises itself, cannot return a null
  pointer.
\<close>

definition informed :: "nat \<Rightarrow> info_state \<Rightarrow> bool" where
  "informed k s \<longleftrightarrow>
     (case at_call s k of
        StoreConcurrency b \<Rightarrow> True
      | ExchangePtr b \<Rightarrow> True
      | Returned n p \<Rightarrow> p \<noteq> None
      | _ \<Rightarrow> 0 < ptr_view s k)"

lemma ptr_some:
  assumes "ptr_ok ps s" "t < length (core_thread_ids_ptr s)"
  shows "core_thread_ids_ptr s ! t = None \<longleftrightarrow> t = 0"
  using assms by (auto elim!: ptr_cases simp: nth_Cons split: nat.splits)

lemma informed_own:
  assumes inv: "info_inv ps calls s" and al: "allowed k t s" and core: "calls k = CoreIdsCall"
    and step: "info_step (Inr ps) calls k t s = Inr s'" and inf: "informed k s"
  shows "informed k s'"
proof -
  note p = ptr_some [OF info_invD(5) [OF inv]]
  have "core_thread_ids_ptr s \<noteq> []" using info_invD(5) [OF inv] by (auto elim: ptr_cases)
  then show ?thesis using step inf al core p [of t] info_invD(1) [OF inv, of k]
    by (cases "at_call s k")
      (auto simp: informed_def info_step_def allowed_def Let_def init_compute_def store_concurrency_def exchange_ptr_def
        move_ids_def split: if_splits option.splits)
qed

lemma informed_steps:
  assumes "(relaxed_step (Inr ps) calls)\<^sup>*\<^sup>* s s'" "info_inv ps calls s" "ps \<noteq> []" "calls k = CoreIdsCall" "informed k s"
  shows "informed k s'"
  using assms(1)
proof (induction rule: rtranclp_induct)
  case base
  then show ?case by (rule assms(5))
next
  case (step s1 s2)
  have inv: "info_inv ps calls s1" by (rule relaxed_steps_inv [OF step.hyps(1) assms(2,3)])
  from step.hyps(2) show ?case
  proof cases
    case (call j t)
    show ?thesis
    proof (cases "j = k")
      case True
      then show ?thesis using informed_own [OF inv _ assms(4)] call step.IH by blast
    next
      case False
      then show ?thesis using info_step_others [OF call(2), of k] step.IH
        by (simp add: informed_def split: info_point.splits)
    qed
  next
    case (observe j t u)
    then show ?thesis using step.IH by (auto simp: informed_def split: info_point.splits)
  qed
qed

section \<open>Properties\<close>

text \<open>
  C18: With the relaxed atomics of the code, on a machine with at least one core and in every
  execution: a call that returns a non-null pointer returns the size of the list of core ids and a
  pointer to a vector that holds the list and is never changed or freed; a call of
  \<^verbatim>\<open>physical_core_ids()\<close> by a thread that has seen the pointer before, or that initialises itself,
  returns such a pointer, whatever other calls do; the global vector is assigned by one call only;
  no call fails, and each returns after at most nine steps. That a thread reads the elements
  only after they were written is not part of the claim: the load of the pointer does not synchronize.
\<close>

theorem physical_core_ids_correct:
  assumes "relaxed_reachable (Inr ps) calls s" "ps \<noteq> []"
  shows "(at_call s k = Returned n p \<longrightarrow> n = int (length ps) \<and> (p = None \<or> (\<exists>b. p = Some b \<and> buffers s b = Some ps)))
    \<and> (calls k = CoreIdsCall \<and> (at_call s k = NotCalled \<and> core_thread_ids_ptr s ! ptr_view s k \<noteq> None
          \<or> (\<exists>c. at_call s k = StoreConcurrency c)) \<and> (relaxed_step (Inr ps) calls)\<^sup>*\<^sup>* s s'
        \<and> at_call s' k = Returned n' p' \<longrightarrow> (\<exists>b. p' = Some b \<and> buffers s' b = Some ps))
    \<and> (at_call s j = MoveIds b \<and> at_call s k = MoveIds c \<longrightarrow> j = k)
    \<and> calls_left (at_call s k) \<le> 9 \<and> (\<exists>t. allowed k t s)
    \<and> (\<exists>s'. info_step (Inr ps) calls k t s = Inr s' \<and>
        (calls_left (at_call s k) = 0 \<or> calls_left (at_call s' k) < calls_left (at_call s k)))"
proof -
  have inv: "info_inv ps calls s" by (rule relaxed_reachable_inv [OF assms])
  have ret: "n = int (length ps) \<and> (p = None \<or> (\<exists>b. p = Some b \<and> buffers s b = Some ps))"
    if "info_inv ps calls s" "at_call s k = Returned n p" for s n p
    using info_invD(1) [OF that(1), of k] info_invD(5) [OF that(1)] that(2) by (auto elim!: ptr_cases)
  have "\<exists>b. p' = Some b \<and> buffers s' b = Some ps"
    if "calls k = CoreIdsCall" "at_call s k = NotCalled \<and> core_thread_ids_ptr s ! ptr_view s k \<noteq> None
          \<or> (\<exists>c. at_call s k = StoreConcurrency c)" "(relaxed_step (Inr ps) calls)\<^sup>*\<^sup>* s s'" "at_call s' k = Returned n' p'"
  proof -
    have v: "ptr_view s k < length (core_thread_ids_ptr s)" using info_invD(2) [OF inv, of k] by (simp add: view_ok_def)
    have "informed k s" using that(2) ptr_some [OF info_invD(5) [OF inv] v] by (auto simp: informed_def)
    then have "informed k s'" by (rule informed_steps [OF that(3) inv assms(2) that(1)])
    then show ?thesis
      using ret [OF relaxed_steps_inv [OF that(3) inv assms(2)] that(4)] that(4) by (auto simp: informed_def)
  qed
  moreover have "j = k" if "at_call s j = MoveIds b" "at_call s k = MoveIds c"
  proof -
    have "b = c" using info_invD(1) [OF inv, of j] info_invD(1) [OF inv, of k] that by simp
    then show ?thesis using locals_okD(1) [OF info_invD(3) [OF inv], of j b k] that by simp
  qed
  moreover have "calls_left (at_call s k) \<le> 9" by (cases "at_call s k") simp_all
  moreover have "\<exists>t. allowed k t s" using newest_allowed [OF inv] by blast
  moreover have "\<exists>s'. info_step (Inr ps) calls k t s = Inr s' \<and>
        (calls_left (at_call s k) = 0 \<or> calls_left (at_call s' k) < calls_left (at_call s k))"
    using info_step_succeeds [OF inv] info_step_decreases by blast
  ultimately show ?thesis using ret [OF inv] by blast
qed

text \<open>The first caller alone initialises, and returns the list that it has made.\<close>

definition first_half :: info_state where
  "first_half = the (relaxed_exec (Inr [0, 2]) (\<lambda>_. CoreIdsCall) [(4, 0), (4, 0), (4, 0), (4, 0)] info_start)"

definition first_done :: info_state where
  "first_done = the (relaxed_exec (Inr [0, 2]) (\<lambda>_. CoreIdsCall) [(4, 1), (4, 0), (4, 0), (4, 1), (4, 1)] first_half)"

lemma first_call:
  "relaxed_exec (Inr [0, 2]) (\<lambda>_. CoreIdsCall) [(4, 0), (4, 0), (4, 0), (4, 0)] info_start = Some first_half"
  "relaxed_exec (Inr [0, 2]) (\<lambda>_. CoreIdsCall) [(4, 1), (4, 0), (4, 0), (4, 1), (4, 1)] first_half = Some first_done"
  "at_call first_half 4 = StoreConcurrency 0" "at_call first_done 4 = Returned 2 (Some 0)"
  by (simp_all add: first_half_def first_done_def info_start_def allowed_def info_step_def load_concurrency_def Let_def
      init_compute_def store_concurrency_def exchange_ptr_def move_ids_def data_pointer_def go_def see_concurrency_def see_ptr_def)

lemma physical_core_ids_correct_witness:
  "at_call first_done 4 = Returned 2 (Some 0) \<and> buffers first_done 0 = Some [0, 2]"
proof -
  have r: "relaxed_reachable (Inr [0, 2]) (\<lambda>_. CoreIdsCall) first_half"
    unfolding relaxed_reachable_def by (rule relaxed_exec_steps [OF first_call(1)])
  note steps = relaxed_exec_steps [OF first_call(2)]
  have "\<exists>b. Some 0 = Some b \<and> buffers first_done b = Some [0, 2]"
    using physical_core_ids_correct [OF r, of 4 _ _ first_done 2 "Some 0"] steps first_call(3,4) by simp
  then show ?thesis using first_call(4) by simp
qed

text \<open>
  C17: The first calls of \<^verbatim>\<open>physical_core_ids()\<close> race: \<^verbatim>\<open>initFunc\<close> stores the number of cores before
  the pointer, and a second thread that runs between the two stores takes the information as
  initialised and returns a span of two elements at a null pointer, on a machine of two cores. This
  happens already if all loads see the newest stores.
\<close>

theorem physical_core_ids_race:
  "\<exists>s. info_reachable (read_cpu_info (Some (cpuinfo_text two_cores))) (\<lambda>_. CoreIdsCall) s
    \<and> at_call s 1 = Returned 2 None"
proof -
  have "\<exists>s. info_exec (Inr [0, 1]) (\<lambda>_. CoreIdsCall) ([0, 0, 0, 0, 0] @ [1, 1, 1, 1, 1, 1]) info_start = Inr s
      \<and> at_call s 1 = Returned 2 None"
    by (simp add: info_step_def info_start_def newest_def load_concurrency_def Let_def init_compute_def
        store_concurrency_def go_def see_concurrency_def see_ptr_def)
  then show ?thesis
    unfolding two_cores_info using info_exec_reachable [OF info_reachable.start] by blast
qed

text \<open>
  The order of the stores is not the only problem: with relaxed loads a call may return a null
  pointer after another one has completed the initialisation.
\<close>

lemma null_after_initialisation:
  "\<exists>s. relaxed_reachable (Inr [0, 2]) (\<lambda>_. CoreIdsCall) s
    \<and> core_thread_ids s = Some 0 \<and> at_call s 4 = Returned 2 (Some 0) \<and> at_call s 5 = Returned 2 None"
proof -
  have "\<exists>s. relaxed_exec (Inr [0, 2]) (\<lambda>_. CoreIdsCall)
      [(4, 0), (4, 0), (4, 0), (4, 0), (4, 1), (4, 0), (4, 0), (4, 1), (4, 1),
       (5, 0), (5, 1), (5, 0), (5, 1), (5, 1), (5, 0)] info_start = Some s
    \<and> core_thread_ids s = Some 0 \<and> at_call s 4 = Returned 2 (Some 0) \<and> at_call s 5 = Returned 2 None"
    by (simp add: info_start_def allowed_def info_step_def load_concurrency_def Let_def
      init_compute_def store_concurrency_def exchange_ptr_def move_ids_def data_pointer_def go_def see_concurrency_def see_ptr_def)
  then show ?thesis unfolding relaxed_reachable_def using relaxed_exec_steps by blast
qed

end
