(* ===== verification/Core_Pinning.thy ===== *)
theory Core_Pinning
  imports Squad_Frontend Cpu_Info Os_Thread
begin

text \<open>
  The documented way to run one thread on every core (\<^verbatim>\<open>doc/Reference.md\<close>): a thread squad with
  \<^verbatim>\<open>num_threads = physical_concurrency()\<close>, \<^verbatim>\<open>pin_to_hardware_threads = true\<close> and
  \<^verbatim>\<open>hardware_thread_mappings = physical_core_ids()\<close>. This theory composes the parser of the
  machine's description, the constructor of the squad and the creation of its threads.
\<close>

definition one_per_core :: "int list \<Rightarrow> squad_params" where
  "one_per_core ps = \<lparr>num_threads = int (length ps), pin_to_hardware_threads = True, spin_wait = False,
     max_num_hardware_threads = 0, hardware_thread_mappings = ps\<rparr>"

text \<open>The machine's processors have different numbers, so different cores have different representatives.\<close>

lemma card_least_processors:
  assumes "inj_on processor X" "finite X"
  shows "card (least_processors X) = card (cores X)"
proof -
  let ?R = "{x \<in> X. \<forall>y\<in>X. same_core x y \<longrightarrow> processor x \<le> processor y}" and ?f = "\<lambda>x. (core_id x, physical_id x)"
  obtain xs where xs: "set xs = X" using finite_list [OF assms(2)] by blast
  have R: "?R = set (unique_cores (sort xs))"
    using set_unique_cores [of "sort xs"] xs by (auto simp: represents_def)
  have "card (least_processors X) = card ?R"
    unfolding least_processors_def by (rule card_image) (use assms(1) in \<open>auto intro: inj_on_subset\<close>)
  also have "\<dots> = card (?f ` ?R)"
    using distinct_unique_cores [of "sort xs"] by (simp add: R card_image distinct_map)
  also have "?f ` ?R = cores X"
    using unique_cores_cores [of "sort xs"] xs by (simp add: R cores_def)
  finally show ?thesis .
qed

lemma core_list_distinct:
  assumes "distinct (map entry_processor es)" "set ps = least_processors (entry_id ` set es)"
    and "length ps = card (cores (entry_id ` set es))"
  shows "distinct ps"
proof (rule card_distinct)
  have "inj_on processor (entry_id ` set es)"
    using assms(1) by (auto simp: inj_on_def entry_id_def distinct_map)
  then show "card (set ps) = length ps" using card_least_processors assms(2,3) by simp
qed

lemma map_nth_nat: "map (\<lambda>i. nat (ps ! nat i)) [0..int (length ps) - 1] = map nat ps"
  by (rule nth_equalityI) (simp_all add: nth_upto)

text \<open>
  C24: On a machine whose hardware threads have different numbers below their count, where
  \<^verbatim>\<open>std::thread::hardware_concurrency()\<close> is this count, and where no call of the system fails: the squad
  that the documentation suggests is constructed without a contract violation; it has one thread per
  physical core, the affinity recorded for each is the lowest hardware thread of a core of its own,
  and a thread can be created with each of these affinities. (For up to 64 cores the tree of
  this squad is exact, so that the properties of the protocol apply to it.)
\<close>

theorem one_thread_per_core:
  assumes "\<forall>e\<in>set es. entry_ok e" "es \<noteq> []" "distinct (map entry_processor es)" "length es < 2 ^ 31"
    and "\<forall>e\<in>set es. entry_processor e < length es"
    and "hardware_concurrency api = length es" "\<forall>m. error_code api m = 0"
  shows "\<exists>ps obj. read_cpu_info (Some (cpuinfo_text es)) = Inr ps
    \<and> new_thread_squad (length es) (one_per_core ps) calls = Inr obj
    \<and> length (affinities obj) = card (cores (entry_id ` set es)) \<and> distinct (affinities obj)
    \<and> int ` set (affinities obj) = least_processors (entry_id ` set es)
    \<and> (\<forall>c\<in>set (affinities obj). \<forall>s. \<exists>t s'. os_fork api (new_os_thread\<lparr>coreAffinity := Some c\<rparr>) s = (Inr t, s'))"
proof -
  have small: "card (cores (entry_id ` set es)) \<le> length es"
    unfolding cores_def by (metis card_image_le card_length finite_set finite_imageI le_trans)
  then have "card (cores (set (map entry_id es))) < 2 ^ 32" using assms(4) by simp
  from core_thread_ids [OF this] obtain ps where "core_thread_ids_of (map entry_id es) = Inr ps" and
    ps: "set ps = least_processors (entry_id ` set es)" "length ps = card (cores (entry_id ` set es))"
    by auto
  then have read: "read_cpu_info (Some (cpuinfo_text es)) = Inr ps"
    by (simp add: read_cpu_info_text [OF assms(1)] noexcept_def)
  have range: "\<forall>c\<in>set ps. 0 \<le> c \<and> c < int (length es)"
    using assms(5) by (auto simp: ps(1) least_processors_def entry_id_def)
  have "cores (entry_id ` set es) \<noteq> {}" "finite (cores (entry_id ` set es))" using assms(2) by (auto simp: cores_def)
  then have len: "0 < length ps" by (simp add: ps(2) card_gt_0_iff)
  then have maps: "hardware_thread_mappings (one_per_core ps) \<noteq> []" by (auto simp: one_per_core_def)
  let ?n = "int (length ps)"
  have chk: "check_params (one_per_core ps) = Inr (one_per_core ps)" by (simp add: check_params_def one_per_core_def)
  have k: "?n = min (int (length es)) (int (length ps))" using small ps(2) by simp
  obtain obj where obj: "new_thread_squad (length es) (one_per_core ps) calls = Inr obj"
      "affinities obj = map (\<lambda>i. nat (ps ! nat (i mod ?n))) [0..?n - 1]"
    using pinned_squad [OF chk _ _ _ _ _ refl refl, of "length es" calls] assms(2,4) range len k maps small ps(2)
    by (auto simp: one_per_core_def)
  have "map (\<lambda>i. nat (ps ! nat (i mod ?n))) [0..?n - 1] = map (\<lambda>i. nat (ps ! nat i)) [0..?n - 1]" by simp
  then have aff: "affinities obj = map nat ps" using obj(2) map_nth_nat by metis
  have "inj_on nat (set ps)" by (rule inj_onI) (use range eq_nat_nat_iff in blast)
  then have "distinct (map nat ps)"
    using core_list_distinct [OF assms(3) ps] by (simp add: distinct_map)
  moreover have "int ` set (map nat ps) = set ps" using range by (force simp: image_image)
  moreover have "\<exists>t s'. os_fork api (new_os_thread\<lparr>coreAffinity := Some c\<rparr>) s = (Inr t, s')" if "c \<in> set (map nat ps)" for c s
    by (rule os_fork_succeeds) (use that range assms(6,7) in \<open>auto simp: new_os_thread_def\<close>)
  ultimately show ?thesis using read obj(1) aff ps by (intro exI [of _ ps] exI [of _ obj]) auto
qed

lemma one_thread_per_core_witness:
  "\<exists>obj. new_thread_squad 4 (one_per_core [0, 1]) demo_calls = Inr obj \<and> distinct (affinities obj)
    \<and> length (affinities obj) = 2"
proof -
  let ?api = "demo_api\<lparr>error_code := (\<lambda>_. 0)\<rparr>"
  have len: "length two_cores = 4" by (simp add: two_cores_def)
  have "\<exists>ps obj. read_cpu_info (Some (cpuinfo_text two_cores)) = Inr ps
    \<and> new_thread_squad (length two_cores) (one_per_core ps) demo_calls = Inr obj
    \<and> length (affinities obj) = card (cores (entry_id ` set two_cores)) \<and> distinct (affinities obj)
    \<and> int ` set (affinities obj) = least_processors (entry_id ` set two_cores)
    \<and> (\<forall>c\<in>set (affinities obj). \<forall>s. \<exists>t s'. os_fork ?api (new_os_thread\<lparr>coreAffinity := Some c\<rparr>) s = (Inr t, s'))"
    by (rule one_thread_per_core [OF two_cores_ok]) (simp_all add: two_cores_def demo_api_def)
  moreover have "cores (entry_id ` set two_cores) = {(0, 0), (1, 0)}"
    by (simp add: cores_def two_cores_def entry_id_def insert_commute)
  ultimately show ?thesis unfolding two_cores_info len by fastforce
qed

end
