(* ===== verification/Spec2Isabelle.thy ===== *)
theory Spec2Isabelle
  imports Checked_Arith Alignment Squad_Races Squad_Sync_Types Squad_Program_Properties Squad_Wait
    Squad_Frontend Thread_Name Windows_Thread Windows_Pages Write_Trap Page_Alloc Allocator_Stack Unique_Ptr Buffer_Stack Buffer_Iterator Hardware_Info Cpu_Cache Core_Pinning
begin

text \<open>
  A verification library for patton, a C++ library of thread squads, aligned allocators and
  buffers. The theories translate the code function by function and prove what makes it
  correct; this theory imports them all.

  The program. A \<^verbatim>\<open>thread_squad\<close> (\<^verbatim>\<open>include/patton/thread_squad.hpp\<close>, \<^verbatim>\<open>src/src/thread_squad.cpp\<close>) is a
  fixed set of worker threads that execute one task after the other; the workers form a tree
  along which tasks are handed down and results are merged upwards. The state of the workers is
  kept in an \<^verbatim>\<open>aligned_buffer\<close> (\<^verbatim>\<open>include/patton/buffer.hpp\<close>), whose memory comes from an allocator of
  \<^verbatim>\<open>include/patton/memory.hpp\<close>; allocators reach down to the pages of the operating system or to
  the heap (\<^verbatim>\<open>src/src/memory.cpp\<close>) and align with the help of the sizes that the hardware reports.

  The parts of the development:

  \<^item> \<^verbatim>\<open>Prelude\<close>: the type \<^verbatim>\<open>size_t\<close>, failures, the error monad, generic lemmas.

  \<^item> \<^verbatim>\<open>Squad_Tree\<close>, \<^verbatim>\<open>Squad_Reduce\<close>: the tree of threads (\<^verbatim>\<open>init\<close>, \<^verbatim>\<open>to_subthreads\<close>,
    \<^verbatim>\<open>from_subthreads\<close>) and reductions over it; the interface \<^verbatim>\<open>thread_tree\<close> says what a traversal
    promises.

  \<^item> \<^verbatim>\<open>Squad_Task\<close>, \<^verbatim>\<open>Squad_Protocol\<close>: tasks, and the concurrent protocol of \<^verbatim>\<open>run\<close> and \<^verbatim>\<open>run_thread\<close> as a step
    relation. The state \<^verbatim>\<open>squad\<close> holds \<^verbatim>\<open>thread_data\<close> (the atomics, the pass counter, the thread
    handle) for each thread, a program counter per thread, and the current task. Ghost
    components record what was executed.

  \<^item> \<^verbatim>\<open>Tree_Invariant\<close>, \<^verbatim>\<open>Squad_Invariant\<close>, \<^verbatim>\<open>Squad_Safety\<close>, \<^verbatim>\<open>Squad_Results\<close>, \<^verbatim>\<open>Squad_Liveness\<close>,
    \<^verbatim>\<open>Squad_Properties\<close>: the inductive invariant, the absence of faults, the results of tasks, a
    measure that every step decreases, the absence of deadlock, and the properties.

    \<^verbatim>\<open>Squad_Races\<close>: what the threads share without atomics is never accessed by two of them at once.

  \<^item> \<^verbatim>\<open>Squad_Sync\<close>, \<^verbatim>\<open>Squad_Sync_Invariant\<close>, \<^verbatim>\<open>Squad_Sync_Steps\<close>, \<^verbatim>\<open>Squad_Sync_Broadcast\<close>,
    \<^verbatim>\<open>Squad_Sync_Properties\<close>: \<^verbatim>\<open>synchronize()\<close>, \<^verbatim>\<open>reduce()\<close> and \<^verbatim>\<open>reduce_transform()\<close> of a task context. The
    state has the two signals, the data pointer and the synchronizer of every thread that executes the
    task; \<^verbatim>\<open>sync_step\<close> is \<^verbatim>\<open>synchronize_collect\<close> and \<^verbatim>\<open>synchronize_broadcast\<close>. The results are those of a
    specification that reduces in the order of the tree (\<^verbatim>\<open>tree_results\<close>); for associative operations
    this is the reduction in index order (\<^verbatim>\<open>sequential_results\<close>). Every operation
    is a barrier, and all return, associative or not.

    \<^verbatim>\<open>Squad_Sync_Types\<close>: the untyped pointers between the threads are to live objects of the right type, and
    no two threads access the data behind them at the same time.

  \<^item> \<^verbatim>\<open>Squad_Program\<close>, \<^verbatim>\<open>Squad_Program_Invariant\<close>, \<^verbatim>\<open>Squad_Program_Properties\<close>: the composition of both. A
    worker that executes its task makes the steps of the task's synchronization operations
    (\<^verbatim>\<open>program_worker_step\<close>) before it goes on with the protocol. No thread fails, and every program comes
    to its end with the specified results.

  \<^item> \<^verbatim>\<open>Squad_Wait\<close>: the spin-wait loops over the sequence of values that the loads see.
    \<^verbatim>\<open>Squad_Frontend\<close>: parameters, checks, pinning, and the calls of the class as tasks.

  \<^item> \<^verbatim>\<open>Os_Errors\<close>, \<^verbatim>\<open>Os_Statements\<close>: raising the errors of the system (\<^verbatim>\<open>src/src/errors.cpp\<close>), and statements
    that may throw. \<^verbatim>\<open>Os_Thread\<close>: forking, pinning and joining POSIX threads, with every call of the
    system free to fail; what is taken from the system is counted. \<^verbatim>\<open>Windows_Thread\<close>: the same on
    Windows, where an exception can leave a suspended thread. \<^verbatim>\<open>Thread_Name\<close>: the names of the threads.

  \<^item> \<^verbatim>\<open>Checked_Arith\<close>, \<^verbatim>\<open>Alignment\<close>, \<^verbatim>\<open>Write_Trap\<close>: checked arithmetic on words, special and combined
    alignment values, the pattern that detects out-of-bounds writes, over a memory of bytes.

  \<^item> \<^verbatim>\<open>Page_Alloc\<close>: \<^verbatim>\<open>page_alloc\<close> and its siblings; the state of the operating system has the mapped
    pages and the bytes. \<^verbatim>\<open>Allocator\<close>: the contract of an allocator as the locale \<^verbatim>\<open>allocator\<close>, with
    what clients get from it. \<^verbatim>\<open>Construct\<close>: construction of objects with rollback and the deleters, over
    a state that records which objects live. \<^verbatim>\<open>Page_Allocators\<close>, \<^verbatim>\<open>Heap_Alloc\<close>,
    \<^verbatim>\<open>Aligned_Adaptor\<close> and \<^verbatim>\<open>Allocator_Stack\<close>: the allocators, each an interpretation of the contract.
    \<^verbatim>\<open>Unique_Ptr\<close>: \<^verbatim>\<open>allocate_unique\<close>. \<^verbatim>\<open>Windows_Pages\<close>: the Windows branches of the page allocators, which
    keep the contract for large pages too.

  \<^item> \<^verbatim>\<open>Buffer_Loops\<close>, \<^verbatim>\<open>Buffer\<close>, \<^verbatim>\<open>Buffer_Programs\<close>, \<^verbatim>\<open>Row_Buffer\<close>, \<^verbatim>\<open>Buffer_Stack\<close>: the buffers, programs
    that use them (a step relation over variables that hold buffers), and their default
    allocator. \<^verbatim>\<open>Buffer_Iterator\<close>: both iterators as interpretations of the interface
    \<^verbatim>\<open>random_access\<close>.

  \<^item> \<^verbatim>\<open>Text_Scan\<close>: lines and the conversions of \<^verbatim>\<open>sscanf\<close>. \<^verbatim>\<open>Hardware_Info\<close> (\<^verbatim>\<open>src/src/new.cpp\<close>): the
    page, large page and cache line sizes with their caches. \<^verbatim>\<open>Cpu_Info\<close>, \<^verbatim>\<open>Cpu_Cache\<close>
    (\<^verbatim>\<open>src/src/cpuinfo.cpp\<close>): the parser of \<^verbatim>\<open>/proc/cpuinfo\<close> and the choice of one processor per
    physical core; the cached value, its initialisation by concurrent callers over relaxed atomics (for
    each atomic its stores in modification order, for each call the view of its thread), and their race.
    \<^verbatim>\<open>Core_Pinning\<close> composes them with the squad: one thread on every physical core. \<^verbatim>\<open>Windows_Cpu\<close>: the
    Windows branches of \<^verbatim>\<open>cpuinfo.cpp\<close>.

  Bounds and fuel. Integers of type \<^verbatim>\<open>size_t\<close> are words of 64 bits; a C++ \<^verbatim>\<open>int\<close> is an integer whose
  bounds are proved or are failures of the model. No definition takes fuel: loops terminate by
  a measure, and those that may run forever (waiting, the range-based \<^verbatim>\<open>for\<close>) are partial functions whose
  results are proved to exist. The properties of squads hold for every number of threads whose
  tree is exact (\<^verbatim>\<open>tree_exact\<close>), among them all from 1 to 64; a squad of 65 fails. None of
  the properties about faults and termination asks for associative operations; only the order of a
  reduction depends on it, which the documentation does not say.

  The programs with buffers (\<^verbatim>\<open>Buffer_Stack\<close>) are proved safe provided that the counter that the code
  leaves uninitialised happens to be 0 in every construction in which an element constructor throws
  (\<^verbatim>\<open>setup_ok\<close>); \<^verbatim>\<open>Buffer_Stack\<close> also shows what happens otherwise. A matrix with aligned rows needs no such
  proviso.

  Abstractions. The atomics of the squad are sequentially consistent, which the acquire and release
  pairs of the code and the absence of data races (\<^verbatim>\<open>Squad_Races\<close>, \<^verbatim>\<open>Squad_Sync_Types\<close>) justify; the
  relaxed atomics of \<^verbatim>\<open>cpuinfo.cpp\<close> are modelled as such (\<^verbatim>\<open>Cpu_Cache\<close>), but not the plain reads of the
  elements behind the pointer, which nothing orders after the writes. In the
  protocol, starting a thread does not fail (\<^verbatim>\<open>Os_Thread\<close> has the failures). The operating system,
  the choice of addresses by the heap, the sizes of the hardware, and the functions and element
  constructors of the user are parameters; what the code relies on of them is a named hypothesis.

  Not modelled: the macOS branches, which are single calls of the system; the page sizes on Windows
  (\<^verbatim>\<open>new.cpp\<close>), which are calls of the system; type traits and \<^verbatim>\<open>default_init_allocator\<close>, which choose
  among overloads at compile time; the converting members of the iterators, which cannot be called,
  as their parameter type cannot be deduced; debug output; the benchmark and the tests.
\<close>

end
